theory Spec2Isabelle
  imports Complex_Main "HOL-Library.Word" "HOL-Library.List_Lexorder"
    "HOL-Library.Product_Lexorder"
begin

section \<open>Characters and the delimiter classifier\<close>

text \<open>
  A JavaScript string is a sequence of UTF-16 code units, and \<^verbatim>\<open>textContent[i]\<close> is
  the one-code-unit string at index \<open>i\<close>. A code unit is a 16-bit word.
\<close>

type_synonym codeUnit = "16 word"
type_synonym jsString = "codeUnit list"

text \<open>
  The regular-expression class escape \<^verbatim>\<open>\s\<close> of ECMAScript: the WhiteSpace and
  LineTerminator productions (TAB, LF, VT, FF, CR, SP, NBSP, U+1680, U+2000..U+200A,
  U+2028, U+2029, U+202F, U+205F, U+3000, U+FEFF).
\<close>

definition isJsWhitespace :: "codeUnit \<Rightarrow> bool" where
  "isJsWhitespace c =
     (c \<in> {0x09, 0x0A, 0x0B, 0x0C, 0x0D, 0x20, 0xA0, 0x1680}
      \<or> (0x2000 \<le> c \<and> c \<le> 0x200A)
      \<or> c \<in> {0x2028, 0x2029, 0x202F, 0x205F, 0x3000, 0xFEFF})"

text \<open>
  The Unicode property escape \<^verbatim>\<open>\p{Cf}\<close> (general category Format) restricted to
  what one code unit can be: with the \<^verbatim>\<open>u\<close> flag a lone surrogate is a code point of
  category Cs, and the supplementary-plane format characters need two code units.
\<close>

definition isFormatChar :: "codeUnit \<Rightarrow> bool" where
  "isFormatChar c =
     (c = 0xAD \<or> (0x600 \<le> c \<and> c \<le> 0x605) \<or> c \<in> {0x61C, 0x6DD, 0x70F}
      \<or> (0x890 \<le> c \<and> c \<le> 0x891) \<or> c \<in> {0x8E2, 0x180E}
      \<or> (0x200B \<le> c \<and> c \<le> 0x200F) \<or> (0x202A \<le> c \<and> c \<le> 0x202E)
      \<or> (0x2060 \<le> c \<and> c \<le> 0x2064) \<or> (0x2066 \<le> c \<and> c \<le> 0x206F)
      \<or> c = 0xFEFF \<or> (0xFFF9 \<le> c \<and> c \<le> 0xFFFB))"

text \<open>
  A character class \<^verbatim>\<open>[...]\<close> is a list of atoms, each the escape \<^verbatim>\<open>\s\<close> or one
  literal code unit; \<^verbatim>\<open>/[...]/.test(ch)\<close> on a string of length 1 asks whether some
  atom matches its only code unit.
\<close>

datatype classAtom = WhiteSpaceEscape | Literal codeUnit

fun atomMatches :: "classAtom \<Rightarrow> codeUnit \<Rightarrow> bool" where
  "atomMatches WhiteSpaceEscape c = isJsWhitespace c"
| "atomMatches (Literal l) c = (c = l)"

fun classTest :: "classAtom list \<Rightarrow> codeUnit \<Rightarrow> bool" where
  "classTest [] c = False"
| "classTest (a # as) c = (atomMatches a c \<or> classTest as c)"

text \<open>
  The character class of \<^verbatim>\<open>isDelimiter\<close> in part_001, atom by atom in source order: \<^verbatim>\<open>\s\<close>, underscore, hyphen-minus, em dash U+2014, en dash U+2013,
  slash, parentheses, curly braces, square brackets, comma, dot, colon, semicolon,
  question mark, exclamation mark, horizontal ellipsis U+2026.
\<close>

definition delimiterClass :: "classAtom list" where
  "delimiterClass =
     [WhiteSpaceEscape, Literal 0x5F, Literal 0x2D, Literal 0x2014, Literal 0x2013,
      Literal 0x2F, Literal 0x28, Literal 0x29, Literal 0x7B, Literal 0x7D,
      Literal 0x5B, Literal 0x5D, Literal 0x2C, Literal 0x2E, Literal 0x3A,
      Literal 0x3B, Literal 0x3F, Literal 0x21, Literal 0x2026]"

definition isDelimiter :: "codeUnit \<Rightarrow> bool" where
  "isDelimiter c = classTest delimiterClass c"

definition isWordChar :: "codeUnit \<Rightarrow> bool" where
  "isWordChar c = (\<not> isDelimiter c)"

text \<open>
  The class of \<^verbatim>\<open>isDelimiter\<close> in part_002 is the same without the em dash.
\<close>

definition delimiterClass2 :: "classAtom list" where
  "delimiterClass2 =
     [WhiteSpaceEscape, Literal 0x5F, Literal 0x2D, Literal 0x2013,
      Literal 0x2F, Literal 0x28, Literal 0x29, Literal 0x7B, Literal 0x7D,
      Literal 0x5B, Literal 0x5D, Literal 0x2C, Literal 0x2E, Literal 0x3A,
      Literal 0x3B, Literal 0x3F, Literal 0x21, Literal 0x2026]"

definition isDelimiter2 :: "codeUnit \<Rightarrow> bool" where
  "isDelimiter2 c = classTest delimiterClass2 c"

definition isWordChar2 :: "codeUnit \<Rightarrow> bool" where
  "isWordChar2 c = (\<not> isDelimiter2 c)"

text \<open>\<^verbatim>\<open>/\s|\p{Cf}/u.test(ch)\<close>, the same in both parts.\<close>

definition isWhitespaceOrZeroWidth :: "codeUnit \<Rightarrow> bool" where
  "isWhitespaceOrZeroWidth ch = (isJsWhitespace ch \<or> isFormatChar ch)"


section \<open>The content tree\<close>

text \<open>
  The DOM below \<^verbatim>\<open>document.body\<close>. A text node holds its \<^verbatim>\<open>textContent\<close>; an element
  holds its \<^verbatim>\<open>offsetWidth\<close>, its \<^verbatim>\<open>offsetHeight\<close> and its \<^verbatim>\<open>childNodes\<close>; any other
  node (a comment, a processing instruction) has no children and is neither a text node
  nor an element.
\<close>

datatype node = TextNode jsString | ElementNode int int "node list" | OtherNode

fun childNodes :: "node \<Rightarrow> node list" where
  "childNodes (ElementNode w h cs) = cs"
| "childNodes (TextNode t) = []"
| "childNodes OtherNode = []"

text \<open>
  A node reference is the path of child indices from \<^verbatim>\<open>document.body\<close>, which is the
  empty path. The order \<open><\<close> on paths is tree order (a node before its descendants, a
  node's subtree before its next sibling).
\<close>

type_synonym path = "nat list"

fun nodeAt :: "node \<Rightarrow> path \<Rightarrow> node option" where
  "nodeAt n [] = Some n"
| "nodeAt n (i # p) =
     (if i < length (childNodes n) then nodeAt (childNodes n ! i) p else None)"

definition isTextNode :: "node \<Rightarrow> path \<Rightarrow> bool" where
  "isTextNode body p = (case nodeAt body p of Some (TextNode t) \<Rightarrow> True | _ \<Rightarrow> False)"

text \<open>
  \<^verbatim>\<open>node.textContent\<close> of a text node. The source reads \<^verbatim>\<open>textContent\<close> of text nodes
  only, and every index it reads there is guarded to lie below the length.
\<close>

definition nodeText :: "node \<Rightarrow> path \<Rightarrow> jsString" where
  "nodeText body p = (case nodeAt body p of Some (TextNode t) \<Rightarrow> t | _ \<Rightarrow> [])"

definition parentNode :: "path \<Rightarrow> path" where
  "parentNode p = butlast p"

definition nextSibling :: "node \<Rightarrow> path \<Rightarrow> path option" where
  "nextSibling body p =
     (if p = [] then None
      else if nodeAt body (butlast p @ [Suc (last p)]) = None then None
      else Some (butlast p @ [Suc (last p)]))"

definition previousSibling :: "node \<Rightarrow> path \<Rightarrow> path option" where
  "previousSibling body p =
     (if p = [] \<or> last p = 0 then None
      else if nodeAt body (butlast p @ [last p - 1]) = None then None
      else Some (butlast p @ [last p - 1]))"

text \<open>
  \<^verbatim>\<open>occupiesSpace(node)\<close>: every node that is not an element occupies space; an element
  does when both its offset width and its offset height are positive.
\<close>

fun occupiesSpace :: "node \<Rightarrow> bool" where
  "occupiesSpace (ElementNode w h cs) = (w > 0 \<and> h > 0)"
| "occupiesSpace (TextNode t) = True"
| "occupiesSpace OtherNode = True"

text \<open>All paths of a tree, used to measure how much of the tree a walk has left.\<close>

fun allPaths :: "node \<Rightarrow> path list" and childPaths :: "nat \<Rightarrow> node list \<Rightarrow> path list" where
  "allPaths (TextNode t) = [[]]"
| "allPaths OtherNode = [[]]"
| "allPaths (ElementNode w h cs) = [] # childPaths 0 cs"
| "childPaths i [] = []"
| "childPaths i (c # cs) = map ((#) i) (allPaths c) @ childPaths (Suc i) cs"

definition nodesAfter :: "node \<Rightarrow> path \<Rightarrow> nat" where
  "nodesAfter body p = length (filter (\<lambda>q. p < q) (allPaths body))"

definition nodesBefore :: "node \<Rightarrow> path \<Rightarrow> nat" where
  "nodesBefore body p = length (filter (\<lambda>q. q < p) (allPaths body))"

lemma childPaths_mem:
  "j < length cs \<Longrightarrow> r \<in> set (allPaths (cs ! j)) \<Longrightarrow> (i + j) # r \<in> set (childPaths i cs)"
proof (induction cs arbitrary: i j)
  case Nil
  then show ?case by simp
next
  case (Cons c cs)
  show ?case
  proof (cases j)
    case 0
    with Cons.prems show ?thesis by simp
  next
    case (Suc k)
    with Cons.prems have "k < length cs" "r \<in> set (allPaths (cs ! k))" by simp_all
    from Cons.IH[OF this, of "Suc i"] Suc show ?thesis by simp
  qed
qed

lemma nodeAt_allPaths: "nodeAt n p = Some m \<Longrightarrow> p \<in> set (allPaths n)"
proof (induction p arbitrary: n)
  case Nil
  show ?case by (cases n) simp_all
next
  case (Cons i p)
  from Cons.prems have lt: "i < length (childNodes n)"
    and at: "nodeAt (childNodes n ! i) p = Some m"
    by (simp_all split: if_splits)
  from lt obtain w h cs where n: "n = ElementNode w h cs" by (cases n) simp_all
  from Cons.IH[OF at] have "p \<in> set (allPaths (cs ! i))" using n by simp
  from childPaths_mem[OF _ this, of 0] lt n show ?case by simp
qed

lemma filter_length_less:
  assumes "x \<in> set xs" "Q x" "\<not> P x" "\<And>y. P y \<Longrightarrow> Q y"
  shows "length (filter P xs) < length (filter Q xs)"
proof -
  have eq: "filter P xs = filter P (filter Q xs)"
    using assms(4) by (induction xs) auto
  have "x \<in> set (filter Q xs)" using assms(1,2) by simp
  then have "length (filter P (filter Q xs)) < length (filter Q xs)"
    using assms(3) by (meson length_filter_less)
  with eq show ?thesis by simp
qed

lemma nodesAfter_less:
  "nodeAt body q = Some m \<Longrightarrow> p < q \<Longrightarrow> nodesAfter body q < nodesAfter body p"
  unfolding nodesAfter_def
  by (rule filter_length_less[where x = q]) (auto dest: nodeAt_allPaths)

lemma nodesBefore_less:
  "nodeAt body q = Some m \<Longrightarrow> q < p \<Longrightarrow> nodesBefore body q < nodesBefore body p"
  unfolding nodesBefore_def
  by (rule filter_length_less[where x = q]) (auto dest: nodeAt_allPaths)

lemma snoc_less_snoc: "i < j \<Longrightarrow> p @ [i] < p @ [j :: nat]"
  by (induction p) simp_all

lemma nextSibling_Some:
  "nextSibling body p = Some q \<Longrightarrow>
     p \<noteq> [] \<and> q = butlast p @ [Suc (last p)] \<and> nodeAt body q \<noteq> None \<and> p < q"
proof -
  assume a: "nextSibling body p = Some q"
  then have ne: "p \<noteq> []" and q: "q = butlast p @ [Suc (last p)]" and v: "nodeAt body q \<noteq> None"
    by (auto simp: nextSibling_def split: if_splits)
  have "butlast p @ [last p] < butlast p @ [Suc (last p)]" by (rule snoc_less_snoc) simp
  with ne q have "p < q" by simp
  with ne q v show ?thesis by simp
qed

lemma previousSibling_Some:
  "previousSibling body p = Some q \<Longrightarrow>
     p \<noteq> [] \<and> 0 < last p \<and> q = butlast p @ [last p - 1] \<and> nodeAt body q \<noteq> None \<and> q < p"
proof -
  assume a: "previousSibling body p = Some q"
  then have ne: "p \<noteq> []" and pos: "0 < last p" and q: "q = butlast p @ [last p - 1]"
    and v: "nodeAt body q \<noteq> None"
    by (auto simp: previousSibling_def split: if_splits)
  have "butlast p @ [last p - 1] < butlast p @ [last p]" by (rule snoc_less_snoc) (use pos in simp)
  with ne q have "q < p" by simp
  with ne pos q v show ?thesis by simp
qed


lemma nodeAt_append:
  "nodeAt n (p @ q) = (case nodeAt n p of None \<Rightarrow> None | Some m \<Rightarrow> nodeAt m q)"
  by (induction p arbitrary: n) simp_all

lemma sibling_valid:
  "nodeAt body (p @ [j]) \<noteq> None \<Longrightarrow> k \<le> j \<Longrightarrow> nodeAt body (p @ [k]) \<noteq> None"
  by (auto simp: nodeAt_append split: option.splits if_splits)

lemma isTextNode_valid: "isTextNode body p \<Longrightarrow> nodeAt body p \<noteq> None"
  by (auto simp: isTextNode_def split: option.splits)

lemma not_valid_not_text: "nodeAt body p = None \<Longrightarrow> \<not> isTextNode body p"
  by (simp add: isTextNode_def)

section \<open>Ranges\<close>

text \<open>
  A DOM \<^verbatim>\<open>Range\<close>: two boundary points, each a container and an offset. The source
  only ever puts a boundary in a text node, where the offset counts code units.
\<close>

record domRange =
  startContainer :: path
  startOffset :: nat
  endContainer :: path
  endOffset :: nat

definition collapsed :: "domRange \<Rightarrow> bool" where
  "collapsed r = (startContainer r = endContainer r \<and> startOffset r = endOffset r)"

text \<open>
  Boundary points in text nodes compare by tree order of the containers, then by offset.
  The range of \<^verbatim>\<open>document.createRange()\<close> sits at the start of the document, before
  every text position, and is modelled at offset 0 of the empty path.
\<close>

definition isBefore :: "path \<times> nat \<Rightarrow> path \<times> nat \<Rightarrow> bool" where
  "isBefore a b = (fst a < fst b \<or> (fst a = fst b \<and> snd a < snd b))"

definition createRange :: domRange where
  "createRange = \<lparr>startContainer = [], startOffset = 0, endContainer = [], endOffset = 0\<rparr>"

text \<open>
  \<^verbatim>\<open>Range.setStart\<close>, \<^verbatim>\<open>Range.setEnd\<close> and \<^verbatim>\<open>Range.collapse(toStart)\<close> of the DOM
  standard: a start set after the end drags the end along, an end set before the start
  drags the start along.
\<close>

definition setStart :: "path \<Rightarrow> nat \<Rightarrow> domRange \<Rightarrow> domRange" where
  "setStart n k r =
     (if isBefore (endContainer r, endOffset r) (n, k)
      then r\<lparr>startContainer := n, startOffset := k, endContainer := n, endOffset := k\<rparr>
      else r\<lparr>startContainer := n, startOffset := k\<rparr>)"

definition setEnd :: "path \<Rightarrow> nat \<Rightarrow> domRange \<Rightarrow> domRange" where
  "setEnd n k r =
     (if isBefore (n, k) (startContainer r, startOffset r)
      then r\<lparr>startContainer := n, startOffset := k, endContainer := n, endOffset := k\<rparr>
      else r\<lparr>endContainer := n, endOffset := k\<rparr>)"

definition collapse :: "bool \<Rightarrow> domRange \<Rightarrow> domRange" where
  "collapse toStart r =
     (if toStart then r\<lparr>endContainer := startContainer r, endOffset := startOffset r\<rparr>
      else r\<lparr>startContainer := endContainer r, startOffset := endOffset r\<rparr>)"


section \<open>Word resolution\<close>

text \<open>
  \<^verbatim>\<open>setHighlightWordRange\<close> is the same text in part_001 and part_002 except for the
  delimiter class it calls, so the loops take the classifier \<open>delim\<close> as a parameter
  (\<^verbatim>\<open>isWordChar\<close> is its negation) and each part instantiates it.

  The inner forward loop:
  \<^verbatim>\<open>while (endOffset < endNode.textContent.length && isWordChar(endNode.textContent[endOffset])) endOffset++;\<close>
\<close>

function scanWordEnd :: "(codeUnit \<Rightarrow> bool) \<Rightarrow> jsString \<Rightarrow> nat \<Rightarrow> nat" where
  "scanWordEnd delim text endOff =
     (if endOff < length text \<and> \<not> delim (text ! endOff)
      then scanWordEnd delim text (Suc endOff) else endOff)"
  by pat_completeness auto
termination
  by (relation "measure (\<lambda>(delim, text, endOff). length text - endOff)") auto

text \<open>
  The outer forward loop: after the scan, stop if a delimiter stopped the scan or if the
  next sibling is not a text node; otherwise continue at offset 0 of the next sibling.
\<close>

function findWordEnd :: "(codeUnit \<Rightarrow> bool) \<Rightarrow> node \<Rightarrow> path \<Rightarrow> nat \<Rightarrow> path \<times> nat" where
  "findWordEnd delim body endNode endOff =
     (if scanWordEnd delim (nodeText body endNode) endOff < length (nodeText body endNode)
      then (endNode, scanWordEnd delim (nodeText body endNode) endOff)
      else case nextSibling body endNode of
             None \<Rightarrow> (endNode, scanWordEnd delim (nodeText body endNode) endOff)
           | Some next \<Rightarrow>
               if isTextNode body next then findWordEnd delim body next 0
               else (endNode, scanWordEnd delim (nodeText body endNode) endOff))"
  by pat_completeness auto
termination
proof (relation "measure (\<lambda>(delim, body, endNode, endOff). nodesAfter body endNode)")
  show "wf (measure (\<lambda>(delim, body, endNode, endOff). nodesAfter body endNode))" by simp
next
  fix delim :: "codeUnit \<Rightarrow> bool" and body endNode and endOff :: nat and x2
  assume "nextSibling body endNode = Some x2"
  from nextSibling_Some[OF this] obtain m where "nodeAt body x2 = Some m" "endNode < x2" by auto
  from nodesAfter_less[OF this]
  show "((delim, body, x2, 0), (delim, body, endNode, endOff))
        \<in> measure (\<lambda>(delim, body, endNode, endOff). nodesAfter body endNode)"
    by simp
qed

text \<open>
  The inner backward loop:
  \<^verbatim>\<open>while (startOffset > 0 && isWordChar(startNode.textContent[startOffset - 1])) startOffset--;\<close>
\<close>

function scanWordStart :: "(codeUnit \<Rightarrow> bool) \<Rightarrow> jsString \<Rightarrow> nat \<Rightarrow> nat" where
  "scanWordStart delim text startOff =
     (if startOff > 0 \<and> \<not> delim (text ! (startOff - 1))
      then scanWordStart delim text (startOff - 1) else startOff)"
  by pat_completeness auto
termination
  by (relation "measure (\<lambda>(delim, text, startOff). startOff)") auto

text \<open>
  \<^verbatim>\<open>do { prevNode = prevNode.previousSibling; } while (prevNode?.nodeType === Node.TEXT_NODE && prevNode.textContent === '');\<close>
  The result is the first previous sibling that is not an empty text node, if any.
\<close>

function skipEmptyPrevious :: "node \<Rightarrow> path \<Rightarrow> path option" where
  "skipEmptyPrevious body prevNode =
     (case previousSibling body prevNode of
        None \<Rightarrow> None
      | Some prev \<Rightarrow>
          if isTextNode body prev \<and> nodeText body prev = [] then skipEmptyPrevious body prev
          else Some prev)"
  by pat_completeness auto
termination
proof (relation "measure (\<lambda>(body, prevNode). nodesBefore body prevNode)")
  show "wf (measure (\<lambda>(body, prevNode). nodesBefore body prevNode))" by simp
next
  fix body prevNode x2
  assume "previousSibling body prevNode = Some x2"
  from previousSibling_Some[OF this] obtain m where "nodeAt body x2 = Some m" "x2 < prevNode" by auto
  from nodesBefore_less[OF this]
  show "((body, x2), (body, prevNode)) \<in> measure (\<lambda>(body, prevNode). nodesBefore body prevNode)"
    by simp
qed

lemma skipEmptyPrevious_Some:
  "skipEmptyPrevious body p = Some q \<Longrightarrow> nodeAt body q \<noteq> None \<and> q < p"
proof (induction body p rule: skipEmptyPrevious.induct)
  case (1 body prevNode)
  show ?case
  proof (cases "previousSibling body prevNode")
    case None
    with "1.prems" show ?thesis by simp
  next
    case (Some prev)
    note ps = previousSibling_Some[OF Some]
    show ?thesis
    proof (cases "isTextNode body prev \<and> nodeText body prev = []")
      case True
      with "1.prems" Some have "skipEmptyPrevious body prev = Some q" by simp
      from "1.IH"[OF Some True this] ps show ?thesis by auto
    next
      case False
      with "1.prems" Some have "prev = q" by auto
      with ps show ?thesis by blast
    qed
  qed
qed

text \<open>
  The outer backward loop: after the scan, stop if a delimiter stopped the scan; skip the
  empty previous sibling text nodes; stop if what is found is not a text node or ends in
  a delimiter; otherwise continue at its last character.
\<close>

function findWordStart :: "(codeUnit \<Rightarrow> bool) \<Rightarrow> node \<Rightarrow> path \<Rightarrow> nat \<Rightarrow> path \<times> nat" where
  "findWordStart delim body startNode startOff =
     (if scanWordStart delim (nodeText body startNode) startOff > 0
      then (startNode, scanWordStart delim (nodeText body startNode) startOff)
      else case skipEmptyPrevious body startNode of
             None \<Rightarrow> (startNode, scanWordStart delim (nodeText body startNode) startOff)
           | Some prevNode \<Rightarrow>
               if \<not> isTextNode body prevNode
                  \<or> delim (nodeText body prevNode ! (length (nodeText body prevNode) - 1))
               then (startNode, scanWordStart delim (nodeText body startNode) startOff)
               else findWordStart delim body prevNode (length (nodeText body prevNode) - 1))"
  by pat_completeness auto
termination
proof (relation "measure (\<lambda>(delim, body, startNode, startOff). nodesBefore body startNode)")
  show "wf (measure (\<lambda>(delim, body, startNode, startOff). nodesBefore body startNode))" by simp
next
  fix delim :: "codeUnit \<Rightarrow> bool" and body startNode and startOff :: nat and x2
  assume "skipEmptyPrevious body startNode = Some x2"
  from skipEmptyPrevious_Some[OF this] obtain m where "nodeAt body x2 = Some m" "x2 < startNode" by auto
  from nodesBefore_less[OF this]
  show "((delim, body, x2, length (nodeText body x2) - 1), (delim, body, startNode, startOff))
        \<in> measure (\<lambda>(delim, body, startNode, startOff). nodesBefore body startNode)"
    by simp
qed

text \<open>
  \<^verbatim>\<open>setHighlightWordRange(caretPosition)\<close>. A caret position is \<^verbatim>\<open>null\<close> or an offset
  node with an offset. The function returns early, leaving the range as it was, when
  there is no caret position, when the offset node is not a text node, and when the
  character at the offset is a delimiter.
\<close>

type_synonym caretPosition = "(path \<times> nat) option"

definition resolveWord ::
  "(codeUnit \<Rightarrow> bool) \<Rightarrow> node \<Rightarrow> path \<Rightarrow> nat \<Rightarrow> nat \<Rightarrow> domRange \<Rightarrow> domRange" where
  "resolveWord delim body offsetNode offset endOff highlightWordRange =
     (case findWordEnd delim body offsetNode endOff of
        (endNode, endOff') \<Rightarrow>
          (case findWordStart delim body offsetNode offset of
             (startNode, startOff) \<Rightarrow>
               setEnd endNode endOff' (setStart startNode startOff highlightWordRange)))"

definition setHighlightWordRangeWith ::
  "(codeUnit \<Rightarrow> bool) \<Rightarrow> node \<Rightarrow> caretPosition \<Rightarrow> domRange \<Rightarrow> domRange" where
  "setHighlightWordRangeWith delim body caretPosition highlightWordRange =
     (case caretPosition of
        None \<Rightarrow> highlightWordRange
      | Some (offsetNode, offset) \<Rightarrow>
          if \<not> isTextNode body offsetNode then highlightWordRange
          else if offset \<ge> length (nodeText body offsetNode)
          then resolveWord delim body offsetNode offset (length (nodeText body offsetNode))
                 highlightWordRange
          else if delim (nodeText body offsetNode ! offset) then highlightWordRange
          else resolveWord delim body offsetNode offset (offset + 1) highlightWordRange)"

definition setHighlightWordRange :: "node \<Rightarrow> caretPosition \<Rightarrow> domRange \<Rightarrow> domRange" where
  "setHighlightWordRange = setHighlightWordRangeWith isDelimiter"

definition setHighlightWordRange2 :: "node \<Rightarrow> caretPosition \<Rightarrow> domRange \<Rightarrow> domRange" where
  "setHighlightWordRange2 = setHighlightWordRangeWith isDelimiter2"


text \<open>
  The maximal contiguous run of word characters containing a position, in the words of
  the specification: the range starts in sibling \<open>i\<close> and ends in sibling \<open>j\<close> of the
  parent of the hit node \<open>n\<close>; all siblings from \<open>i\<close> to \<open>j\<close> are text runs; the hit
  position lies inside; every character inside is a word character; the run cannot be
  extended at its end (a delimiter follows, or the text runs end there) nor at its start
  (a delimiter precedes, or, skipping empty runs, no text run precedes).
\<close>

definition maximalWordRun ::
  "(codeUnit \<Rightarrow> bool) \<Rightarrow> node \<Rightarrow> path \<Rightarrow> nat \<Rightarrow> domRange \<Rightarrow> bool" where
  "maximalWordRun delim body n ofs r =
     (\<exists>i j. startContainer r = butlast n @ [i] \<and> endContainer r = butlast n @ [j]
        \<and> i \<le> last n \<and> last n \<le> j
        \<and> (\<forall>k. i \<le> k \<and> k \<le> j \<longrightarrow> isTextNode body (butlast n @ [k]))
        \<and> startOffset r \<le> length (nodeText body (butlast n @ [i]))
        \<and> endOffset r \<le> length (nodeText body (butlast n @ [j]))
        \<and> (i < last n \<or> startOffset r \<le> ofs) \<and> (last n < j \<or> ofs < endOffset r)
        \<and> (\<forall>k c. i \<le> k \<and> k \<le> j \<and> c < length (nodeText body (butlast n @ [k]))
               \<and> (i < k \<or> startOffset r \<le> c) \<and> (k < j \<or> c < endOffset r)
             \<longrightarrow> \<not> delim (nodeText body (butlast n @ [k]) ! c))
        \<and> ((endOffset r < length (nodeText body (butlast n @ [j]))
               \<and> delim (nodeText body (butlast n @ [j]) ! endOffset r))
           \<or> (endOffset r = length (nodeText body (butlast n @ [j]))
               \<and> \<not> isTextNode body (butlast n @ [Suc j])))
        \<and> ((0 < startOffset r
               \<and> delim (nodeText body (butlast n @ [i]) ! (startOffset r - 1)))
           \<or> (startOffset r = 0
               \<and> (\<forall>k < i.
                     (\<forall>x. k < x \<and> x < i \<longrightarrow>
                        isTextNode body (butlast n @ [x]) \<and> nodeText body (butlast n @ [x]) = [])
                     \<and> isTextNode body (butlast n @ [k]) \<and> nodeText body (butlast n @ [k]) \<noteq> []
                     \<longrightarrow> delim (nodeText body (butlast n @ [k])
                                  ! (length (nodeText body (butlast n @ [k])) - 1))))))"


section \<open>Example documents\<close>

text \<open>The word \<open>ab\<close> split into the sibling runs \<open>a\<close>, empty, \<open>b\<close>.\<close>

definition splitWordBody :: node where
  "splitWordBody = ElementNode 100 20 [TextNode [0x61], TextNode [], TextNode [0x62]]"


section \<open>Geometry and the layout provider\<close>

subsection \<open>JavaScript numbers\<close>

text \<open>
  Coordinates are JavaScript numbers, that is IEEE 754 binary64 values. A finite
  number is modelled by the real it denotes, and every arithmetic operation of the source
  (\<^verbatim>\<open>+\<close>, \<^verbatim>\<open>-\<close>, \<^verbatim>\<open>*\<close>) and every decimal literal is the exact result rounded to the
  nearest binary64 value, ties to the even significand. Comparisons and \<^verbatim>\<open>Math.min\<close> are
  exact. Infinities and \<^verbatim>\<open>NaN\<close> are not modelled: the layout provider is taken to
  return finite binary64 values (a decimal such as 27.68 stands for
  \<open>roundToDouble 27.68\<close>), and results are taken to stay below \<open>2 ^ 1024\<close> in
  magnitude.

  \<open>roundHalfEven\<close> rounds a real to the nearest integer, ties to even.
  \<open>binaryExponent a\<close> is the exponent \<open>e\<close> with \<open>2 ^ e \<le> a < 2 ^ (e + 1)\<close> of a
  positive \<open>a\<close>. A binary64 value with exponent \<open>e\<close> is a multiple of
  \<open>2 ^ (e - 52)\<close>, and of \<open>2 ^ (- 1074)\<close> below the normal range.
\<close>

definition roundHalfEven :: "real \<Rightarrow> int" where
  "roundHalfEven x =
     (if x - of_int \<lfloor>x\<rfloor> < 1 / 2 then \<lfloor>x\<rfloor>
      else if 1 / 2 < x - of_int \<lfloor>x\<rfloor> then \<lfloor>x\<rfloor> + 1
      else if even \<lfloor>x\<rfloor> then \<lfloor>x\<rfloor> else \<lfloor>x\<rfloor> + 1)"

function binaryExponent :: "real \<Rightarrow> int" where
  "binaryExponent a =
     (if a \<le> 0 then 0
      else if 2 \<le> a then binaryExponent (a / 2) + 1
      else if a < 1 then binaryExponent (2 * a) - 1
      else 0)"
  by pat_completeness auto
termination
proof (relation "measure (\<lambda>a. if 1 \<le> a then nat \<lfloor>a\<rfloor> else nat \<lceil>1 / a\<rceil>)", goal_cases)
  case 1
  show ?case by simp
next
  case (2 a)
  then have "2 \<le> a" by simp
  then have "\<lfloor>a / 2\<rfloor> < \<lfloor>a\<rfloor>" by linarith
  moreover from \<open>2 \<le> a\<close> have "0 < \<lfloor>a\<rfloor>" by linarith
  ultimately show ?case using \<open>2 \<le> a\<close> by simp
next
  case (3 a)
  then have a: "0 < a" "a < 1" by simp_all
  then have y: "1 < 1 / a" by simp
  then have c2: "2 \<le> \<lceil>1 / a\<rceil>" by linarith
  show ?case
  proof (cases "1 \<le> 2 * a")
    case True
    with a have "\<lfloor>2 * a\<rfloor> = 1" by linarith
    with True c2 a show ?thesis by simp
  next
    case False
    with a have "2 < 1 / a" by (simp add: field_simps)
    moreover have "1 / (2 * a) = (1 / a) / 2" by simp
    ultimately have "\<lceil>1 / (2 * a)\<rceil> < \<lceil>1 / a\<rceil>" by linarith
    with False a c2 show ?thesis by simp
  qed
qed

declare binaryExponent.simps [simp del]

definition twoToThe :: "int \<Rightarrow> real" where
  "twoToThe e = (if 0 \<le> e then 2 ^ nat e else 1 / 2 ^ nat (- e))"

definition roundToDouble :: "real \<Rightarrow> real" where
  "roundToDouble x =
     (if x = 0 then 0
      else sgn x * of_int (roundHalfEven (\<bar>x\<bar> / twoToThe (max (binaryExponent \<bar>x\<bar>) (- 1022) - 52)))
             * twoToThe (max (binaryExponent \<bar>x\<bar>) (- 1022) - 52))"

definition doubleAdd :: "real \<Rightarrow> real \<Rightarrow> real" where
  "doubleAdd a b = roundToDouble (a + b)"

definition doubleSub :: "real \<Rightarrow> real \<Rightarrow> real" where
  "doubleSub a b = roundToDouble (a - b)"

definition doubleMul :: "real \<Rightarrow> real \<Rightarrow> real" where
  "doubleMul a b = roundToDouble (a * b)"

text \<open>
  A multiple of \<open>2 ^ (- 10)\<close> below \<open>2 ^ 40\<close> in magnitude is a binary64 value and
  rounds to itself. The rounding is evaluated with this shortcut.
\<close>

lemma binaryExponent_le: "a < 2 ^ m \<Longrightarrow> binaryExponent a \<le> int m"
proof (induction a arbitrary: m rule: binaryExponent.induct)
  case (1 a)
  show ?case
  proof (cases "a \<le> 0")
    case True
    then show ?thesis by (subst binaryExponent.simps) simp
  next
    case pos: False
    show ?thesis
    proof (cases "2 \<le> a")
      case True
      with "1.prems" have "m \<noteq> 0" by (cases m) auto
      then obtain m' where m: "m = Suc m'" by (cases m) auto
      with "1.prems" have "a / 2 < 2 ^ m'" by simp
      from "1.IH"(1)[OF pos True this] pos True m show ?thesis
        by (subst binaryExponent.simps) simp
    next
      case lt2: False
      show ?thesis
      proof (cases "a < 1")
        case True
        have "(1 :: real) \<le> 2 ^ m" by simp
        with True have "a < 2 ^ m" by (rule order_less_le_trans)
        then have "2 * a < 2 ^ Suc m" by simp
        from "1.IH"(2)[OF pos lt2 True this] pos lt2 True show ?thesis
          by (subst binaryExponent.simps) simp
      next
        case False
        with pos lt2 show ?thesis by (subst binaryExponent.simps) simp
      qed
    qed
  qed
qed

lemma roundHalfEven_int: "roundHalfEven (of_int j) = j"
  by (simp add: roundHalfEven_def)

lemma roundToDouble_exact:
  assumes k: "x * 1024 = of_int k" and b: "\<bar>x\<bar> < 2 ^ 40"
  shows "roundToDouble x = x"
proof (cases "x = 0")
  case True
  then show ?thesis by (simp add: roundToDouble_def)
next
  case nz: False
  define e where "e = max (binaryExponent \<bar>x\<bar>) (- 1022)"
  define n where "n = nat (52 - e)"
  from binaryExponent_le[OF b] have "e \<le> 40" by (simp add: e_def)
  then have n10: "10 \<le> n" and neg: "\<not> 0 \<le> e - 52" and nn: "nat (- (e - 52)) = n"
    by (simp_all add: n_def)
  then have ulp: "twoToThe (e - 52) = 1 / 2 ^ n" by (simp add: twoToThe_def)
  from n10 obtain d where d: "n = d + 10" by (metis add.commute le_Suc_ex)
  have "\<bar>x\<bar> * 1024 = \<bar>x * 1024\<bar>" by (simp add: abs_mult)
  also have "\<dots> = of_int \<bar>k\<bar>" unfolding k by simp
  finally have k': "\<bar>x\<bar> * 1024 = of_int \<bar>k\<bar>" .
  have "\<bar>x\<bar> * 2 ^ n = (\<bar>x\<bar> * 1024) * 2 ^ d" by (simp add: d power_add)
  also have "\<dots> = of_int \<bar>k\<bar> * 2 ^ d" unfolding k' ..
  also have "\<dots> = of_int (\<bar>k\<bar> * 2 ^ d)" by simp
  finally have m: "\<bar>x\<bar> * 2 ^ n = of_int (\<bar>k\<bar> * 2 ^ d)" .
  have "\<bar>x\<bar> / (1 / 2 ^ n) = \<bar>x\<bar> * 2 ^ n" by simp
  then have r: "roundHalfEven (\<bar>x\<bar> / (1 / 2 ^ n)) = \<bar>k\<bar> * 2 ^ d"
    unfolding m by (simp only: roundHalfEven_int)
  have "roundToDouble x = sgn x * of_int (roundHalfEven (\<bar>x\<bar> / twoToThe (e - 52))) * twoToThe (e - 52)"
    using nz unfolding roundToDouble_def e_def by simp
  also have "\<dots> = sgn x * (\<bar>x\<bar> * 2 ^ n) * (1 / 2 ^ n)"
    by (simp only: ulp r m)
  also have "\<dots> = sgn x * \<bar>x\<bar>" by simp
  also have "\<dots> = x" by (simp add: sgn_mult_abs)
  finally show ?thesis .
qed

lemma roundToDouble_code [code]:
  "roundToDouble x =
     (if x * 1024 = of_int \<lfloor>x * 1024\<rfloor> \<and> \<bar>x\<bar> < 2 ^ 40 then x
      else if x = 0 then 0
      else sgn x * of_int (roundHalfEven (\<bar>x\<bar> / twoToThe (max (binaryExponent \<bar>x\<bar>) (- 1022) - 52)))
             * twoToThe (max (binaryExponent \<bar>x\<bar>) (- 1022) - 52))"
  using roundToDouble_exact[of x "\<lfloor>x * 1024\<rfloor>"] by (simp add: roundToDouble_def)

subsection \<open>Rectangles\<close>

text \<open>
  A \<^verbatim>\<open>DOMRect\<close>: \<^verbatim>\<open>x\<close>, \<^verbatim>\<open>y\<close>, \<^verbatim>\<open>width\<close>, \<^verbatim>\<open>height\<close>, with \<^verbatim>\<open>left\<close>, \<^verbatim>\<open>top\<close>,
  \<^verbatim>\<open>right\<close>, \<^verbatim>\<open>bottom\<close> derived as the standard defines them, from the sums
  \<^verbatim>\<open>x + width\<close> and \<^verbatim>\<open>y + height\<close> of two numbers.
\<close>

record rect =
  rectX :: real
  rectY :: real
  rectWidth :: real
  rectHeight :: real

definition rectLeft :: "rect \<Rightarrow> real" where
  "rectLeft r = min (rectX r) (doubleAdd (rectX r) (rectWidth r))"

definition rectRight :: "rect \<Rightarrow> real" where
  "rectRight r = max (rectX r) (doubleAdd (rectX r) (rectWidth r))"

definition rectTop :: "rect \<Rightarrow> real" where
  "rectTop r = min (rectY r) (doubleAdd (rectY r) (rectHeight r))"

definition rectBottom :: "rect \<Rightarrow> real" where
  "rectBottom r = max (rectY r) (doubleAdd (rectY r) (rectHeight r))"

text \<open>
  What the host supplies for the current layout: \<^verbatim>\<open>Range.getBoundingClientRect()\<close>,
  \<^verbatim>\<open>Range.getClientRects()\<close> and \<^verbatim>\<open>document.caretPositionFromPoint(x, y)\<close>. The layout
  does not change while one event is handled.
\<close>

record layout =
  getBoundingClientRect :: "domRange \<Rightarrow> rect"
  getClientRects :: "domRange \<Rightarrow> rect list"
  caretPositionFromPoint :: "real \<Rightarrow> real \<Rightarrow> caretPosition"

definition rectOccupiesSpace :: "rect \<Rightarrow> bool" where
  "rectOccupiesSpace r = (rectWidth r > 0 \<and> rectHeight r > 0)"

definition isInsideRect :: "rect \<Rightarrow> real \<Rightarrow> real \<Rightarrow> bool" where
  "isInsideRect r x y =
     (rectLeft r \<le> x \<and> x \<le> rectRight r \<and> rectTop r \<le> y \<and> y \<le> rectBottom r
      \<and> rectOccupiesSpace r)"

text \<open>
  \<^verbatim>\<open>isPointOutsideHighlightedWord(x, y)\<close>: true for a collapsed range; otherwise false as
  soon as one client rectangle contains the point.
\<close>

fun insideSomeRect :: "rect list \<Rightarrow> real \<Rightarrow> real \<Rightarrow> bool" where
  "insideSomeRect [] x y = False"
| "insideSomeRect (clientRect # rest) x y =
     (if isInsideRect clientRect x y then True else insideSomeRect rest x y)"

definition isPointOutsideHighlightedWord :: "layout \<Rightarrow> domRange \<Rightarrow> real \<Rightarrow> real \<Rightarrow> bool" where
  "isPointOutsideHighlightedWord env highlightWordRange x y =
     (if collapsed highlightWordRange then True
      else \<not> insideSomeRect (getClientRects env highlightWordRange) x y)"


section \<open>Line resolution, part_001: the incremental strategy\<close>

text \<open>
  \<^verbatim>\<open>class CachedLineRange extends Range\<close> of part_001: the range itself and the private
  fields. The private \<^verbatim>\<open>#singleCharRange\<close> is set to one character and measured at
  once in every call, so it is a local value of \<open>tryToExpandEnd\<close> and
  \<open>tryToExpandStart\<close> here.
\<close>

record cachedLineRange =
  lineRange :: domRange
  manualBoundingRectTop :: real
  manualBoundingRectBottom :: real
  minRectHeight :: real
  linesSpannedChecks :: nat

definition MAX_LINES_SPANNED_CHECKS :: nat where
  "MAX_LINES_SPANNED_CHECKS = 105"

definition setInitialRect :: "rect \<Rightarrow> cachedLineRange \<Rightarrow> cachedLineRange" where
  "setInitialRect r this =
     this\<lparr>minRectHeight := doubleSub (rectBottom r) (rectTop r),
          manualBoundingRectTop := rectTop r,
          manualBoundingRectBottom := rectBottom r,
          linesSpannedChecks := 0\<rparr>"

definition singleCharRange :: "path \<Rightarrow> nat \<Rightarrow> domRange" where
  "singleCharRange n k =
     \<lparr>startContainer = n, startOffset = k, endContainer = n, endOffset = Suc k\<rparr>"

text \<open>
  The single-line heuristic on the rectangle of the candidate character: the verdict,
  and the bounds and minimum height to commit when the verdict is to accept.
\<close>

definition isSameLine :: "rect \<Rightarrow> cachedLineRange \<Rightarrow> bool \<times> real \<times> real \<times> real" where
  "isSameLine singleCharRect this =
     (let minHeight = min (minRectHeight this) (rectHeight singleCharRect);
          newBoundingRectTop =
            (if rectTop singleCharRect < manualBoundingRectTop this
             then rectTop singleCharRect else manualBoundingRectTop this);
          interceptRectTop =
            (if rectTop singleCharRect < manualBoundingRectTop this
             then manualBoundingRectTop this else rectTop singleCharRect);
          newBoundingRectBottom =
            (if rectBottom singleCharRect > manualBoundingRectBottom this
             then rectBottom singleCharRect else manualBoundingRectBottom this);
          interceptRectBottom =
            (if rectBottom singleCharRect > manualBoundingRectBottom this
             then manualBoundingRectBottom this else rectBottom singleCharRect);
          newBoundingRectHeight = doubleSub newBoundingRectBottom newBoundingRectTop;
          interceptRectHeight = doubleSub interceptRectBottom interceptRectTop
      in (doubleMul 1.75 minHeight > newBoundingRectHeight
            \<and> doubleMul 1.75 interceptRectHeight > newBoundingRectHeight,
          newBoundingRectTop, newBoundingRectBottom, minHeight))"

text \<open>
  \<^verbatim>\<open>tryToExpandEnd(newNode, newOffset)\<close>: the counter is incremented first, and a
  counter above the maximum rejects at once. The measured character is the one before
  \<open>newOffset\<close>.
\<close>

definition tryToExpandEnd ::
  "layout \<Rightarrow> path \<Rightarrow> nat \<Rightarrow> cachedLineRange \<Rightarrow> bool \<times> cachedLineRange" where
  "tryToExpandEnd env newNode newOffset this =
     (if Suc (linesSpannedChecks this) > MAX_LINES_SPANNED_CHECKS
      then (False, this\<lparr>linesSpannedChecks := Suc (linesSpannedChecks this)\<rparr>)
      else
        case isSameLine (getBoundingClientRect env (singleCharRange newNode (newOffset - 1))) this of
          (sameLine, newBoundingRectTop, newBoundingRectBottom, minHeight) \<Rightarrow>
            if sameLine
            then (True, this\<lparr>linesSpannedChecks := Suc (linesSpannedChecks this),
                              manualBoundingRectTop := newBoundingRectTop,
                              manualBoundingRectBottom := newBoundingRectBottom,
                              minRectHeight := minHeight,
                              lineRange := setEnd newNode newOffset (lineRange this)\<rparr>)
            else (False, this\<lparr>linesSpannedChecks := Suc (linesSpannedChecks this)\<rparr>))"

text \<open>
  \<^verbatim>\<open>tryToExpandStart(newNode, newOffset)\<close>: symmetrical; the measured character is the
  one at \<open>newOffset\<close>.
\<close>

definition tryToExpandStart ::
  "layout \<Rightarrow> path \<Rightarrow> nat \<Rightarrow> cachedLineRange \<Rightarrow> bool \<times> cachedLineRange" where
  "tryToExpandStart env newNode newOffset this =
     (if Suc (linesSpannedChecks this) > MAX_LINES_SPANNED_CHECKS
      then (False, this\<lparr>linesSpannedChecks := Suc (linesSpannedChecks this)\<rparr>)
      else
        case isSameLine (getBoundingClientRect env (singleCharRange newNode newOffset)) this of
          (sameLine, newBoundingRectTop, newBoundingRectBottom, minHeight) \<Rightarrow>
            if sameLine
            then (True, this\<lparr>linesSpannedChecks := Suc (linesSpannedChecks this),
                              manualBoundingRectTop := newBoundingRectTop,
                              manualBoundingRectBottom := newBoundingRectBottom,
                              minRectHeight := minHeight,
                              lineRange := setStart newNode newOffset (lineRange this)\<rparr>)
            else (False, this\<lparr>linesSpannedChecks := Suc (linesSpannedChecks this)\<rparr>))"

definition isPointOutsideHighlightedLine ::
  "layout \<Rightarrow> cachedLineRange \<Rightarrow> real \<Rightarrow> real \<Rightarrow> bool" where
  "isPointOutsideHighlightedLine env highlightLineRange x y =
     (collapsed (lineRange highlightLineRange)
      \<or> \<not> isInsideRect (getBoundingClientRect env (lineRange highlightLineRange)) x y)"

text \<open>
  \<^verbatim>\<open>hasMoreThanOne(rectangles)\<close>: false for at most one rectangle; otherwise true at the
  first pair of consecutive rectangles that both occupy space and differ in \<^verbatim>\<open>x\<close>,
  \<^verbatim>\<open>y\<close>, \<^verbatim>\<open>width\<close> or \<^verbatim>\<open>height\<close>.
\<close>

fun hasMoreThanOne :: "rect list \<Rightarrow> bool" where
  "hasMoreThanOne (rect1 # rect2 # rectangles) =
     (if rectOccupiesSpace rect1 \<and> rectOccupiesSpace rect2
         \<and> (rectX rect1 \<noteq> rectX rect2 \<or> rectY rect1 \<noteq> rectY rect2
            \<or> rectWidth rect1 \<noteq> rectWidth rect2 \<or> rectHeight rect1 \<noteq> rectHeight rect2)
      then True else hasMoreThanOne (rect2 # rectangles))"
| "hasMoreThanOne [rect1] = False"
| "hasMoreThanOne [] = False"

section \<open>Walking the content tree\<close>

text \<open>
  \<^verbatim>\<open>getNextTextNode(rootNode)\<close>: the first non-empty text node in \<open>rootNode\<close>, where a node counts
  as a child of itself and children that occupy no space are skipped. The result is the
  path below \<open>rootNode\<close>.
\<close>

fun getNextTextNodeIn :: "node \<Rightarrow> path option"
  and getNextTextNodeFrom :: "nat \<Rightarrow> node list \<Rightarrow> path option" where
  "getNextTextNodeIn (TextNode t) = (if t = [] then None else Some [])"
| "getNextTextNodeIn (ElementNode w h cs) = getNextTextNodeFrom 0 cs"
| "getNextTextNodeIn OtherNode = None"
| "getNextTextNodeFrom i [] = None"
| "getNextTextNodeFrom i (childNode # rest) =
     (if \<not> occupiesSpace childNode then getNextTextNodeFrom (Suc i) rest
      else case getNextTextNodeIn childNode of
             Some nextTextNode \<Rightarrow> Some (i # nextTextNode)
           | None \<Rightarrow> getNextTextNodeFrom (Suc i) rest)"

definition getNextTextNode :: "node \<Rightarrow> path \<Rightarrow> path option" where
  "getNextTextNode body rootNode =
     (case nodeAt body rootNode of
        None \<Rightarrow> None
      | Some n \<Rightarrow> map_option ((@) rootNode) (getNextTextNodeIn n))"

text \<open>
  \<^verbatim>\<open>getLastNonEmptyTextNode(rootNode)\<close>: the same from the last child down to the first. The
  children are taken in reverse order, so the child at the head of the remaining list
  has the length of the rest as its index.
\<close>

lemma size_list_rev: "size_list f (rev xs) = size_list f xs"
  by (induction xs) (simp_all add: size_list_append)

function getLastNonEmptyTextNodeIn :: "node \<Rightarrow> path option"
  and getLastNonEmptyTextNodeFrom :: "node list \<Rightarrow> path option" where
  "getLastNonEmptyTextNodeIn (TextNode t) = (if t = [] then None else Some [])"
| "getLastNonEmptyTextNodeIn (ElementNode w h cs) = getLastNonEmptyTextNodeFrom (rev cs)"
| "getLastNonEmptyTextNodeIn OtherNode = None"
| "getLastNonEmptyTextNodeFrom [] = None"
| "getLastNonEmptyTextNodeFrom (childNode # rest) =
     (if \<not> occupiesSpace childNode then getLastNonEmptyTextNodeFrom rest
      else case getLastNonEmptyTextNodeIn childNode of
             Some lastTextNode \<Rightarrow> Some (length rest # lastTextNode)
           | None \<Rightarrow> getLastNonEmptyTextNodeFrom rest)"
  by pat_completeness auto
termination
  by (relation "measure (case_sum size (size_list size))") (simp_all add: size_list_rev)

definition getLastNonEmptyTextNode :: "node \<Rightarrow> path \<Rightarrow> path option" where
  "getLastNonEmptyTextNode body rootNode =
     (case nodeAt body rootNode of
        None \<Rightarrow> None
      | Some n \<Rightarrow> map_option ((@) rootNode) (getLastNonEmptyTextNodeIn n))"

definition occupiesSpaceAt :: "node \<Rightarrow> path \<Rightarrow> bool" where
  "occupiesSpaceAt body p = (case nodeAt body p of Some n \<Rightarrow> occupiesSpace n | None \<Rightarrow> True)"

lemma getNextTextNodeIn_text:
  "(getNextTextNodeIn n = Some r \<longrightarrow> (\<exists>t. nodeAt n r = Some (TextNode t) \<and> t \<noteq> []))"
  "(getNextTextNodeFrom i cs = Some p \<longrightarrow>
      (\<exists>j r t. p = (i + j) # r \<and> j < length cs \<and> nodeAt (cs ! j) r = Some (TextNode t) \<and> t \<noteq> []))"
proof (induction n and i cs arbitrary: r and p rule: getNextTextNodeIn_getNextTextNodeFrom.induct)
  case (1 t)
  show ?case by (auto split: if_splits)
next
  case (2 w h cs)
  show ?case
  proof
    assume "getNextTextNodeIn (ElementNode w h cs) = Some r"
    then have "getNextTextNodeFrom 0 cs = Some r" by simp
    with "2.IH"[of r] obtain j r' t where "r = j # r'" "j < length cs"
      "nodeAt (cs ! j) r' = Some (TextNode t)" "t \<noteq> []" by auto
    then show "\<exists>t. nodeAt (ElementNode w h cs) r = Some (TextNode t) \<and> t \<noteq> []" by simp
  qed
next
  case 3
  show ?case by simp
next
  case (4 i)
  show ?case by simp
next
  case (5 i childNode rest)
  show ?case
  proof
    assume a: "getNextTextNodeFrom i (childNode # rest) = Some p"
    show "\<exists>j r t. p = (i + j) # r \<and> j < length (childNode # rest)
            \<and> nodeAt ((childNode # rest) ! j) r = Some (TextNode t) \<and> t \<noteq> []"
    proof (cases "occupiesSpace childNode \<and> getNextTextNodeIn childNode \<noteq> None")
      case True
      then obtain r where r: "getNextTextNodeIn childNode = Some r" by auto
      with True a have p: "p = i # r" by simp
      from "5.IH"(2)[of r] True r obtain t where "nodeAt childNode r = Some (TextNode t)" "t \<noteq> []"
        by auto
      with p show ?thesis by (intro exI[of _ 0] exI[of _ r] exI[of _ t]) simp
    next
      case False
      with a have rec: "getNextTextNodeFrom (Suc i) rest = Some p" by (auto split: option.splits)
      have "\<exists>j r t. p = (Suc i + j) # r \<and> j < length rest
              \<and> nodeAt (rest ! j) r = Some (TextNode t) \<and> t \<noteq> []"
      proof (cases "occupiesSpace childNode")
        case True
        with False have "getNextTextNodeIn childNode = None" by simp
        from "5.IH"(3)[OF _ this, of p] True rec show ?thesis by simp
      next
        case False
        from "5.IH"(1)[OF this, of p] rec show ?thesis by simp
      qed
      then obtain j r t where "p = (Suc i + j) # r" "j < length rest"
        "nodeAt (rest ! j) r = Some (TextNode t)" "t \<noteq> []" by blast
      then show ?thesis by (intro exI[of _ "Suc j"] exI[of _ r] exI[of _ t]) simp
    qed
  qed
qed

lemma getLastNonEmptyTextNodeIn_text:
  "(getLastNonEmptyTextNodeIn n = Some r \<longrightarrow> (\<exists>t. nodeAt n r = Some (TextNode t) \<and> t \<noteq> []))"
  "(getLastNonEmptyTextNodeFrom xs = Some p \<longrightarrow>
      (\<exists>j r t. p = j # r \<and> j < length xs \<and> nodeAt (rev xs ! j) r = Some (TextNode t) \<and> t \<noteq> []))"
proof (induction n and xs arbitrary: r and p
       rule: getLastNonEmptyTextNodeIn_getLastNonEmptyTextNodeFrom.induct)
  case (1 t)
  show ?case by (auto split: if_splits)
next
  case (2 w h cs)
  show ?case
  proof
    assume "getLastNonEmptyTextNodeIn (ElementNode w h cs) = Some r"
    then have "getLastNonEmptyTextNodeFrom (rev cs) = Some r" by simp
    with "2.IH"[of r] obtain j r' t where "r = j # r'" "j < length cs"
      "nodeAt (cs ! j) r' = Some (TextNode t)" "t \<noteq> []" by auto
    then show "\<exists>t. nodeAt (ElementNode w h cs) r = Some (TextNode t) \<and> t \<noteq> []" by simp
  qed
next
  case 3
  show ?case by simp
next
  case 4
  show ?case by simp
next
  case (5 childNode rest)
  show ?case
  proof
    assume a: "getLastNonEmptyTextNodeFrom (childNode # rest) = Some p"
    show "\<exists>j r t. p = j # r \<and> j < length (childNode # rest)
            \<and> nodeAt (rev (childNode # rest) ! j) r = Some (TextNode t) \<and> t \<noteq> []"
    proof (cases "occupiesSpace childNode \<and> getLastNonEmptyTextNodeIn childNode \<noteq> None")
      case True
      then obtain r where r: "getLastNonEmptyTextNodeIn childNode = Some r" by auto
      with True a have p: "p = length rest # r" by simp
      from "5.IH"(2)[of r] True r obtain t where "nodeAt childNode r = Some (TextNode t)" "t \<noteq> []"
        by auto
      with p show ?thesis
        by (intro exI[of _ "length rest"] exI[of _ r] exI[of _ t]) (simp add: nth_append)
    next
      case False
      with a have rec: "getLastNonEmptyTextNodeFrom rest = Some p" by (auto split: option.splits)
      have "\<exists>j r t. p = j # r \<and> j < length rest
              \<and> nodeAt (rev rest ! j) r = Some (TextNode t) \<and> t \<noteq> []"
      proof (cases "occupiesSpace childNode")
        case True
        with False have "getLastNonEmptyTextNodeIn childNode = None" by simp
        from "5.IH"(3)[OF _ this, of p] True rec show ?thesis by simp
      next
        case False
        from "5.IH"(1)[OF this, of p] rec show ?thesis by simp
      qed
      then obtain j r t where "p = j # r" "j < length rest"
        "nodeAt (rev rest ! j) r = Some (TextNode t)" "t \<noteq> []" by blast
      then show ?thesis by (intro exI[of _ j] exI[of _ r] exI[of _ t]) (simp add: nth_append)
    qed
  qed
qed

lemma nodeText_nonempty_iff:
  "nodeText body p \<noteq> [] \<longleftrightarrow> (\<exists>t. nodeAt body p = Some (TextNode t) \<and> t \<noteq> [])"
  by (auto simp: nodeText_def split: option.splits node.splits)

lemma getNextTextNode_Some:
  "getNextTextNode body n = Some t \<Longrightarrow> \<exists>r. t = n @ r \<and> nodeText body t \<noteq> []"
  using getNextTextNodeIn_text(1)
  by (fastforce simp: getNextTextNode_def nodeText_nonempty_iff nodeAt_append split: option.splits)

lemma getLastNonEmptyTextNode_Some:
  "getLastNonEmptyTextNode body n = Some t \<Longrightarrow> \<exists>r. t = n @ r \<and> nodeText body t \<noteq> []"
  using getLastNonEmptyTextNodeIn_text(1)
  by (fastforce simp: getLastNonEmptyTextNode_def nodeText_nonempty_iff nodeAt_append
      split: option.splits)

text \<open>
  The search for the next node when a node is exhausted: the next sibling if there is
  one, else the next sibling of the nearest ancestor that has one, giving up at
  \<^verbatim>\<open>document.body\<close>:
  \<^verbatim>\<open>while (true) { if (parent === document.body) return false; if (parent.nextSibling != null) { nextNode = parent.nextSibling; break; } parent = parent.parentElement; }\<close>
\<close>

function nextUncle :: "node \<Rightarrow> path \<Rightarrow> path option" where
  "nextUncle body parent =
     (if parent = [] then None
      else case nextSibling body parent of
             Some nextNode \<Rightarrow> Some nextNode
           | None \<Rightarrow> nextUncle body (parentNode parent))"
  by pat_completeness auto
termination
  by (relation "measure (\<lambda>(body, parent). length parent)") (auto simp: parentNode_def)

function previousUncle :: "node \<Rightarrow> path \<Rightarrow> path option" where
  "previousUncle body parent =
     (if parent = [] then None
      else case previousSibling body parent of
             Some previousNode \<Rightarrow> Some previousNode
           | None \<Rightarrow> previousUncle body (parentNode parent))"
  by pat_completeness auto
termination
  by (relation "measure (\<lambda>(body, parent). length parent)") (auto simp: parentNode_def)

definition nextNodeOf :: "node \<Rightarrow> path \<Rightarrow> path option" where
  "nextNodeOf body currentNode =
     (case nextSibling body currentNode of
        Some nextNode \<Rightarrow> Some nextNode
      | None \<Rightarrow> nextUncle body (parentNode currentNode))"

definition previousNodeOf :: "node \<Rightarrow> path \<Rightarrow> path option" where
  "previousNodeOf body currentNode =
     (case previousSibling body currentNode of
        Some previousNode \<Rightarrow> Some previousNode
      | None \<Rightarrow> previousUncle body (parentNode currentNode))"

lemma append_Cons_less: "i < j \<Longrightarrow> a @ i # x < a @ (j :: nat) # y"
  by (induction a) simp_all

lemma nextSibling_after:
  assumes "nextSibling body q = Some n"
  shows "nodeAt body n \<noteq> None \<and> (\<forall>rest r. q @ rest < n @ r)"
proof -
  from nextSibling_Some[OF assms] have ne: "q \<noteq> []" and n: "n = butlast q @ [Suc (last q)]"
    and v: "nodeAt body n \<noteq> None" by blast+
  have "q @ rest < n @ r" for rest r
  proof -
    have lt: "butlast q @ last q # rest < butlast q @ Suc (last q) # r"
      by (rule append_Cons_less) simp
    have eq: "q @ rest = butlast q @ last q # rest"
      using ne by (metis append.assoc append_Cons append_Nil append_butlast_last_id)
    have nr: "n @ r = butlast q @ Suc (last q) # r" using n by simp
    from lt show ?thesis unfolding eq nr .
  qed
  with v show ?thesis by blast
qed

lemma previousSibling_before:
  assumes "previousSibling body q = Some n"
  shows "nodeAt body n \<noteq> None \<and> (\<forall>rest r. n @ r < q @ rest)"
proof -
  from previousSibling_Some[OF assms] have ne: "q \<noteq> []" and pos: "0 < last q"
    and n: "n = butlast q @ [last q - 1]" and v: "nodeAt body n \<noteq> None" by blast+
  have "n @ r < q @ rest" for rest r
  proof -
    have lt: "butlast q @ (last q - 1) # r < butlast q @ last q # rest"
      by (rule append_Cons_less) (use pos in simp)
    have eq: "q @ rest = butlast q @ last q # rest"
      using ne by (metis append.assoc append_Cons append_Nil append_butlast_last_id)
    have nr: "n @ r = butlast q @ (last q - 1) # r" using n by simp
    from lt show ?thesis unfolding eq nr .
  qed
  with v show ?thesis by blast
qed

lemma nextUncle_after:
  "nextUncle body q = Some n \<Longrightarrow> nodeAt body n \<noteq> None \<and> (\<forall>rest r. q @ rest < n @ r)"
proof (induction body q rule: nextUncle.induct)
  case (1 body parent)
  from "1.prems" have ne: "parent \<noteq> []" by (auto split: if_splits)
  show ?case
  proof (cases "nextSibling body parent")
    case (Some s)
    with ne "1.prems" have "s = n" by simp
    with nextSibling_after[OF Some] show ?thesis by simp
  next
    case None
    with ne "1.prems" have rec: "nextUncle body (butlast parent) = Some n"
      by (simp add: parentNode_def)
    from "1.IH"[OF ne None] rec have v: "nodeAt body n \<noteq> None"
      and a: "\<And>rest r. butlast parent @ rest < n @ r" by (simp_all add: parentNode_def)
    have "parent @ rest < n @ r" for rest r
      using a[of "last parent # rest" r] ne
      by (metis append.assoc append_Cons append_Nil append_butlast_last_id)
    with v show ?thesis by blast
  qed
qed

lemma previousUncle_before:
  "previousUncle body q = Some n \<Longrightarrow> nodeAt body n \<noteq> None \<and> (\<forall>rest r. n @ r < q @ rest)"
proof (induction body q rule: previousUncle.induct)
  case (1 body parent)
  from "1.prems" have ne: "parent \<noteq> []" by (auto split: if_splits)
  show ?case
  proof (cases "previousSibling body parent")
    case (Some s)
    with ne "1.prems" have "s = n" by simp
    with previousSibling_before[OF Some] show ?thesis by simp
  next
    case None
    with ne "1.prems" have rec: "previousUncle body (butlast parent) = Some n"
      by (simp add: parentNode_def)
    from "1.IH"[OF ne None] rec have v: "nodeAt body n \<noteq> None"
      and a: "\<And>rest r. n @ r < butlast parent @ rest" by (simp_all add: parentNode_def)
    have "n @ r < parent @ rest" for rest r
      using a[of r "last parent # rest"] ne
      by (metis append.assoc append_Cons append_Nil append_butlast_last_id)
    with v show ?thesis by blast
  qed
qed

lemma nextNodeOf_after:
  assumes "nextNodeOf body p = Some n"
  shows "nodeAt body n \<noteq> None \<and> (\<forall>r. p < n @ r)"
proof (cases "nextSibling body p")
  case (Some s)
  with assms have "s = n" by (simp add: nextNodeOf_def)
  with nextSibling_after[OF Some] have "nodeAt body n \<noteq> None" "\<And>r. p @ [] < n @ r" by blast+
  then show ?thesis by simp
next
  case None
  with assms have u: "nextUncle body (butlast p) = Some n"
    by (simp add: nextNodeOf_def parentNode_def)
  then have ne: "p \<noteq> []" by (auto split: if_splits)
  from nextUncle_after[OF u] have v: "nodeAt body n \<noteq> None"
    and a: "\<And>rest r. butlast p @ rest < n @ r" by blast+
  have "p < n @ r" for r using a[of "[last p]" r] ne by simp
  with v show ?thesis by blast
qed

lemma previousNodeOf_before:
  assumes "previousNodeOf body p = Some n"
  shows "nodeAt body n \<noteq> None \<and> (\<forall>r. n @ r < p)"
proof (cases "previousSibling body p")
  case (Some s)
  with assms have "s = n" by (simp add: previousNodeOf_def)
  with previousSibling_before[OF Some] have "nodeAt body n \<noteq> None" "\<And>r. n @ r < p @ []" by blast+
  then show ?thesis by simp
next
  case None
  with assms have u: "previousUncle body (butlast p) = Some n"
    by (simp add: previousNodeOf_def parentNode_def)
  then have ne: "p \<noteq> []" by (auto split: if_splits)
  from previousUncle_before[OF u] have v: "nodeAt body n \<noteq> None"
    and a: "\<And>rest r. n @ r < butlast p @ rest" by blast+
  have "n @ r < p" for r using a[of r "[last p]"] ne by simp
  with v show ?thesis by blast
qed

lemma nodeText_valid: "nodeText body p \<noteq> [] \<Longrightarrow> nodeAt body p \<noteq> None"
  by (auto simp: nodeText_def split: option.splits)

lemma nextNodeOf_less:
  "nextNodeOf body p = Some n \<Longrightarrow> nodesAfter body n < nodesAfter body p"
proof -
  assume a: "nextNodeOf body p = Some n"
  from nextNodeOf_after[OF a] obtain m where "nodeAt body n = Some m" "p < n @ []" by blast
  then show ?thesis using nodesAfter_less[of body n m p] by simp
qed

lemma nextNodeOf_text_less:
  "nextNodeOf body p = Some n \<Longrightarrow> getNextTextNode body n = Some t \<Longrightarrow>
   nodesAfter body t < nodesAfter body p"
proof -
  assume a: "nextNodeOf body p = Some n" and b: "getNextTextNode body n = Some t"
  from getNextTextNode_Some[OF b] obtain r where t: "t = n @ r" and ne: "nodeText body t \<noteq> []"
    by blast
  from nodeText_valid[OF ne] obtain m where "nodeAt body t = Some m" by blast
  moreover from nextNodeOf_after[OF a] t have "p < t" by blast
  ultimately show ?thesis by (rule nodesAfter_less)
qed

lemma previousNodeOf_less:
  "previousNodeOf body p = Some n \<Longrightarrow> nodesBefore body n < nodesBefore body p"
proof -
  assume a: "previousNodeOf body p = Some n"
  from previousNodeOf_before[OF a] obtain m where "nodeAt body n = Some m" "n @ [] < p" by blast
  then show ?thesis using nodesBefore_less[of body n m p] by simp
qed

lemma previousNodeOf_text_less:
  "previousNodeOf body p = Some n \<Longrightarrow> getLastNonEmptyTextNode body n = Some t \<Longrightarrow>
   nodesBefore body t < nodesBefore body p"
proof -
  assume a: "previousNodeOf body p = Some n" and b: "getLastNonEmptyTextNode body n = Some t"
  from getLastNonEmptyTextNode_Some[OF b] obtain r where t: "t = n @ r"
    and ne: "nodeText body t \<noteq> []" by blast
  from nodeText_valid[OF ne] obtain m where "nodeAt body t = Some m" by blast
  moreover from previousNodeOf_before[OF a] t have "t < p" by blast
  ultimately show ?thesis by (rule nodesBefore_less)
qed

text \<open>
  \<^verbatim>\<open>updateHighlightLineRangeEnd(oneChar)\<close>. The outer \<^verbatim>\<open>while (true)\<close> alternates two
  loops over the locals \<^verbatim>\<open>currentNode\<close> and \<^verbatim>\<open>currentOffset\<close>: the loop through the
  end of the current node (\<open>Scan\<close>), and the search for the next text node (\<open>Walk\<close>).
  The result is the returned boolean and the range object after the call.
\<close>

function updateHighlightLineRangeEndScan ::
    "layout \<Rightarrow> node \<Rightarrow> bool \<Rightarrow> cachedLineRange \<Rightarrow> path \<Rightarrow> nat \<Rightarrow> bool \<times> cachedLineRange"
  and updateHighlightLineRangeEndWalk ::
    "layout \<Rightarrow> node \<Rightarrow> bool \<Rightarrow> cachedLineRange \<Rightarrow> path \<Rightarrow> bool \<times> cachedLineRange" where
  "updateHighlightLineRangeEndScan env body oneChar highlightLineRange currentNode currentOffset =
     (if currentOffset < length (nodeText body currentNode)
      then
        if isWhitespaceOrZeroWidth (nodeText body currentNode ! currentOffset)
        then updateHighlightLineRangeEndScan env body oneChar highlightLineRange
               currentNode (Suc currentOffset)
        else if \<not> fst (tryToExpandEnd env currentNode (Suc currentOffset) highlightLineRange)
        then (False, snd (tryToExpandEnd env currentNode (Suc currentOffset) highlightLineRange))
        else if oneChar
        then (True, snd (tryToExpandEnd env currentNode (Suc currentOffset) highlightLineRange))
        else updateHighlightLineRangeEndScan env body oneChar
               (snd (tryToExpandEnd env currentNode (Suc currentOffset) highlightLineRange))
               currentNode (Suc currentOffset)
      else updateHighlightLineRangeEndWalk env body oneChar highlightLineRange currentNode)"
| "updateHighlightLineRangeEndWalk env body oneChar highlightLineRange currentNode =
     (case nextNodeOf body currentNode of
        None \<Rightarrow> (False, highlightLineRange)
      | Some nextNode \<Rightarrow>
          if \<not> occupiesSpaceAt body nextNode
          then updateHighlightLineRangeEndWalk env body oneChar highlightLineRange nextNode
          else case getNextTextNode body nextNode of
                 None \<Rightarrow> updateHighlightLineRangeEndWalk env body oneChar highlightLineRange nextNode
               | Some nextTextNode \<Rightarrow>
                   updateHighlightLineRangeEndScan env body oneChar highlightLineRange
                     nextTextNode 0)"
  by pat_completeness auto
termination
proof (relation "inv_image (less_than <*lex*> less_than <*lex*> less_than)
    (\<lambda>x. case x of
       Inl (env, body, oneChar, highlightLineRange, currentNode, currentOffset) \<Rightarrow>
         (nodesAfter body currentNode, Suc 0, length (nodeText body currentNode) - currentOffset)
     | Inr (env, body, oneChar, highlightLineRange, currentNode) \<Rightarrow>
         (nodesAfter body currentNode, 0, 0))", goal_cases)
  case 1
  show ?case by (intro wf_inv_image wf_lex_prod wf_less_than)
next
  case 2
  then show ?case by auto
next
  case 3
  then show ?case by auto
next
  case 4
  then show ?case by simp
next
  case 5
  then show ?case by (simp add: nextNodeOf_less)
next
  case 6
  then show ?case by (simp add: nextNodeOf_less)
next
  case 7
  then show ?case by (simp add: nextNodeOf_text_less)
qed

definition updateHighlightLineRangeEnd ::
  "layout \<Rightarrow> node \<Rightarrow> bool \<Rightarrow> cachedLineRange \<Rightarrow> bool \<times> cachedLineRange" where
  "updateHighlightLineRangeEnd env body oneChar highlightLineRange =
     updateHighlightLineRangeEndScan env body oneChar highlightLineRange
       (endContainer (lineRange highlightLineRange)) (endOffset (lineRange highlightLineRange))"

text \<open>
  \<^verbatim>\<open>updateHighlightLineRangeStart(oneChar)\<close>, symmetrical. The scan decrements the offset
  before it reads the character; the walk probes the last character of the text node it
  finds unless that character is whitespace or zero-width (\<^verbatim>\<open>shouldSkip\<close>).
\<close>

function updateHighlightLineRangeStartScan ::
    "layout \<Rightarrow> node \<Rightarrow> bool \<Rightarrow> cachedLineRange \<Rightarrow> path \<Rightarrow> nat \<Rightarrow> bool \<times> cachedLineRange"
  and updateHighlightLineRangeStartWalk ::
    "layout \<Rightarrow> node \<Rightarrow> bool \<Rightarrow> cachedLineRange \<Rightarrow> path \<Rightarrow> bool \<times> cachedLineRange" where
  "updateHighlightLineRangeStartScan env body oneChar highlightLineRange currentNode currentOffset =
     (if currentOffset > 0
      then
        if isWhitespaceOrZeroWidth (nodeText body currentNode ! (currentOffset - 1))
        then updateHighlightLineRangeStartScan env body oneChar highlightLineRange
               currentNode (currentOffset - 1)
        else if \<not> fst (tryToExpandStart env currentNode (currentOffset - 1) highlightLineRange)
        then (False, snd (tryToExpandStart env currentNode (currentOffset - 1) highlightLineRange))
        else if oneChar
        then (True, snd (tryToExpandStart env currentNode (currentOffset - 1) highlightLineRange))
        else updateHighlightLineRangeStartScan env body oneChar
               (snd (tryToExpandStart env currentNode (currentOffset - 1) highlightLineRange))
               currentNode (currentOffset - 1)
      else updateHighlightLineRangeStartWalk env body oneChar highlightLineRange currentNode)"
| "updateHighlightLineRangeStartWalk env body oneChar highlightLineRange currentNode =
     (case previousNodeOf body currentNode of
        None \<Rightarrow> (False, highlightLineRange)
      | Some previousNode \<Rightarrow>
          if \<not> occupiesSpaceAt body previousNode
          then updateHighlightLineRangeStartWalk env body oneChar highlightLineRange previousNode
          else case getLastNonEmptyTextNode body previousNode of
                 None \<Rightarrow>
                   updateHighlightLineRangeStartWalk env body oneChar highlightLineRange previousNode
               | Some lastTextNode \<Rightarrow>
                   if isWhitespaceOrZeroWidth
                        (nodeText body lastTextNode ! (length (nodeText body lastTextNode) - 1))
                   then updateHighlightLineRangeStartScan env body oneChar highlightLineRange
                          lastTextNode (length (nodeText body lastTextNode) - 1)
                   else if fst (tryToExpandStart env lastTextNode
                                  (length (nodeText body lastTextNode) - 1) highlightLineRange)
                   then
                     if oneChar
                     then (True, snd (tryToExpandStart env lastTextNode
                                        (length (nodeText body lastTextNode) - 1) highlightLineRange))
                     else updateHighlightLineRangeStartScan env body oneChar
                            (snd (tryToExpandStart env lastTextNode
                                    (length (nodeText body lastTextNode) - 1) highlightLineRange))
                            lastTextNode (length (nodeText body lastTextNode) - 1)
                   else (False, snd (tryToExpandStart env lastTextNode
                                       (length (nodeText body lastTextNode) - 1) highlightLineRange)))"
  by pat_completeness auto
termination
proof (relation "inv_image (less_than <*lex*> less_than <*lex*> less_than)
    (\<lambda>x. case x of
       Inl (env, body, oneChar, highlightLineRange, currentNode, currentOffset) \<Rightarrow>
         (nodesBefore body currentNode, Suc 0, currentOffset)
     | Inr (env, body, oneChar, highlightLineRange, currentNode) \<Rightarrow>
         (nodesBefore body currentNode, 0, 0))", goal_cases)
  case 1
  show ?case by (intro wf_inv_image wf_lex_prod wf_less_than)
next
  case 2
  then show ?case by auto
next
  case 3
  then show ?case by auto
next
  case 4
  then show ?case by simp
next
  case 5
  then show ?case by (simp add: previousNodeOf_less)
next
  case 6
  then show ?case by (simp add: previousNodeOf_less)
next
  case 7
  then show ?case by (simp add: previousNodeOf_text_less)
next
  case 8
  then show ?case by (simp add: previousNodeOf_text_less)
qed

definition updateHighlightLineRangeStart ::
  "layout \<Rightarrow> node \<Rightarrow> bool \<Rightarrow> cachedLineRange \<Rightarrow> bool \<times> cachedLineRange" where
  "updateHighlightLineRangeStart env body oneChar highlightLineRange =
     updateHighlightLineRangeStartScan env body oneChar highlightLineRange
       (startContainer (lineRange highlightLineRange))
       (startOffset (lineRange highlightLineRange))"

declare updateHighlightLineRangeEndScan.simps [simp del]
  updateHighlightLineRangeEndWalk.simps [simp del]
  updateHighlightLineRangeStartScan.simps [simp del]
  updateHighlightLineRangeStartWalk.simps [simp del]
  nextUncle.simps [simp del] previousUncle.simps [simp del]

text \<open>
  A character that the expansion loops probe: it exists and is neither whitespace nor
  zero-width.
\<close>

definition probedChar :: "node \<Rightarrow> path \<Rightarrow> nat \<Rightarrow> bool" where
  "probedChar body n k =
     (k < length (nodeText body n) \<and> \<not> isWhitespaceOrZeroWidth (nodeText body n ! k))"

text \<open>
  What one call of an expansion function may do to the range object, as a sequence of
  heuristic probes: \<open>probed n k\<close> says which characters may be probed, and
  \<open>attempt n k before (verdict, after)\<close> that probing character \<open>k\<close> of node \<open>n\<close>
  on \<open>before\<close> gives \<open>verdict\<close> and leaves \<open>after\<close>. A run stops
  without a probe when the tree is exhausted, stops at the first rejected probe, and may
  stop after an accepted one.
\<close>

inductive probeRun ::
  "(path \<Rightarrow> nat \<Rightarrow> bool) \<Rightarrow> (path \<Rightarrow> nat \<Rightarrow> 's \<Rightarrow> bool \<times> 's \<Rightarrow> bool) \<Rightarrow> 's \<Rightarrow> bool \<times> 's \<Rightarrow> bool"
  for probed :: "path \<Rightarrow> nat \<Rightarrow> bool"
    and attempt :: "path \<Rightarrow> nat \<Rightarrow> 's \<Rightarrow> bool \<times> 's \<Rightarrow> bool" where
  exhausted: "probeRun probed attempt s (False, s)"
| rejected: "probed n k \<Longrightarrow> attempt n k s (False, s') \<Longrightarrow>
             probeRun probed attempt s (False, s')"
| accepted: "probed n k \<Longrightarrow> attempt n k s (True, s') \<Longrightarrow>
             probeRun probed attempt s (True, s')"
| continued: "probed n k \<Longrightarrow> attempt n k s (True, s') \<Longrightarrow>
              probeRun probed attempt s' r \<Longrightarrow> probeRun probed attempt s r"

definition endProbe :: "layout \<Rightarrow> path \<Rightarrow> nat \<Rightarrow> cachedLineRange \<Rightarrow> bool \<times> cachedLineRange \<Rightarrow> bool" where
  "endProbe env n k s r = (r = tryToExpandEnd env n (Suc k) s)"

definition startProbe :: "layout \<Rightarrow> path \<Rightarrow> nat \<Rightarrow> cachedLineRange \<Rightarrow> bool \<times> cachedLineRange \<Rightarrow> bool" where
  "startProbe env n k s r = (r = tryToExpandStart env n k s)"


lemma endScan_skip:
  "currentOffset < length (nodeText body currentNode) \<Longrightarrow>
   isWhitespaceOrZeroWidth (nodeText body currentNode ! currentOffset) \<Longrightarrow>
   updateHighlightLineRangeEndScan env body oneChar s currentNode currentOffset
     = updateHighlightLineRangeEndScan env body oneChar s currentNode (Suc currentOffset)"
  by (subst updateHighlightLineRangeEndScan.simps) simp

lemma endScan_reject:
  "probedChar body currentNode currentOffset \<Longrightarrow>
   \<not> fst (tryToExpandEnd env currentNode (Suc currentOffset) s) \<Longrightarrow>
   updateHighlightLineRangeEndScan env body oneChar s currentNode currentOffset
     = (False, snd (tryToExpandEnd env currentNode (Suc currentOffset) s))"
  by (subst updateHighlightLineRangeEndScan.simps) (simp add: probedChar_def)

lemma endScan_accept_one:
  "probedChar body currentNode currentOffset \<Longrightarrow>
   fst (tryToExpandEnd env currentNode (Suc currentOffset) s) \<Longrightarrow>
   updateHighlightLineRangeEndScan env body True s currentNode currentOffset
     = (True, snd (tryToExpandEnd env currentNode (Suc currentOffset) s))"
  by (subst updateHighlightLineRangeEndScan.simps) (simp add: probedChar_def)

lemma endScan_accept_more:
  "probedChar body currentNode currentOffset \<Longrightarrow>
   fst (tryToExpandEnd env currentNode (Suc currentOffset) s) \<Longrightarrow>
   updateHighlightLineRangeEndScan env body False s currentNode currentOffset
     = updateHighlightLineRangeEndScan env body False
         (snd (tryToExpandEnd env currentNode (Suc currentOffset) s)) currentNode (Suc currentOffset)"
  by (subst updateHighlightLineRangeEndScan.simps) (simp add: probedChar_def)

lemma endScan_done:
  "\<not> currentOffset < length (nodeText body currentNode) \<Longrightarrow>
   updateHighlightLineRangeEndScan env body oneChar s currentNode currentOffset
     = updateHighlightLineRangeEndWalk env body oneChar s currentNode"
  by (subst updateHighlightLineRangeEndScan.simps) simp

lemma startScan_skip:
  "0 < currentOffset \<Longrightarrow>
   isWhitespaceOrZeroWidth (nodeText body currentNode ! (currentOffset - 1)) \<Longrightarrow>
   updateHighlightLineRangeStartScan env body oneChar s currentNode currentOffset
     = updateHighlightLineRangeStartScan env body oneChar s currentNode (currentOffset - 1)"
  by (subst updateHighlightLineRangeStartScan.simps) simp

lemma startScan_reject:
  "0 < currentOffset \<Longrightarrow>
   \<not> isWhitespaceOrZeroWidth (nodeText body currentNode ! (currentOffset - 1)) \<Longrightarrow>
   \<not> fst (tryToExpandStart env currentNode (currentOffset - 1) s) \<Longrightarrow>
   updateHighlightLineRangeStartScan env body oneChar s currentNode currentOffset
     = (False, snd (tryToExpandStart env currentNode (currentOffset - 1) s))"
  by (subst updateHighlightLineRangeStartScan.simps) simp

lemma startScan_accept_one:
  "0 < currentOffset \<Longrightarrow>
   \<not> isWhitespaceOrZeroWidth (nodeText body currentNode ! (currentOffset - 1)) \<Longrightarrow>
   fst (tryToExpandStart env currentNode (currentOffset - 1) s) \<Longrightarrow>
   updateHighlightLineRangeStartScan env body True s currentNode currentOffset
     = (True, snd (tryToExpandStart env currentNode (currentOffset - 1) s))"
  by (subst updateHighlightLineRangeStartScan.simps) simp

lemma startScan_accept_more:
  "0 < currentOffset \<Longrightarrow>
   \<not> isWhitespaceOrZeroWidth (nodeText body currentNode ! (currentOffset - 1)) \<Longrightarrow>
   fst (tryToExpandStart env currentNode (currentOffset - 1) s) \<Longrightarrow>
   updateHighlightLineRangeStartScan env body False s currentNode currentOffset
     = updateHighlightLineRangeStartScan env body False
         (snd (tryToExpandStart env currentNode (currentOffset - 1) s))
         currentNode (currentOffset - 1)"
  by (subst updateHighlightLineRangeStartScan.simps) simp

lemma startScan_done:
  "\<not> 0 < currentOffset \<Longrightarrow>
   updateHighlightLineRangeStartScan env body oneChar s currentNode currentOffset
     = updateHighlightLineRangeStartWalk env body oneChar s currentNode"
  by (subst updateHighlightLineRangeStartScan.simps) simp

lemma endScan_probes:
  "probeRun (probedChar body) (endProbe env)
     s (updateHighlightLineRangeEndScan env body oneChar s currentNode currentOffset)"
  "probeRun (probedChar body) (endProbe env)
     s (updateHighlightLineRangeEndWalk env body oneChar s currentNode)"
proof (induction env body oneChar s currentNode currentOffset
         and env body oneChar s currentNode
       rule: updateHighlightLineRangeEndScan_updateHighlightLineRangeEndWalk.induct)
  case (1 env body oneChar s currentNode currentOffset)
  let ?t = "tryToExpandEnd env currentNode (Suc currentOffset) s"
  show ?case
  proof (cases "currentOffset < length (nodeText body currentNode)")
    case False
    from "1.IH"(3)[OF False] show ?thesis by (simp only: endScan_done[OF False])
  next
    case lt: True
    show ?thesis
    proof (cases "isWhitespaceOrZeroWidth (nodeText body currentNode ! currentOffset)")
      case True
      from "1.IH"(1)[OF lt True] show ?thesis by (simp only: endScan_skip[OF lt True])
    next
      case nws: False
      with lt have pc: "probedChar body currentNode currentOffset" by (simp add: probedChar_def)
      have at: "endProbe env currentNode currentOffset s (fst ?t, snd ?t)"
        by (simp add: endProbe_def)
      show ?thesis
      proof (cases "fst ?t")
        case False
        then have "endProbe env currentNode currentOffset s (False, snd ?t)" by (simp add: startProbe_def endProbe_def prod_eq_iff)
        from probeRun.rejected[where attempt = "endProbe env" and probed = "probedChar body", OF pc this]
        show ?thesis by (simp only: endScan_reject[OF pc False])
      next
        case acc: True
        then have at': "endProbe env currentNode currentOffset s (True, snd ?t)" by (simp add: startProbe_def endProbe_def prod_eq_iff)
        show ?thesis
        proof (cases oneChar)
          case True
          then have oc: "oneChar = True" by simp
          from probeRun.accepted[where attempt = "endProbe env" and probed = "probedChar body", OF pc at']
          show ?thesis unfolding oc by (simp only: endScan_accept_one[OF pc acc])
        next
          case False
          then have oc: "oneChar = False" by simp
          from "1.IH"(2)[OF lt nws _ False] acc
          have "probeRun (probedChar body) (endProbe env) (snd ?t)
                  (updateHighlightLineRangeEndScan env body oneChar (snd ?t) currentNode (Suc currentOffset))"
            by simp
          from probeRun.continued[where attempt = "endProbe env" and probed = "probedChar body", OF pc at' this]
          show ?thesis unfolding oc by (simp only: endScan_accept_more[OF pc acc])
        qed
      qed
    qed
  qed
next
  case (2 env body oneChar s currentNode)
  show ?case
  proof (cases "nextNodeOf body currentNode")
    case None
    then show ?thesis
      by (simp add: updateHighlightLineRangeEndWalk.simps[of env body oneChar s currentNode]
          probeRun.exhausted)
  next
    case (Some nextNode)
    show ?thesis
    proof (cases "occupiesSpaceAt body nextNode")
      case False
      with Some "2.IH"(1) show ?thesis
        by (simp add: updateHighlightLineRangeEndWalk.simps[of env body oneChar s currentNode])
    next
      case occ: True
      show ?thesis
      proof (cases "getNextTextNode body nextNode")
        case None
        with Some occ "2.IH"(2) show ?thesis
          by (simp add: updateHighlightLineRangeEndWalk.simps[of env body oneChar s currentNode])
      next
        case (Some nextTextNode)
        with \<open>nextNodeOf body currentNode = Some nextNode\<close> occ "2.IH"(3) show ?thesis
          by (simp add: updateHighlightLineRangeEndWalk.simps[of env body oneChar s currentNode])
      qed
    qed
  qed
qed

lemma startWalk_unfold:
  "updateHighlightLineRangeStartWalk env body oneChar s currentNode =
     (case previousNodeOf body currentNode of
        None \<Rightarrow> (False, s)
      | Some previousNode \<Rightarrow>
          if \<not> occupiesSpaceAt body previousNode
          then updateHighlightLineRangeStartWalk env body oneChar s previousNode
          else case getLastNonEmptyTextNode body previousNode of
                 None \<Rightarrow> updateHighlightLineRangeStartWalk env body oneChar s previousNode
               | Some lastTextNode \<Rightarrow>
                   if isWhitespaceOrZeroWidth
                        (nodeText body lastTextNode ! (length (nodeText body lastTextNode) - 1))
                   then updateHighlightLineRangeStartScan env body oneChar s
                          lastTextNode (length (nodeText body lastTextNode) - 1)
                   else if fst (tryToExpandStart env lastTextNode
                                  (length (nodeText body lastTextNode) - 1) s)
                   then
                     if oneChar
                     then (True, snd (tryToExpandStart env lastTextNode
                                        (length (nodeText body lastTextNode) - 1) s))
                     else updateHighlightLineRangeStartScan env body oneChar
                            (snd (tryToExpandStart env lastTextNode
                                    (length (nodeText body lastTextNode) - 1) s))
                            lastTextNode (length (nodeText body lastTextNode) - 1)
                   else (False, snd (tryToExpandStart env lastTextNode
                                       (length (nodeText body lastTextNode) - 1) s)))"
  by (rule updateHighlightLineRangeStartWalk.simps)

lemma startScan_probes_guarded:
  "(g \<longrightarrow> currentOffset \<le> length (nodeText body currentNode)) \<longrightarrow>
   probeRun (\<lambda>n k. \<not> isWhitespaceOrZeroWidth (nodeText body n ! k) \<and> (g \<longrightarrow> k < length (nodeText body n))) (startProbe env)
     s (updateHighlightLineRangeStartScan env body oneChar s currentNode currentOffset)"
  "probeRun (\<lambda>n k. \<not> isWhitespaceOrZeroWidth (nodeText body n ! k) \<and> (g \<longrightarrow> k < length (nodeText body n))) (startProbe env)
     s (updateHighlightLineRangeStartWalk env body oneChar s currentNode)"
proof (induction env body oneChar s currentNode currentOffset
         and env body oneChar s currentNode
       rule: updateHighlightLineRangeStartScan_updateHighlightLineRangeStartWalk.induct)
  case (1 env body oneChar s currentNode currentOffset)
  let ?t = "tryToExpandStart env currentNode (currentOffset - 1) s"
  show ?case
  proof
    assume le: "g \<longrightarrow> currentOffset \<le> length (nodeText body currentNode)"
    then have le': "g \<longrightarrow> currentOffset - 1 \<le> length (nodeText body currentNode)" by auto
    show "probeRun (\<lambda>n k. \<not> isWhitespaceOrZeroWidth (nodeText body n ! k) \<and> (g \<longrightarrow> k < length (nodeText body n))) (startProbe env) s
            (updateHighlightLineRangeStartScan env body oneChar s currentNode currentOffset)"
    proof (cases "0 < currentOffset")
      case False
      from "1.IH"(3)[OF False] show ?thesis by (simp only: startScan_done[OF False])
    next
      case lt: True
      show ?thesis
      proof (cases "isWhitespaceOrZeroWidth (nodeText body currentNode ! (currentOffset - 1))")
        case True
        from "1.IH"(1)[OF lt True] le' show ?thesis by (simp only: startScan_skip[OF lt True])
      next
        case nws: False
        from lt le nws have pc: "\<not> isWhitespaceOrZeroWidth (nodeText body currentNode ! (currentOffset - 1))
            \<and> (g \<longrightarrow> currentOffset - 1 < length (nodeText body currentNode))"
          by auto
        have at: "startProbe env currentNode (currentOffset - 1) s (fst ?t, snd ?t)"
          by (simp add: startProbe_def)
        show ?thesis
        proof (cases "fst ?t")
          case False
          then have "startProbe env currentNode (currentOffset - 1) s (False, snd ?t)" by (simp add: startProbe_def endProbe_def prod_eq_iff)
          from probeRun.rejected[where attempt = "startProbe env" and probed = "\<lambda>n k. \<not> isWhitespaceOrZeroWidth (nodeText body n ! k) \<and> (g \<longrightarrow> k < length (nodeText body n))", OF pc this]
          show ?thesis by (simp only: startScan_reject[OF lt nws False])
        next
          case acc: True
          then have at': "startProbe env currentNode (currentOffset - 1) s (True, snd ?t)" by (simp add: startProbe_def endProbe_def prod_eq_iff)
          show ?thesis
          proof (cases oneChar)
            case True
            then have oc: "oneChar = True" by simp
            from probeRun.accepted[where attempt = "startProbe env" and probed = "\<lambda>n k. \<not> isWhitespaceOrZeroWidth (nodeText body n ! k) \<and> (g \<longrightarrow> k < length (nodeText body n))", OF pc at']
            show ?thesis unfolding oc by (simp only: startScan_accept_one[OF lt nws acc])
          next
            case False
            then have oc: "oneChar = False" by simp
            from "1.IH"(2)[OF lt nws _ False] acc le'
            have "probeRun (\<lambda>n k. \<not> isWhitespaceOrZeroWidth (nodeText body n ! k) \<and> (g \<longrightarrow> k < length (nodeText body n))) (startProbe env) (snd ?t)
                    (updateHighlightLineRangeStartScan env body oneChar (snd ?t) currentNode
                       (currentOffset - 1))"
              by simp
            from probeRun.continued[where attempt = "startProbe env" and probed = "\<lambda>n k. \<not> isWhitespaceOrZeroWidth (nodeText body n ! k) \<and> (g \<longrightarrow> k < length (nodeText body n))", OF pc at' this]
            show ?thesis unfolding oc by (simp only: startScan_accept_more[OF lt nws acc])
          qed
        qed
      qed
    qed
  qed
next
  case (2 env body oneChar s currentNode)
  show ?case
  proof (cases "previousNodeOf body currentNode")
    case None
    then show ?thesis by (simp add: startWalk_unfold[of env body _ s currentNode]
          probeRun.exhausted)
  next
    case (Some previousNode)
    show ?thesis
    proof (cases "occupiesSpaceAt body previousNode")
      case False
      with Some "2.IH"(1) show ?thesis
        by (simp add: startWalk_unfold[of env body _ s currentNode])
    next
      case occ: True
      show ?thesis
      proof (cases "getLastNonEmptyTextNode body previousNode")
        case None
        with Some occ "2.IH"(2) show ?thesis
          by (simp add: startWalk_unfold[of env body _ s currentNode])
      next
        case lt: (Some lastTextNode)
        let ?k = "length (nodeText body lastTextNode) - 1"
        let ?t = "tryToExpandStart env lastTextNode ?k s"
        note pn = \<open>previousNodeOf body currentNode = Some previousNode\<close>
        from getLastNonEmptyTextNode_Some[OF lt] have ne: "nodeText body lastTextNode \<noteq> []"
          by blast
        then have kl: "?k < length (nodeText body lastTextNode)" by simp
        then have kle: "g \<longrightarrow> ?k \<le> length (nodeText body lastTextNode)" by simp
        show ?thesis
        proof (cases "isWhitespaceOrZeroWidth (nodeText body lastTextNode ! ?k)")
          case True
          from "2.IH"(3)[OF pn _ lt True] occ kle
          have "probeRun (\<lambda>n k. \<not> isWhitespaceOrZeroWidth (nodeText body n ! k) \<and> (g \<longrightarrow> k < length (nodeText body n))) (startProbe env) s
                  (updateHighlightLineRangeStartScan env body oneChar s lastTextNode ?k)"
            by simp
          with pn occ lt True show ?thesis
            by (simp add: startWalk_unfold[of env body _ s currentNode])
        next
          case nws: False
          with kl have pc: "\<not> isWhitespaceOrZeroWidth (nodeText body lastTextNode ! ?k)
            \<and> (g \<longrightarrow> ?k < length (nodeText body lastTextNode))" by simp
          have at: "startProbe env lastTextNode ?k s (fst ?t, snd ?t)"
            by (simp add: startProbe_def)
          show ?thesis
          proof (cases "fst ?t")
            case False
            then have "startProbe env lastTextNode ?k s (False, snd ?t)" by (simp add: startProbe_def endProbe_def prod_eq_iff)
            from probeRun.rejected[where attempt = "startProbe env" and probed = "\<lambda>n k. \<not> isWhitespaceOrZeroWidth (nodeText body n ! k) \<and> (g \<longrightarrow> k < length (nodeText body n))", OF pc this]
              pn occ lt nws False
            show ?thesis by (simp add: startWalk_unfold[of env body _ s currentNode])
          next
            case acc: True
            then have at': "startProbe env lastTextNode ?k s (True, snd ?t)" by (simp add: startProbe_def endProbe_def prod_eq_iff)
            show ?thesis
            proof (cases oneChar)
              case True
              from probeRun.accepted[where attempt = "startProbe env" and probed = "\<lambda>n k. \<not> isWhitespaceOrZeroWidth (nodeText body n ! k) \<and> (g \<longrightarrow> k < length (nodeText body n))", OF pc at']
                pn occ lt nws acc True
              show ?thesis by (simp add: startWalk_unfold[of env body _ s currentNode])
            next
              case False
              from "2.IH"(4)[OF pn _ lt nws acc False] occ kle
              have "probeRun (\<lambda>n k. \<not> isWhitespaceOrZeroWidth (nodeText body n ! k) \<and> (g \<longrightarrow> k < length (nodeText body n))) (startProbe env) (snd ?t)
                      (updateHighlightLineRangeStartScan env body oneChar (snd ?t) lastTextNode ?k)"
                by simp
              from probeRun.continued[where attempt = "startProbe env" and probed = "\<lambda>n k. \<not> isWhitespaceOrZeroWidth (nodeText body n ! k) \<and> (g \<longrightarrow> k < length (nodeText body n))", OF pc at' this]
                pn occ lt nws acc False
              show ?thesis by (simp add: startWalk_unfold[of env body _ s currentNode])
            qed
          qed
        qed
      qed
    qed
  qed
qed

lemma probeRun_mono:
  assumes "probeRun P attempt s r" and "\<And>n k. P n k \<Longrightarrow> Q n k"
  shows "probeRun Q attempt s r"
  using assms
proof (induction rule: probeRun.induct)
  case (exhausted s)
  show ?case by (rule probeRun.exhausted)
next
  case (rejected n k s s')
  then show ?case by (auto intro: probeRun.rejected)
next
  case (accepted n k s s')
  then show ?case by (auto intro: probeRun.accepted)
next
  case (continued n k s s' r)
  then show ?case by (auto intro: probeRun.continued)
qed

lemma endRun_probes:
  "probeRun (probedChar body) (endProbe env) s (updateHighlightLineRangeEnd env body oneChar s)"
  unfolding updateHighlightLineRangeEnd_def by (rule endScan_probes(1))

lemma startRun_probes_any:
  "probeRun (\<lambda>n k. True) (startProbe env) s (updateHighlightLineRangeStart env body oneChar s)"
proof -
  have "probeRun (\<lambda>n k. \<not> isWhitespaceOrZeroWidth (nodeText body n ! k)
                       \<and> (False \<longrightarrow> k < length (nodeText body n)))
          (startProbe env) s
          (updateHighlightLineRangeStartScan env body oneChar s
             (startContainer (lineRange s)) (startOffset (lineRange s)))"
    using startScan_probes_guarded(1)[where g = False] by blast
  then show ?thesis
    unfolding updateHighlightLineRangeStart_def by (rule probeRun_mono) simp
qed

lemma startRun_probes:
  assumes "startOffset (lineRange s) \<le> length (nodeText body (startContainer (lineRange s)))"
  shows "probeRun (probedChar body) (startProbe env) s
           (updateHighlightLineRangeStart env body oneChar s)"
proof -
  have "probeRun (\<lambda>n k. \<not> isWhitespaceOrZeroWidth (nodeText body n ! k)
                       \<and> (True \<longrightarrow> k < length (nodeText body n)))
          (startProbe env) s
          (updateHighlightLineRangeStartScan env body oneChar s
             (startContainer (lineRange s)) (startOffset (lineRange s)))"
    using startScan_probes_guarded(1)[where g = True] assms by blast
  then show ?thesis
    unfolding updateHighlightLineRangeStart_def
    by (rule probeRun_mono) (simp add: probedChar_def)
qed

lemma tryToExpandEnd_counter:
  "linesSpannedChecks (snd (tryToExpandEnd env n k s)) = Suc (linesSpannedChecks s)"
  "fst (tryToExpandEnd env n k s) \<Longrightarrow> Suc (linesSpannedChecks s) \<le> MAX_LINES_SPANNED_CHECKS"
  by (auto simp: tryToExpandEnd_def split: prod.splits if_splits)

lemma tryToExpandStart_counter:
  "linesSpannedChecks (snd (tryToExpandStart env n k s)) = Suc (linesSpannedChecks s)"
  "fst (tryToExpandStart env n k s) \<Longrightarrow> Suc (linesSpannedChecks s) \<le> MAX_LINES_SPANNED_CHECKS"
  by (auto simp: tryToExpandStart_def split: prod.splits if_splits)

lemma probeRun_counter:
  assumes step': "\<forall>n k s r. attempt n k s r \<longrightarrow>
                   c (snd r) = Suc (c s) \<and> (fst r \<longrightarrow> c (snd r) \<le> M)"
  shows "probeRun P attempt s r \<Longrightarrow>
         c s \<le> c (snd r) \<and> (fst r \<longrightarrow> c s < c (snd r) \<and> c (snd r) \<le> M)"
proof (induction rule: probeRun.induct)
  case (exhausted s)
  show ?case by simp
next
  note step = step'[rule_format]
  case (rejected n k s s')
  from step[OF rejected.hyps(2)] show ?case by simp
next
  note step = step'[rule_format]
  case (accepted n k s s')
  from step[OF accepted.hyps(2)] show ?case by simp
next
  note step = step'[rule_format]
  case (continued n k s s' r)
  from step[OF continued.hyps(2)] have "c s' = Suc (c s)" by simp
  with continued.IH show ?case by auto
qed

lemma endProbe_counter:
  "\<forall>n k s r. endProbe env n k s r \<longrightarrow>
   linesSpannedChecks (snd r) = Suc (linesSpannedChecks s)
   \<and> (fst r \<longrightarrow> linesSpannedChecks (snd r) \<le> MAX_LINES_SPANNED_CHECKS)"
  using tryToExpandEnd_counter by (simp add: endProbe_def)

lemma startProbe_counter:
  "\<forall>n k s r. startProbe env n k s r \<longrightarrow>
   linesSpannedChecks (snd r) = Suc (linesSpannedChecks s)
   \<and> (fst r \<longrightarrow> linesSpannedChecks (snd r) \<le> MAX_LINES_SPANNED_CHECKS)"
  using tryToExpandStart_counter by (simp add: startProbe_def)

lemma updateEnd_counter:
  "linesSpannedChecks s \<le> linesSpannedChecks (snd (updateHighlightLineRangeEnd env body oneChar s))"
  using probeRun_counter[where attempt = "endProbe env" and c = linesSpannedChecks
      and M = MAX_LINES_SPANNED_CHECKS, OF endProbe_counter endRun_probes]
  by blast

lemma updateStart_counter:
  "fst (updateHighlightLineRangeStart env body oneChar s) \<Longrightarrow>
   linesSpannedChecks s < linesSpannedChecks (snd (updateHighlightLineRangeStart env body oneChar s))
   \<and> linesSpannedChecks (snd (updateHighlightLineRangeStart env body oneChar s))
       \<le> MAX_LINES_SPANNED_CHECKS"
  using probeRun_counter[where attempt = "startProbe env" and c = linesSpannedChecks
      and M = MAX_LINES_SPANNED_CHECKS, OF startProbe_counter startRun_probes_any]
  by blast

text \<open>
  \<^verbatim>\<open>do { keepGoingEnd = updateHighlightLineRangeEnd(true); keepGoingStart = updateHighlightLineRangeStart(true); } while (keepGoingStart && keepGoingEnd);\<close>
  The result is \<^verbatim>\<open>keepGoingStart\<close>, \<^verbatim>\<open>keepGoingEnd\<close> and the range object after the
  loop. Every round that continues has spent two probes of the budget.
\<close>

function alternateExpansion :: "layout \<Rightarrow> node \<Rightarrow> cachedLineRange \<Rightarrow> bool \<times> bool \<times> cachedLineRange" where
  "alternateExpansion env body highlightLineRange =
     (if fst (updateHighlightLineRangeStart env body True
                (snd (updateHighlightLineRangeEnd env body True highlightLineRange)))
         \<and> fst (updateHighlightLineRangeEnd env body True highlightLineRange)
      then alternateExpansion env body
             (snd (updateHighlightLineRangeStart env body True
                     (snd (updateHighlightLineRangeEnd env body True highlightLineRange))))
      else (fst (updateHighlightLineRangeStart env body True
                   (snd (updateHighlightLineRangeEnd env body True highlightLineRange))),
            fst (updateHighlightLineRangeEnd env body True highlightLineRange),
            snd (updateHighlightLineRangeStart env body True
                   (snd (updateHighlightLineRangeEnd env body True highlightLineRange)))))"
  by pat_completeness auto
termination
proof (relation "measure (\<lambda>(env, body, highlightLineRange).
                   Suc MAX_LINES_SPANNED_CHECKS - linesSpannedChecks highlightLineRange)", goal_cases)
  case 1
  show ?case by simp
next
  case (2 env body highlightLineRange)
  let ?e = "snd (updateHighlightLineRangeEnd env body True highlightLineRange)"
  from 2 have "fst (updateHighlightLineRangeStart env body True ?e)" by simp
  from updateStart_counter[OF this] updateEnd_counter[of highlightLineRange env body True]
  have "linesSpannedChecks highlightLineRange
          < linesSpannedChecks (snd (updateHighlightLineRangeStart env body True ?e))"
    and "linesSpannedChecks (snd (updateHighlightLineRangeStart env body True ?e))
          \<le> MAX_LINES_SPANNED_CHECKS"
    by simp_all
  then show ?case by simp
qed

declare alternateExpansion.simps [simp del]

text \<open>The exceptions of the DOM that the source can run into.\<close>

datatype domException = IndexSizeError

definition collapseLine :: "cachedLineRange \<Rightarrow> cachedLineRange" where
  "collapseLine highlightLineRange =
     highlightLineRange\<lparr>lineRange := collapse False (lineRange highlightLineRange)\<rparr>"

text \<open>
  The expansion of \<^verbatim>\<open>setHighlightLineRange\<close>: the alternation, then the greedy expansion
  of the side that can still grow.
\<close>

definition expandLineRange :: "layout \<Rightarrow> node \<Rightarrow> cachedLineRange \<Rightarrow> cachedLineRange" where
  "expandLineRange env body highlightLineRange =
     (case alternateExpansion env body highlightLineRange of
        (keepGoingStart, keepGoingEnd, alternated) \<Rightarrow>
          let startDone =
                (if keepGoingStart
                 then snd (updateHighlightLineRangeStart env body False alternated)
                 else alternated)
          in if keepGoingEnd
             then snd (updateHighlightLineRangeEnd env body False startDone)
             else startDone)"

text \<open>
  The final check of \<^verbatim>\<open>setHighlightLineRange\<close>: a boundary still at the seed whose seed
  character is whitespace or zero-width.
\<close>

definition pointsAtEdgeWhitespace :: "node \<Rightarrow> path \<Rightarrow> nat \<Rightarrow> domRange \<Rightarrow> bool" where
  "pointsAtEdgeWhitespace body offsetNode seedOffset r =
     ((startContainer r = offsetNode \<and> startOffset r = seedOffset
         \<and> isWhitespaceOrZeroWidth (nodeText body (startContainer r) ! seedOffset))
      \<or> (endContainer r = offsetNode \<and> endOffset r = seedOffset + 1
         \<and> isWhitespaceOrZeroWidth (nodeText body (endContainer r) ! seedOffset)))"

text \<open>
  \<^verbatim>\<open>setHighlightLineRange(caretPosition, mouseY)\<close>, in three pieces: the seeding of the
  range with one character, the vertical check on the seed's rectangle, and everything
  after the seed (\<open>resolveLineFrom\<close>): the two early exits, the expansion and the final
  check. On an empty text node the seed offset is \<^verbatim>\<open>Math.min(offset, -1)\<close>, and
  \<^verbatim>\<open>setStart(node, -1)\<close> throws an \<^verbatim>\<open>IndexSizeError\<close> before anything is changed.
\<close>

definition seedLineRange :: "path \<Rightarrow> nat \<Rightarrow> cachedLineRange \<Rightarrow> cachedLineRange" where
  "seedLineRange offsetNode seedOffset highlightLineRange =
     highlightLineRange
       \<lparr>lineRange := setEnd offsetNode (seedOffset + 1)
                       (setStart offsetNode seedOffset (lineRange highlightLineRange))\<rparr>"

definition outsideVertically :: "rect \<Rightarrow> real \<Rightarrow> bool" where
  "outsideVertically lineRect mouseY =
     (rectHeight lineRect = 0 \<or> mouseY < rectTop lineRect \<or> rectBottom lineRect < mouseY)"

definition resolveLineFrom ::
  "layout \<Rightarrow> node \<Rightarrow> path \<Rightarrow> nat \<Rightarrow> real \<Rightarrow> cachedLineRange \<Rightarrow> cachedLineRange" where
  "resolveLineFrom env body offsetNode seedOffset mouseY seeded =
     (if outsideVertically (getBoundingClientRect env (lineRange seeded)) mouseY
      then collapseLine seeded
      else if hasMoreThanOne
                (getClientRects env
                   (lineRange (setInitialRect (getBoundingClientRect env (lineRange seeded))
                                 seeded)))
      then collapseLine (setInitialRect (getBoundingClientRect env (lineRange seeded)) seeded)
      else if pointsAtEdgeWhitespace body offsetNode seedOffset
                (lineRange (expandLineRange env body
                   (setInitialRect (getBoundingClientRect env (lineRange seeded)) seeded)))
      then collapseLine (expandLineRange env body
             (setInitialRect (getBoundingClientRect env (lineRange seeded)) seeded))
      else expandLineRange env body
             (setInitialRect (getBoundingClientRect env (lineRange seeded)) seeded))"

definition setHighlightLineRange ::
  "layout \<Rightarrow> node \<Rightarrow> caretPosition \<Rightarrow> real \<Rightarrow> cachedLineRange
     \<Rightarrow> domException + cachedLineRange" where
  "setHighlightLineRange env body caretPosition mouseY highlightLineRange =
     (case caretPosition of
        None \<Rightarrow> Inr highlightLineRange
      | Some (offsetNode, offset) \<Rightarrow>
          if \<not> isTextNode body offsetNode then Inr highlightLineRange
          else if nodeText body offsetNode = [] then Inl IndexSizeError
          else Inr (resolveLineFrom env body offsetNode
                      (min offset (length (nodeText body offsetNode) - 1)) mouseY
                      (seedLineRange offsetNode
                         (min offset (length (nodeText body offsetNode) - 1))
                         highlightLineRange)))"

text \<open>
  The two persisted ranges \<^verbatim>\<open>highlightWordRange\<close> and \<^verbatim>\<open>highlightLineRange\<close>, and the
  number of hit tests
  (\<^verbatim>\<open>document.caretPositionFromPoint\<close>) made so far, kept to observe that effect.
\<close>

record highlighter =
  wordHighlight :: domRange
  lineHighlight :: cachedLineRange
  hitTests :: nat

text \<open>
  \<^verbatim>\<open>pointerMoveHandler(event)\<close> of part_001. The local \<^verbatim>\<open>caretPosition\<close> is
  \<^verbatim>\<open>undefined\<close> (\<open>None\<close>) until a hit test has run. The result is the exception that
  escapes the handler, if any, and the state the handler leaves.
\<close>

definition resolveWordAt :: "layout \<Rightarrow> node \<Rightarrow> real \<Rightarrow> real \<Rightarrow> highlighter \<Rightarrow> caretPosition option \<times> highlighter" where
  "resolveWordAt env body x y h =
     (if isPointOutsideHighlightedWord env (wordHighlight h) x y
      then
        let caretPosition = caretPositionFromPoint env x y;
            resolved = setHighlightWordRange body caretPosition
                         (collapse False (wordHighlight h))
        in (Some caretPosition,
            h\<lparr>wordHighlight :=
                 (if isPointOutsideHighlightedWord env resolved x y
                  then collapse False resolved else resolved),
               hitTests := Suc (hitTests h)\<rparr>)
      else (None, h))"

definition resolveLineAt ::
  "layout \<Rightarrow> node \<Rightarrow> real \<Rightarrow> real \<Rightarrow> caretPosition option \<Rightarrow> highlighter
     \<Rightarrow> domException option \<times> highlighter" where
  "resolveLineAt env body x y caret h =
     (if isPointOutsideHighlightedLine env (lineHighlight h) x y
      then
        let caretPosition = (case caret of Some c \<Rightarrow> c | None \<Rightarrow> caretPositionFromPoint env x y);
            tested = (case caret of Some c \<Rightarrow> hitTests h | None \<Rightarrow> Suc (hitTests h))
        in case setHighlightLineRange env body caretPosition y
                  (collapseLine (lineHighlight h)) of
             Inl e \<Rightarrow>
               (Some e, h\<lparr>lineHighlight := collapseLine (lineHighlight h),
                          hitTests := tested\<rparr>)
           | Inr resolved \<Rightarrow>
               (None, h\<lparr>lineHighlight :=
                           (if isPointOutsideHighlightedLine env resolved x y
                            then collapseLine resolved else resolved),
                         hitTests := tested\<rparr>)
      else (None, h))"

definition pointerMoveHandler ::
  "layout \<Rightarrow> node \<Rightarrow> real \<Rightarrow> real \<Rightarrow> highlighter \<Rightarrow> domException option \<times> highlighter" where
  "pointerMoveHandler env body x y h =
     (case resolveWordAt env body x y h of
        (caretPosition, h') \<Rightarrow> resolveLineAt env body x y caretPosition h')"

definition pointerLeaveHandler :: "highlighter \<Rightarrow> highlighter" where
  "pointerLeaveHandler h =
     h\<lparr>wordHighlight := collapse False (wordHighlight h),
       lineHighlight := collapseLine (lineHighlight h)\<rparr>"

text \<open>
  A layout for examples: every character is 10 wide and 20 high, all text is on one
  line starting at the origin, and the hit test answers with a fixed caret position.
\<close>

definition fixedPitchLine :: "caretPosition \<Rightarrow> layout" where
  "fixedPitchLine hit =
     \<lparr>getBoundingClientRect = (\<lambda>r.
         \<lparr>rectX = 10 * real (startOffset r), rectY = 0,
          rectWidth = 10 * (real (endOffset r) - real (startOffset r)), rectHeight = 20\<rparr>),
      getClientRects = (\<lambda>r.
         if endOffset r \<le> startOffset r then []
         else [\<lparr>rectX = 10 * real (startOffset r), rectY = 0,
                rectWidth = 10 * (real (endOffset r) - real (startOffset r)), rectHeight = 20\<rparr>]),
      caretPositionFromPoint = (\<lambda>x y. hit)\<rparr>"

definition newLineRange :: cachedLineRange where
  "newLineRange =
     \<lparr>lineRange = createRange, manualBoundingRectTop = 0, manualBoundingRectBottom = 0,
      minRectHeight = 0, linesSpannedChecks = 0\<rparr>"

definition newHighlighter :: highlighter where
  "newHighlighter =
     \<lparr>wordHighlight = createRange, lineHighlight = newLineRange, hitTests = 0\<rparr>"

definition aSpaceB :: node where
  "aSpaceB = ElementNode 100 20 [TextNode [0x61, 0x20, 0x62]]"


section \<open>Line resolution, part_002: the recomputing strategy\<close>

text \<open>
  \<^verbatim>\<open>class CachedLineRange extends Range\<close> of part_002: the range itself, the memoised
  bounding rectangle \<^verbatim>\<open>#boundingClientRect\<close> (\<open>None\<close> for \<^verbatim>\<open>null\<close>) and the counter.
  Every method that moves a boundary invalidates the memoised rectangle first.
\<close>

record cachedLineRange2 =
  lineRange2 :: domRange
  boundingClientRect :: "rect option"
  linesSpannedChecks2 :: nat

definition MAX_LINES_SPANNED_CHECKS2 :: nat where
  "MAX_LINES_SPANNED_CHECKS2 = 115"

definition invalidateBoundingClientRectangle :: "cachedLineRange2 \<Rightarrow> cachedLineRange2" where
  "invalidateBoundingClientRectangle this = this\<lparr>boundingClientRect := None\<rparr>"

text \<open>
  \<^verbatim>\<open>collapse()\<close> takes no argument and calls \<^verbatim>\<open>super.collapse()\<close> without one, which
  collapses to the end whatever the caller passed.
\<close>

definition collapse2 :: "cachedLineRange2 \<Rightarrow> cachedLineRange2" where
  "collapse2 this =
     (invalidateBoundingClientRectangle this)
       \<lparr>lineRange2 := collapse False (lineRange2 this)\<rparr>"

text \<open>
  \<^verbatim>\<open>getBoundingClientRect() { return this.#boundingClientRect ??= super.getBoundingClientRect(); }\<close>
  returns the rectangle and leaves it memoised.
\<close>

definition getBoundingClientRect2 :: "layout \<Rightarrow> cachedLineRange2 \<Rightarrow> rect \<times> cachedLineRange2" where
  "getBoundingClientRect2 env this =
     (case boundingClientRect this of
        Some r \<Rightarrow> (r, this)
      | None \<Rightarrow>
          (getBoundingClientRect env (lineRange2 this),
           this\<lparr>boundingClientRect := Some (getBoundingClientRect env (lineRange2 this))\<rparr>))"

definition resetLinesSpannedChecksCount :: "cachedLineRange2 \<Rightarrow> cachedLineRange2" where
  "resetLinesSpannedChecksCount this = this\<lparr>linesSpannedChecks2 := 0\<rparr>"

definition setEnd2 :: "path \<Rightarrow> nat \<Rightarrow> cachedLineRange2 \<Rightarrow> cachedLineRange2" where
  "setEnd2 n k this =
     (invalidateBoundingClientRectangle this)\<lparr>lineRange2 := setEnd n k (lineRange2 this)\<rparr>"

definition setStart2 :: "path \<Rightarrow> nat \<Rightarrow> cachedLineRange2 \<Rightarrow> cachedLineRange2" where
  "setStart2 n k this =
     (invalidateBoundingClientRectangle this)\<lparr>lineRange2 := setStart n k (lineRange2 this)\<rparr>"

definition rectanglesAreEqual :: "rect \<Rightarrow> rect \<Rightarrow> bool" where
  "rectanglesAreEqual rect1 rect2 =
     (rectLeft rect1 = rectLeft rect2 \<and> rectRight rect1 = rectRight rect2
      \<and> rectTop rect1 = rectTop rect2 \<and> rectBottom rect1 = rectBottom rect2)"

text \<open>\<^verbatim>\<open>Math.min(...heights)\<close> of a list of at least one height.\<close>

fun minimum :: "real list \<Rightarrow> real" where
  "minimum [] = 0"
| "minimum [h] = h"
| "minimum (h # hs) = min h (minimum hs)"

text \<open>
  \<^verbatim>\<open>spansMultipleLines()\<close>: the counter is incremented first, and a counter above the
  maximum answers true at once. Otherwise the client rectangles that occupy space are
  taken; fewer than two answer false; else the bounding rectangle's height is compared
  with the product of the literal \<^verbatim>\<open>1.73\<close> and the smallest height, both the literal
  and the product rounded to binary64.
\<close>

definition spansMultipleLines :: "layout \<Rightarrow> cachedLineRange2 \<Rightarrow> bool \<times> cachedLineRange2" where
  "spansMultipleLines env this =
     (if Suc (linesSpannedChecks2 this) > MAX_LINES_SPANNED_CHECKS2
      then (True, this\<lparr>linesSpannedChecks2 := Suc (linesSpannedChecks2 this)\<rparr>)
      else
        let counted = this\<lparr>linesSpannedChecks2 := Suc (linesSpannedChecks2 this)\<rparr>;
            rects = filter (\<lambda>r. rectWidth r > 0 \<and> rectHeight r > 0)
                      (getClientRects env (lineRange2 counted))
        in if length rects < 2 then (False, counted)
           else (doubleMul (roundToDouble 1.73) (minimum (map rectHeight rects))
                   \<le> rectHeight (fst (getBoundingClientRect2 env counted)),
                 snd (getBoundingClientRect2 env counted)))"

text \<open>
  The first disjunct of the rollback condition,
  \<^verbatim>\<open>checkRectangleGrew && rectanglesAreEqual(prevRect, this.getBoundingClientRect())\<close>;
  \<open>prevRect\<close> is \<open>None\<close> when \<^verbatim>\<open>checkRectangleGrew\<close> is false, and then nothing is
  measured.
\<close>

definition rectangleDidNotGrow ::
  "layout \<Rightarrow> rect option \<Rightarrow> cachedLineRange2 \<Rightarrow> bool \<times> cachedLineRange2" where
  "rectangleDidNotGrow env prevRect this =
     (case prevRect of
        None \<Rightarrow> (False, this)
      | Some r \<Rightarrow>
          (rectanglesAreEqual r (fst (getBoundingClientRect2 env this)),
           snd (getBoundingClientRect2 env this)))"

text \<open>
  \<^verbatim>\<open>tryToExpandEnd(newNode, newOffset, checkRectangleGrew)\<close>: move the end, and move it
  back if the rectangle did not grow or the range spans several lines; the second
  disjunct is evaluated only when the first is false.
\<close>

definition tryToExpandEnd2 ::
  "layout \<Rightarrow> path \<Rightarrow> nat \<Rightarrow> bool \<Rightarrow> cachedLineRange2 \<Rightarrow> bool \<times> cachedLineRange2" where
  "tryToExpandEnd2 env newNode newOffset checkRectangleGrew this =
     (let prevNode = endContainer (lineRange2 this);
          prevOffset = endOffset (lineRange2 this);
          prevRect = (if checkRectangleGrew then Some (fst (getBoundingClientRect2 env this))
                      else None);
          measured = (if checkRectangleGrew then snd (getBoundingClientRect2 env this) else this);
          moved = setEnd2 newNode newOffset measured
      in case rectangleDidNotGrow env prevRect moved of
           (same, compared) \<Rightarrow>
             if same then (False, setEnd2 prevNode prevOffset compared)
             else case spansMultipleLines env compared of
                    (spans, checked) \<Rightarrow>
                      if spans then (False, setEnd2 prevNode prevOffset checked)
                      else (True, checked))"

definition tryToExpandStart2 ::
  "layout \<Rightarrow> path \<Rightarrow> nat \<Rightarrow> bool \<Rightarrow> cachedLineRange2 \<Rightarrow> bool \<times> cachedLineRange2" where
  "tryToExpandStart2 env newNode newOffset checkRectangleGrew this =
     (let prevNode = startContainer (lineRange2 this);
          prevOffset = startOffset (lineRange2 this);
          prevRect = (if checkRectangleGrew then Some (fst (getBoundingClientRect2 env this))
                      else None);
          measured = (if checkRectangleGrew then snd (getBoundingClientRect2 env this) else this);
          moved = setStart2 newNode newOffset measured
      in case rectangleDidNotGrow env prevRect moved of
           (same, compared) \<Rightarrow>
             if same then (False, setStart2 prevNode prevOffset compared)
             else case spansMultipleLines env compared of
                    (spans, checked) \<Rightarrow>
                      if spans then (False, setStart2 prevNode prevOffset checked)
                      else (True, checked))"

text \<open>
  \<^verbatim>\<open>isPointOutsideHighlightedLine(x, y)\<close> of part_002 measures through the memoising
  getter, and only when the range is not collapsed.
\<close>

definition isPointOutsideHighlightedLine2 ::
  "layout \<Rightarrow> cachedLineRange2 \<Rightarrow> real \<Rightarrow> real \<Rightarrow> bool \<times> cachedLineRange2" where
  "isPointOutsideHighlightedLine2 env highlightLineRange x y =
     (if collapsed (lineRange2 highlightLineRange) then (True, highlightLineRange)
      else (\<not> isInsideRect (fst (getBoundingClientRect2 env highlightLineRange)) x y,
            snd (getBoundingClientRect2 env highlightLineRange)))"

text \<open>
  The search for the next node in part_002: a sibling that occupies no space counts as
  absent, both for the node itself and for its ancestors.
\<close>

definition nextSibling2 :: "node \<Rightarrow> path \<Rightarrow> path option" where
  "nextSibling2 body p =
     (case nextSibling body p of
        None \<Rightarrow> None
      | Some nextNode \<Rightarrow> if occupiesSpaceAt body nextNode then Some nextNode else None)"

definition previousSibling2 :: "node \<Rightarrow> path \<Rightarrow> path option" where
  "previousSibling2 body p =
     (case previousSibling body p of
        None \<Rightarrow> None
      | Some previousNode \<Rightarrow>
          if occupiesSpaceAt body previousNode then Some previousNode else None)"

function nextUncle2 :: "node \<Rightarrow> path \<Rightarrow> path option" where
  "nextUncle2 body parent =
     (if parent = [] then None
      else case nextSibling2 body parent of
             Some nextNode \<Rightarrow> Some nextNode
           | None \<Rightarrow> nextUncle2 body (parentNode parent))"
  by pat_completeness auto
termination
  by (relation "measure (\<lambda>(body, parent). length parent)") (auto simp: parentNode_def)

function previousUncle2 :: "node \<Rightarrow> path \<Rightarrow> path option" where
  "previousUncle2 body parent =
     (if parent = [] then None
      else case previousSibling2 body parent of
             Some previousNode \<Rightarrow> Some previousNode
           | None \<Rightarrow> previousUncle2 body (parentNode parent))"
  by pat_completeness auto
termination
  by (relation "measure (\<lambda>(body, parent). length parent)") (auto simp: parentNode_def)

declare nextUncle2.simps [simp del] previousUncle2.simps [simp del]

definition nextNodeOf2 :: "node \<Rightarrow> path \<Rightarrow> path option" where
  "nextNodeOf2 body currentNode =
     (case nextSibling2 body currentNode of
        Some nextNode \<Rightarrow> Some nextNode
      | None \<Rightarrow> nextUncle2 body (parentNode currentNode))"

definition previousNodeOf2 :: "node \<Rightarrow> path \<Rightarrow> path option" where
  "previousNodeOf2 body currentNode =
     (case previousSibling2 body currentNode of
        Some previousNode \<Rightarrow> Some previousNode
      | None \<Rightarrow> previousUncle2 body (parentNode currentNode))"

lemma nextSibling2_after:
  "nextSibling2 body q = Some n \<Longrightarrow> nodeAt body n \<noteq> None \<and> (\<forall>rest r. q @ rest < n @ r)"
  using nextSibling_after[of body q n]
  by (auto simp: nextSibling2_def split: option.splits if_splits)

lemma previousSibling2_before:
  "previousSibling2 body q = Some n \<Longrightarrow> nodeAt body n \<noteq> None \<and> (\<forall>rest r. n @ r < q @ rest)"
  using previousSibling_before[of body q n]
  by (auto simp: previousSibling2_def split: option.splits if_splits)

lemma nextUncle2_after:
  "nextUncle2 body q = Some n \<Longrightarrow> nodeAt body n \<noteq> None \<and> (\<forall>rest r. q @ rest < n @ r)"
proof (induction body q rule: nextUncle2.induct)
  case (1 body parent)
  from "1.prems" have ne: "parent \<noteq> []" by (subst (asm) nextUncle2.simps) (auto split: if_splits)
  show ?case
  proof (cases "nextSibling2 body parent")
    case (Some s)
    with ne "1.prems" have "s = n" by (subst (asm) nextUncle2.simps) simp
    with nextSibling2_after[OF Some] show ?thesis by simp
  next
    case None
    with ne "1.prems" have rec: "nextUncle2 body (butlast parent) = Some n"
      by (subst (asm) nextUncle2.simps) (simp add: parentNode_def)
    from "1.IH"[OF ne None] rec have v: "nodeAt body n \<noteq> None"
      and a: "\<And>rest r. butlast parent @ rest < n @ r" by (simp_all add: parentNode_def)
    have "parent @ rest < n @ r" for rest r
      using a[of "last parent # rest" r] ne
      by (metis append.assoc append_Cons append_Nil append_butlast_last_id)
    with v show ?thesis by blast
  qed
qed

lemma previousUncle2_before:
  "previousUncle2 body q = Some n \<Longrightarrow> nodeAt body n \<noteq> None \<and> (\<forall>rest r. n @ r < q @ rest)"
proof (induction body q rule: previousUncle2.induct)
  case (1 body parent)
  from "1.prems" have ne: "parent \<noteq> []"
    by (subst (asm) previousUncle2.simps) (auto split: if_splits)
  show ?case
  proof (cases "previousSibling2 body parent")
    case (Some s)
    with ne "1.prems" have "s = n" by (subst (asm) previousUncle2.simps) simp
    with previousSibling2_before[OF Some] show ?thesis by simp
  next
    case None
    with ne "1.prems" have rec: "previousUncle2 body (butlast parent) = Some n"
      by (subst (asm) previousUncle2.simps) (simp add: parentNode_def)
    from "1.IH"[OF ne None] rec have v: "nodeAt body n \<noteq> None"
      and a: "\<And>rest r. n @ r < butlast parent @ rest" by (simp_all add: parentNode_def)
    have "n @ r < parent @ rest" for rest r
      using a[of r "last parent # rest"] ne
      by (metis append.assoc append_Cons append_Nil append_butlast_last_id)
    with v show ?thesis by blast
  qed
qed

lemma nextNodeOf2_after:
  assumes "nextNodeOf2 body p = Some n"
  shows "nodeAt body n \<noteq> None \<and> (\<forall>r. p < n @ r)"
proof (cases "nextSibling2 body p")
  case (Some s)
  with assms have "s = n" by (simp add: nextNodeOf2_def)
  with nextSibling2_after[OF Some] have "nodeAt body n \<noteq> None" "\<And>r. p @ [] < n @ r" by blast+
  then show ?thesis by simp
next
  case None
  with assms have u: "nextUncle2 body (butlast p) = Some n"
    by (simp add: nextNodeOf2_def parentNode_def)
  then have ne: "p \<noteq> []" by (subst (asm) nextUncle2.simps) (auto split: if_splits)
  from nextUncle2_after[OF u] have v: "nodeAt body n \<noteq> None"
    and a: "\<And>rest r. butlast p @ rest < n @ r" by blast+
  have "p < n @ r" for r using a[of "[last p]" r] ne by simp
  with v show ?thesis by blast
qed

lemma previousNodeOf2_before:
  assumes "previousNodeOf2 body p = Some n"
  shows "nodeAt body n \<noteq> None \<and> (\<forall>r. n @ r < p)"
proof (cases "previousSibling2 body p")
  case (Some s)
  with assms have "s = n" by (simp add: previousNodeOf2_def)
  with previousSibling2_before[OF Some] have "nodeAt body n \<noteq> None" "\<And>r. n @ r < p @ []"
    by blast+
  then show ?thesis by simp
next
  case None
  with assms have u: "previousUncle2 body (butlast p) = Some n"
    by (simp add: previousNodeOf2_def parentNode_def)
  then have ne: "p \<noteq> []" by (subst (asm) previousUncle2.simps) (auto split: if_splits)
  from previousUncle2_before[OF u] have v: "nodeAt body n \<noteq> None"
    and a: "\<And>rest r. n @ r < butlast p @ rest" by blast+
  have "n @ r < p" for r using a[of r "[last p]"] ne by simp
  with v show ?thesis by blast
qed

lemma nextNodeOf2_less:
  "nextNodeOf2 body p = Some n \<Longrightarrow> nodesAfter body n < nodesAfter body p"
proof -
  assume a: "nextNodeOf2 body p = Some n"
  from nextNodeOf2_after[OF a] obtain m where "nodeAt body n = Some m" "p < n @ []" by blast
  then show ?thesis using nodesAfter_less[of body n m p] by simp
qed

lemma nextNodeOf2_text_less:
  "nextNodeOf2 body p = Some n \<Longrightarrow> getNextTextNode body n = Some t \<Longrightarrow>
   nodesAfter body t < nodesAfter body p"
proof -
  assume a: "nextNodeOf2 body p = Some n" and b: "getNextTextNode body n = Some t"
  from getNextTextNode_Some[OF b] obtain r where t: "t = n @ r" and ne: "nodeText body t \<noteq> []"
    by blast
  from nodeText_valid[OF ne] obtain m where "nodeAt body t = Some m" by blast
  moreover from nextNodeOf2_after[OF a] t have "p < t" by blast
  ultimately show ?thesis by (rule nodesAfter_less)
qed

lemma previousNodeOf2_less:
  "previousNodeOf2 body p = Some n \<Longrightarrow> nodesBefore body n < nodesBefore body p"
proof -
  assume a: "previousNodeOf2 body p = Some n"
  from previousNodeOf2_before[OF a] obtain m where "nodeAt body n = Some m" "n @ [] < p" by blast
  then show ?thesis using nodesBefore_less[of body n m p] by simp
qed

lemma previousNodeOf2_text_less:
  "previousNodeOf2 body p = Some n \<Longrightarrow> getLastNonEmptyTextNode body n = Some t \<Longrightarrow>
   nodesBefore body t < nodesBefore body p"
proof -
  assume a: "previousNodeOf2 body p = Some n" and b: "getLastNonEmptyTextNode body n = Some t"
  from getLastNonEmptyTextNode_Some[OF b] obtain r where t: "t = n @ r"
    and ne: "nodeText body t \<noteq> []" by blast
  from nodeText_valid[OF ne] obtain m where "nodeAt body t = Some m" by blast
  moreover from previousNodeOf2_before[OF a] t have "t < p" by blast
  ultimately show ?thesis by (rule nodesBefore_less)
qed

text \<open>
  \<^verbatim>\<open>updateHighlightLineRangeEnd(oneChar)\<close> of part_002. The local \<^verbatim>\<open>checkRectangleGrew\<close>
  starts false, becomes true when the walk enters a new text node and false again after
  an accepted probe; skipped whitespace leaves it as it is.
\<close>

function updateHighlightLineRangeEndScan2 ::
    "layout \<Rightarrow> node \<Rightarrow> bool \<Rightarrow> cachedLineRange2 \<Rightarrow> path \<Rightarrow> nat \<Rightarrow> bool
       \<Rightarrow> bool \<times> cachedLineRange2"
  and updateHighlightLineRangeEndWalk2 ::
    "layout \<Rightarrow> node \<Rightarrow> bool \<Rightarrow> cachedLineRange2 \<Rightarrow> path \<Rightarrow> bool \<times> cachedLineRange2" where
  "updateHighlightLineRangeEndScan2 env body oneChar highlightLineRange currentNode currentOffset
       checkRectangleGrew =
     (if currentOffset < length (nodeText body currentNode)
      then
        if isWhitespaceOrZeroWidth (nodeText body currentNode ! currentOffset)
        then updateHighlightLineRangeEndScan2 env body oneChar highlightLineRange
               currentNode (Suc currentOffset) checkRectangleGrew
        else if \<not> fst (tryToExpandEnd2 env currentNode (Suc currentOffset) checkRectangleGrew
                         highlightLineRange)
        then (False, snd (tryToExpandEnd2 env currentNode (Suc currentOffset) checkRectangleGrew
                            highlightLineRange))
        else if oneChar
        then (True, snd (tryToExpandEnd2 env currentNode (Suc currentOffset) checkRectangleGrew
                           highlightLineRange))
        else updateHighlightLineRangeEndScan2 env body oneChar
               (snd (tryToExpandEnd2 env currentNode (Suc currentOffset) checkRectangleGrew
                       highlightLineRange))
               currentNode (Suc currentOffset) False
      else updateHighlightLineRangeEndWalk2 env body oneChar highlightLineRange currentNode)"
| "updateHighlightLineRangeEndWalk2 env body oneChar highlightLineRange currentNode =
     (case nextNodeOf2 body currentNode of
        None \<Rightarrow> (False, highlightLineRange)
      | Some nextNode \<Rightarrow>
          (case getNextTextNode body nextNode of
             None \<Rightarrow> updateHighlightLineRangeEndWalk2 env body oneChar highlightLineRange nextNode
           | Some nextTextNode \<Rightarrow>
               updateHighlightLineRangeEndScan2 env body oneChar highlightLineRange
                 nextTextNode 0 True))"
  by pat_completeness auto
termination
proof (relation "inv_image (less_than <*lex*> less_than <*lex*> less_than)
    (\<lambda>x. case x of
       Inl (env, body, oneChar, highlightLineRange, currentNode, currentOffset, check) \<Rightarrow>
         (nodesAfter body currentNode, Suc 0, length (nodeText body currentNode) - currentOffset)
     | Inr (env, body, oneChar, highlightLineRange, currentNode) \<Rightarrow>
         (nodesAfter body currentNode, 0, 0))", goal_cases)
  case 1
  show ?case by (intro wf_inv_image wf_lex_prod wf_less_than)
next
  case 2
  then show ?case by auto
next
  case 3
  then show ?case by auto
next
  case 4
  then show ?case by simp
next
  case 5
  then show ?case by (simp add: nextNodeOf2_less)
next
  case 6
  then show ?case by (simp add: nextNodeOf2_text_less)
qed

definition updateHighlightLineRangeEnd2 ::
  "layout \<Rightarrow> node \<Rightarrow> bool \<Rightarrow> cachedLineRange2 \<Rightarrow> bool \<times> cachedLineRange2" where
  "updateHighlightLineRangeEnd2 env body oneChar highlightLineRange =
     updateHighlightLineRangeEndScan2 env body oneChar highlightLineRange
       (endContainer (lineRange2 highlightLineRange)) (endOffset (lineRange2 highlightLineRange))
       False"

text \<open>
  \<^verbatim>\<open>updateHighlightLineRangeStart(oneChar)\<close> of part_002: the scan probes with
  \<^verbatim>\<open>checkRectangleGrew\<close> false, the walk with \<^verbatim>\<open>checkRectangleGrew\<close> true.
\<close>

function updateHighlightLineRangeStartScan2 ::
    "layout \<Rightarrow> node \<Rightarrow> bool \<Rightarrow> cachedLineRange2 \<Rightarrow> path \<Rightarrow> nat \<Rightarrow> bool \<times> cachedLineRange2"
  and updateHighlightLineRangeStartWalk2 ::
    "layout \<Rightarrow> node \<Rightarrow> bool \<Rightarrow> cachedLineRange2 \<Rightarrow> path \<Rightarrow> bool \<times> cachedLineRange2" where
  "updateHighlightLineRangeStartScan2 env body oneChar highlightLineRange currentNode currentOffset =
     (if currentOffset > 0
      then
        if isWhitespaceOrZeroWidth (nodeText body currentNode ! (currentOffset - 1))
        then updateHighlightLineRangeStartScan2 env body oneChar highlightLineRange
               currentNode (currentOffset - 1)
        else if \<not> fst (tryToExpandStart2 env currentNode (currentOffset - 1) False
                         highlightLineRange)
        then (False, snd (tryToExpandStart2 env currentNode (currentOffset - 1) False
                            highlightLineRange))
        else if oneChar
        then (True, snd (tryToExpandStart2 env currentNode (currentOffset - 1) False
                           highlightLineRange))
        else updateHighlightLineRangeStartScan2 env body oneChar
               (snd (tryToExpandStart2 env currentNode (currentOffset - 1) False
                       highlightLineRange))
               currentNode (currentOffset - 1)
      else updateHighlightLineRangeStartWalk2 env body oneChar highlightLineRange currentNode)"
| "updateHighlightLineRangeStartWalk2 env body oneChar highlightLineRange currentNode =
     (case previousNodeOf2 body currentNode of
        None \<Rightarrow> (False, highlightLineRange)
      | Some previousNode \<Rightarrow>
          (case getLastNonEmptyTextNode body previousNode of
             None \<Rightarrow>
               updateHighlightLineRangeStartWalk2 env body oneChar highlightLineRange previousNode
           | Some lastTextNode \<Rightarrow>
               if isWhitespaceOrZeroWidth
                    (nodeText body lastTextNode ! (length (nodeText body lastTextNode) - 1))
               then updateHighlightLineRangeStartScan2 env body oneChar highlightLineRange
                      lastTextNode (length (nodeText body lastTextNode) - 1)
               else if fst (tryToExpandStart2 env lastTextNode
                              (length (nodeText body lastTextNode) - 1) True highlightLineRange)
               then
                 if oneChar
                 then (True, snd (tryToExpandStart2 env lastTextNode
                                    (length (nodeText body lastTextNode) - 1) True
                                    highlightLineRange))
                 else updateHighlightLineRangeStartScan2 env body oneChar
                        (snd (tryToExpandStart2 env lastTextNode
                                (length (nodeText body lastTextNode) - 1) True highlightLineRange))
                        lastTextNode (length (nodeText body lastTextNode) - 1)
               else (False, snd (tryToExpandStart2 env lastTextNode
                                   (length (nodeText body lastTextNode) - 1) True
                                   highlightLineRange))))"
  by pat_completeness auto
termination
proof (relation "inv_image (less_than <*lex*> less_than <*lex*> less_than)
    (\<lambda>x. case x of
       Inl (env, body, oneChar, highlightLineRange, currentNode, currentOffset) \<Rightarrow>
         (nodesBefore body currentNode, Suc 0, currentOffset)
     | Inr (env, body, oneChar, highlightLineRange, currentNode) \<Rightarrow>
         (nodesBefore body currentNode, 0, 0))", goal_cases)
  case 1
  show ?case by (intro wf_inv_image wf_lex_prod wf_less_than)
next
  case 2
  then show ?case by auto
next
  case 3
  then show ?case by auto
next
  case 4
  then show ?case by simp
next
  case 5
  then show ?case by (simp add: previousNodeOf2_less)
next
  case 6
  then show ?case by (simp add: previousNodeOf2_text_less)
next
  case 7
  then show ?case by (simp add: previousNodeOf2_text_less)
qed

definition updateHighlightLineRangeStart2 ::
  "layout \<Rightarrow> node \<Rightarrow> bool \<Rightarrow> cachedLineRange2 \<Rightarrow> bool \<times> cachedLineRange2" where
  "updateHighlightLineRangeStart2 env body oneChar highlightLineRange =
     updateHighlightLineRangeStartScan2 env body oneChar highlightLineRange
       (startContainer (lineRange2 highlightLineRange))
       (startOffset (lineRange2 highlightLineRange))"

declare updateHighlightLineRangeEndScan2.simps [simp del]
  updateHighlightLineRangeEndWalk2.simps [simp del]
  updateHighlightLineRangeStartScan2.simps [simp del]
  updateHighlightLineRangeStartWalk2.simps [simp del]

text \<open>A range whose start is not after its end, as every DOM range is.\<close>

definition wellOrdered :: "domRange \<Rightarrow> bool" where
  "wellOrdered r =
     (\<not> isBefore (endContainer r, endOffset r) (startContainer r, startOffset r))"

lemma getBoundingClientRect2_range [simp]:
  "lineRange2 (snd (getBoundingClientRect2 env s)) = lineRange2 s"
  "linesSpannedChecks2 (snd (getBoundingClientRect2 env s)) = linesSpannedChecks2 s"
  by (simp_all add: getBoundingClientRect2_def split: option.splits)

lemma spansMultipleLines_range [simp]:
  "lineRange2 (snd (spansMultipleLines env s)) = lineRange2 s"
  by (simp add: spansMultipleLines_def Let_def)

lemma spansMultipleLines_counter:
  "linesSpannedChecks2 (snd (spansMultipleLines env s)) = Suc (linesSpannedChecks2 s)"
  "\<not> fst (spansMultipleLines env s) \<Longrightarrow> Suc (linesSpannedChecks2 s) \<le> MAX_LINES_SPANNED_CHECKS2"
  by (auto simp: spansMultipleLines_def Let_def split: if_splits)

lemma rectangleDidNotGrow_range [simp]:
  "lineRange2 (snd (rectangleDidNotGrow env p s)) = lineRange2 s"
  "linesSpannedChecks2 (snd (rectangleDidNotGrow env p s)) = linesSpannedChecks2 s"
  by (simp_all add: rectangleDidNotGrow_def split: option.splits)

lemma setEnd2_fields [simp]:
  "lineRange2 (setEnd2 n k s) = setEnd n k (lineRange2 s)"
  "linesSpannedChecks2 (setEnd2 n k s) = linesSpannedChecks2 s"
  by (simp_all add: setEnd2_def invalidateBoundingClientRectangle_def)

lemma setStart2_fields [simp]:
  "lineRange2 (setStart2 n k s) = setStart n k (lineRange2 s)"
  "linesSpannedChecks2 (setStart2 n k s) = linesSpannedChecks2 s"
  by (simp_all add: setStart2_def invalidateBoundingClientRectangle_def)

lemma tryToExpandEnd2_outcome:
  "(\<not> fst (tryToExpandEnd2 env n k c s)
      \<and> lineRange2 (snd (tryToExpandEnd2 env n k c s))
          = setEnd (endContainer (lineRange2 s)) (endOffset (lineRange2 s))
              (setEnd n k (lineRange2 s))
      \<and> linesSpannedChecks2 s \<le> linesSpannedChecks2 (snd (tryToExpandEnd2 env n k c s)))
   \<or> (fst (tryToExpandEnd2 env n k c s)
      \<and> lineRange2 (snd (tryToExpandEnd2 env n k c s)) = setEnd n k (lineRange2 s)
      \<and> linesSpannedChecks2 (snd (tryToExpandEnd2 env n k c s)) = Suc (linesSpannedChecks2 s)
      \<and> Suc (linesSpannedChecks2 s) \<le> MAX_LINES_SPANNED_CHECKS2)"
proof -
  define prevRect where
    "prevRect = (if c then Some (fst (getBoundingClientRect2 env s)) else None)"
  define measured where "measured = (if c then snd (getBoundingClientRect2 env s) else s)"
  define moved where "moved = setEnd2 n k measured"
  define compared where "compared = snd (rectangleDidNotGrow env prevRect moved)"
  define checked where "checked = snd (spansMultipleLines env compared)"
  let ?pn = "endContainer (lineRange2 s)" and ?po = "endOffset (lineRange2 s)"
  have m1: "lineRange2 measured = lineRange2 s" "linesSpannedChecks2 measured = linesSpannedChecks2 s"
    by (simp_all add: measured_def)
  have c1: "lineRange2 compared = setEnd n k (lineRange2 s)"
    "linesSpannedChecks2 compared = linesSpannedChecks2 s"
    by (simp_all add: compared_def moved_def m1)
  have k1: "lineRange2 checked = setEnd n k (lineRange2 s)"
    "linesSpannedChecks2 checked = Suc (linesSpannedChecks2 s)"
    by (simp_all add: checked_def c1 spansMultipleLines_counter(1))
  have eq: "tryToExpandEnd2 env n k c s =
      (if fst (rectangleDidNotGrow env prevRect moved) then (False, setEnd2 ?pn ?po compared)
       else if fst (spansMultipleLines env compared) then (False, setEnd2 ?pn ?po checked)
       else (True, checked))"
    unfolding tryToExpandEnd2_def Let_def prevRect_def measured_def moved_def compared_def
      checked_def
    by (simp add: case_prod_beta)
  show ?thesis
  proof (cases "fst (rectangleDidNotGrow env prevRect moved)")
    case True
    with eq have "tryToExpandEnd2 env n k c s = (False, setEnd2 ?pn ?po compared)" by simp
    then show ?thesis by (simp add: c1)
  next
    case ns: False
    show ?thesis
    proof (cases "fst (spansMultipleLines env compared)")
      case True
      with ns eq have "tryToExpandEnd2 env n k c s = (False, setEnd2 ?pn ?po checked)" by simp
      then show ?thesis by (simp add: k1)
    next
      case False
      with ns eq have e: "tryToExpandEnd2 env n k c s = (True, checked)" by simp
      from spansMultipleLines_counter(2)[OF False] c1(2)
      have "Suc (linesSpannedChecks2 s) \<le> MAX_LINES_SPANNED_CHECKS2" by simp
      with e show ?thesis by (simp add: k1)
    qed
  qed
qed

lemma tryToExpandStart2_outcome:
  "(\<not> fst (tryToExpandStart2 env n k c s)
      \<and> lineRange2 (snd (tryToExpandStart2 env n k c s))
          = setStart (startContainer (lineRange2 s)) (startOffset (lineRange2 s))
              (setStart n k (lineRange2 s))
      \<and> linesSpannedChecks2 s \<le> linesSpannedChecks2 (snd (tryToExpandStart2 env n k c s)))
   \<or> (fst (tryToExpandStart2 env n k c s)
      \<and> lineRange2 (snd (tryToExpandStart2 env n k c s)) = setStart n k (lineRange2 s)
      \<and> linesSpannedChecks2 (snd (tryToExpandStart2 env n k c s)) = Suc (linesSpannedChecks2 s)
      \<and> Suc (linesSpannedChecks2 s) \<le> MAX_LINES_SPANNED_CHECKS2)"
proof -
  define prevRect where
    "prevRect = (if c then Some (fst (getBoundingClientRect2 env s)) else None)"
  define measured where "measured = (if c then snd (getBoundingClientRect2 env s) else s)"
  define moved where "moved = setStart2 n k measured"
  define compared where "compared = snd (rectangleDidNotGrow env prevRect moved)"
  define checked where "checked = snd (spansMultipleLines env compared)"
  let ?pn = "startContainer (lineRange2 s)" and ?po = "startOffset (lineRange2 s)"
  have m1: "lineRange2 measured = lineRange2 s" "linesSpannedChecks2 measured = linesSpannedChecks2 s"
    by (simp_all add: measured_def)
  have c1: "lineRange2 compared = setStart n k (lineRange2 s)"
    "linesSpannedChecks2 compared = linesSpannedChecks2 s"
    by (simp_all add: compared_def moved_def m1)
  have k1: "lineRange2 checked = setStart n k (lineRange2 s)"
    "linesSpannedChecks2 checked = Suc (linesSpannedChecks2 s)"
    by (simp_all add: checked_def c1 spansMultipleLines_counter(1))
  have eq: "tryToExpandStart2 env n k c s =
      (if fst (rectangleDidNotGrow env prevRect moved) then (False, setStart2 ?pn ?po compared)
       else if fst (spansMultipleLines env compared) then (False, setStart2 ?pn ?po checked)
       else (True, checked))"
    unfolding tryToExpandStart2_def Let_def prevRect_def measured_def moved_def compared_def
      checked_def
    by (simp add: case_prod_beta)
  show ?thesis
  proof (cases "fst (rectangleDidNotGrow env prevRect moved)")
    case True
    with eq have "tryToExpandStart2 env n k c s = (False, setStart2 ?pn ?po compared)" by simp
    then show ?thesis by (simp add: c1)
  next
    case ns: False
    show ?thesis
    proof (cases "fst (spansMultipleLines env compared)")
      case True
      with ns eq have "tryToExpandStart2 env n k c s = (False, setStart2 ?pn ?po checked)" by simp
      then show ?thesis by (simp add: k1)
    next
      case False
      with ns eq have e: "tryToExpandStart2 env n k c s = (True, checked)" by simp
      from spansMultipleLines_counter(2)[OF False] c1(2)
      have "Suc (linesSpannedChecks2 s) \<le> MAX_LINES_SPANNED_CHECKS2" by simp
      with e show ?thesis by (simp add: k1)
    qed
  qed
qed

lemma isBefore_less: "isBefore a b \<longleftrightarrow> a < b"
  by (cases a, cases b) (auto simp: isBefore_def less_prod_def)

lemma setEnd_later:
  "\<not> isBefore (n, k) (startContainer r, startOffset r) \<Longrightarrow>
   setEnd n k r = r\<lparr>endContainer := n, endOffset := k\<rparr>"
  by (simp add: setEnd_def)

lemma setStart_earlier:
  "\<not> isBefore (endContainer r, endOffset r) (n, k) \<Longrightarrow>
   setStart n k r = r\<lparr>startContainer := n, startOffset := k\<rparr>"
  by (simp add: setStart_def)

lemma setEnd_rollback:
  assumes "wellOrdered r" "\<not> isBefore (n, k) (startContainer r, startOffset r)"
  shows "setEnd (endContainer r) (endOffset r) (setEnd n k r) = r"
  using assms by (simp add: setEnd_def wellOrdered_def)

lemma setStart_rollback:
  assumes "wellOrdered r" "\<not> isBefore (endContainer r, endOffset r) (n, k)"
  shows "setStart (startContainer r) (startOffset r) (setStart n k r) = r"
  using assms by (simp add: setStart_def wellOrdered_def)

definition endProbe2 ::
  "layout \<Rightarrow> bool \<Rightarrow> path \<Rightarrow> nat \<Rightarrow> cachedLineRange2 \<Rightarrow> bool \<times> cachedLineRange2 \<Rightarrow> bool" where
  "endProbe2 env g n k s r =
     ((\<exists>c. r = tryToExpandEnd2 env n (Suc k) c s)
      \<and> (g \<longrightarrow> wellOrdered (lineRange2 s)
               \<and> \<not> isBefore (n, k) (endContainer (lineRange2 s), endOffset (lineRange2 s))))"

definition startProbe2 ::
  "layout \<Rightarrow> bool \<Rightarrow> path \<Rightarrow> nat \<Rightarrow> cachedLineRange2 \<Rightarrow> bool \<times> cachedLineRange2 \<Rightarrow> bool" where
  "startProbe2 env g n k s r =
     ((\<exists>c. r = tryToExpandStart2 env n k c s)
      \<and> (g \<longrightarrow> wellOrdered (lineRange2 s)
               \<and> isBefore (n, k) (startContainer (lineRange2 s), startOffset (lineRange2 s))))"

lemma endProbe2_accept:
  assumes "g \<longrightarrow> wellOrdered (lineRange2 s)
             \<and> \<not> isBefore (n, k) (endContainer (lineRange2 s), endOffset (lineRange2 s))"
    and "fst (tryToExpandEnd2 env n (Suc k) c s)"
  shows "g \<longrightarrow> wellOrdered (lineRange2 (snd (tryToExpandEnd2 env n (Suc k) c s)))
           \<and> endContainer (lineRange2 (snd (tryToExpandEnd2 env n (Suc k) c s))) = n
           \<and> endOffset (lineRange2 (snd (tryToExpandEnd2 env n (Suc k) c s))) = Suc k"
proof
  assume g
  with assms(1) have wo: "wellOrdered (lineRange2 s)"
    and af: "\<not> isBefore (n, k) (endContainer (lineRange2 s), endOffset (lineRange2 s))" by simp_all
  from wo af have ns: "\<not> isBefore (n, Suc k) (startContainer (lineRange2 s), startOffset (lineRange2 s))"
    by (auto simp: wellOrdered_def isBefore_less less_prod_def)
  from tryToExpandEnd2_outcome[of env n "Suc k" c s] assms(2)
  have "lineRange2 (snd (tryToExpandEnd2 env n (Suc k) c s)) = setEnd n (Suc k) (lineRange2 s)"
    by auto
  with setEnd_later[OF ns] ns
  show "wellOrdered (lineRange2 (snd (tryToExpandEnd2 env n (Suc k) c s)))
           \<and> endContainer (lineRange2 (snd (tryToExpandEnd2 env n (Suc k) c s))) = n
           \<and> endOffset (lineRange2 (snd (tryToExpandEnd2 env n (Suc k) c s))) = Suc k"
    by (simp add: wellOrdered_def)
qed

lemma startProbe2_accept:
  assumes "g \<longrightarrow> wellOrdered (lineRange2 s)
             \<and> isBefore (n, k) (startContainer (lineRange2 s), startOffset (lineRange2 s))"
    and "fst (tryToExpandStart2 env n k c s)"
  shows "g \<longrightarrow> wellOrdered (lineRange2 (snd (tryToExpandStart2 env n k c s)))
           \<and> startContainer (lineRange2 (snd (tryToExpandStart2 env n k c s))) = n
           \<and> startOffset (lineRange2 (snd (tryToExpandStart2 env n k c s))) = k"
proof
  assume g
  with assms(1) have wo: "wellOrdered (lineRange2 s)"
    and af: "isBefore (n, k) (startContainer (lineRange2 s), startOffset (lineRange2 s))"
    by simp_all
  from wo af have ns: "\<not> isBefore (endContainer (lineRange2 s), endOffset (lineRange2 s)) (n, k)"
    by (auto simp: wellOrdered_def isBefore_less)
  from tryToExpandStart2_outcome[of env n k c s] assms(2)
  have "lineRange2 (snd (tryToExpandStart2 env n k c s)) = setStart n k (lineRange2 s)"
    by auto
  with setStart_earlier[OF ns] ns
  show "wellOrdered (lineRange2 (snd (tryToExpandStart2 env n k c s)))
           \<and> startContainer (lineRange2 (snd (tryToExpandStart2 env n k c s))) = n
           \<and> startOffset (lineRange2 (snd (tryToExpandStart2 env n k c s))) = k"
    by (simp add: wellOrdered_def)
qed

lemma endScan2_skip:
  "currentOffset < length (nodeText body currentNode) \<Longrightarrow>
   isWhitespaceOrZeroWidth (nodeText body currentNode ! currentOffset) \<Longrightarrow>
   updateHighlightLineRangeEndScan2 env body oneChar s currentNode currentOffset c
     = updateHighlightLineRangeEndScan2 env body oneChar s currentNode (Suc currentOffset) c"
  by (subst updateHighlightLineRangeEndScan2.simps) simp

lemma endScan2_reject:
  "probedChar body currentNode currentOffset \<Longrightarrow>
   \<not> fst (tryToExpandEnd2 env currentNode (Suc currentOffset) c s) \<Longrightarrow>
   updateHighlightLineRangeEndScan2 env body oneChar s currentNode currentOffset c
     = (False, snd (tryToExpandEnd2 env currentNode (Suc currentOffset) c s))"
  by (subst updateHighlightLineRangeEndScan2.simps) (simp add: probedChar_def)

lemma endScan2_accept_one:
  "probedChar body currentNode currentOffset \<Longrightarrow>
   fst (tryToExpandEnd2 env currentNode (Suc currentOffset) c s) \<Longrightarrow>
   updateHighlightLineRangeEndScan2 env body True s currentNode currentOffset c
     = (True, snd (tryToExpandEnd2 env currentNode (Suc currentOffset) c s))"
  by (subst updateHighlightLineRangeEndScan2.simps) (simp add: probedChar_def)

lemma endScan2_accept_more:
  "probedChar body currentNode currentOffset \<Longrightarrow>
   fst (tryToExpandEnd2 env currentNode (Suc currentOffset) c s) \<Longrightarrow>
   updateHighlightLineRangeEndScan2 env body False s currentNode currentOffset c
     = updateHighlightLineRangeEndScan2 env body False
         (snd (tryToExpandEnd2 env currentNode (Suc currentOffset) c s))
         currentNode (Suc currentOffset) False"
  by (subst updateHighlightLineRangeEndScan2.simps) (simp add: probedChar_def)

lemma endScan2_done:
  "\<not> currentOffset < length (nodeText body currentNode) \<Longrightarrow>
   updateHighlightLineRangeEndScan2 env body oneChar s currentNode currentOffset c
     = updateHighlightLineRangeEndWalk2 env body oneChar s currentNode"
  by (subst updateHighlightLineRangeEndScan2.simps) simp

lemma startScan2_skip:
  "0 < currentOffset \<Longrightarrow>
   isWhitespaceOrZeroWidth (nodeText body currentNode ! (currentOffset - 1)) \<Longrightarrow>
   updateHighlightLineRangeStartScan2 env body oneChar s currentNode currentOffset
     = updateHighlightLineRangeStartScan2 env body oneChar s currentNode (currentOffset - 1)"
  by (subst updateHighlightLineRangeStartScan2.simps) simp

lemma startScan2_reject:
  "0 < currentOffset \<Longrightarrow>
   \<not> isWhitespaceOrZeroWidth (nodeText body currentNode ! (currentOffset - 1)) \<Longrightarrow>
   \<not> fst (tryToExpandStart2 env currentNode (currentOffset - 1) False s) \<Longrightarrow>
   updateHighlightLineRangeStartScan2 env body oneChar s currentNode currentOffset
     = (False, snd (tryToExpandStart2 env currentNode (currentOffset - 1) False s))"
  by (subst updateHighlightLineRangeStartScan2.simps) simp

lemma startScan2_accept_one:
  "0 < currentOffset \<Longrightarrow>
   \<not> isWhitespaceOrZeroWidth (nodeText body currentNode ! (currentOffset - 1)) \<Longrightarrow>
   fst (tryToExpandStart2 env currentNode (currentOffset - 1) False s) \<Longrightarrow>
   updateHighlightLineRangeStartScan2 env body True s currentNode currentOffset
     = (True, snd (tryToExpandStart2 env currentNode (currentOffset - 1) False s))"
  by (subst updateHighlightLineRangeStartScan2.simps) simp

lemma startScan2_accept_more:
  "0 < currentOffset \<Longrightarrow>
   \<not> isWhitespaceOrZeroWidth (nodeText body currentNode ! (currentOffset - 1)) \<Longrightarrow>
   fst (tryToExpandStart2 env currentNode (currentOffset - 1) False s) \<Longrightarrow>
   updateHighlightLineRangeStartScan2 env body False s currentNode currentOffset
     = updateHighlightLineRangeStartScan2 env body False
         (snd (tryToExpandStart2 env currentNode (currentOffset - 1) False s))
         currentNode (currentOffset - 1)"
  by (subst updateHighlightLineRangeStartScan2.simps) simp

lemma startScan2_done:
  "\<not> 0 < currentOffset \<Longrightarrow>
   updateHighlightLineRangeStartScan2 env body oneChar s currentNode currentOffset
     = updateHighlightLineRangeStartWalk2 env body oneChar s currentNode"
  by (subst updateHighlightLineRangeStartScan2.simps) simp

lemma endScan2_probes_guarded:
  "(g \<longrightarrow> wellOrdered (lineRange2 s)
        \<and> \<not> isBefore (currentNode, currentOffset)
               (endContainer (lineRange2 s), endOffset (lineRange2 s))) \<longrightarrow>
   probeRun (probedChar body) (endProbe2 env g)
     s (updateHighlightLineRangeEndScan2 env body oneChar s currentNode currentOffset c)"
  "(g \<longrightarrow> wellOrdered (lineRange2 s) \<and> \<not> currentNode < endContainer (lineRange2 s)) \<longrightarrow>
   probeRun (probedChar body) (endProbe2 env g)
     s (updateHighlightLineRangeEndWalk2 env body oneChar s currentNode)"
proof (induction env body oneChar s currentNode currentOffset c
         and env body oneChar s currentNode
       rule: updateHighlightLineRangeEndScan2_updateHighlightLineRangeEndWalk2.induct)
  case (1 env body oneChar s currentNode currentOffset c)
  let ?t = "tryToExpandEnd2 env currentNode (Suc currentOffset) c s"
  let ?e = "(endContainer (lineRange2 s), endOffset (lineRange2 s))"
  show ?case
  proof
    assume G: "g \<longrightarrow> wellOrdered (lineRange2 s) \<and> \<not> isBefore (currentNode, currentOffset) ?e"
    show "probeRun (probedChar body) (endProbe2 env g) s
            (updateHighlightLineRangeEndScan2 env body oneChar s currentNode currentOffset c)"
    proof (cases "currentOffset < length (nodeText body currentNode)")
      case False
      from G have "g \<longrightarrow> wellOrdered (lineRange2 s) \<and> \<not> currentNode < endContainer (lineRange2 s)"
        by (auto simp: isBefore_def)
      with "1.IH"(3)[OF False] show ?thesis by (simp only: endScan2_done[OF False])
    next
      case lt: True
      show ?thesis
      proof (cases "isWhitespaceOrZeroWidth (nodeText body currentNode ! currentOffset)")
        case True
        from G have "g \<longrightarrow> wellOrdered (lineRange2 s)
                       \<and> \<not> isBefore (currentNode, Suc currentOffset) ?e"
          by (auto simp: isBefore_def)
        with "1.IH"(1)[OF lt True] show ?thesis by (simp only: endScan2_skip[OF lt True])
      next
        case nws: False
        with lt have pc: "probedChar body currentNode currentOffset" by (simp add: probedChar_def)
        have at: "endProbe2 env g currentNode currentOffset s ?t"
          using G by (auto simp: endProbe2_def)
        show ?thesis
        proof (cases "fst ?t")
          case False
          with at have "endProbe2 env g currentNode currentOffset s (False, snd ?t)"
            by (metis prod.collapse)
          from probeRun.rejected[where attempt = "endProbe2 env g" and probed = "probedChar body",
              OF pc this]
          show ?thesis by (simp only: endScan2_reject[OF pc False])
        next
          case acc: True
          with at have at': "endProbe2 env g currentNode currentOffset s (True, snd ?t)"
            by (metis prod.collapse)
          show ?thesis
          proof (cases oneChar)
            case True
            then have oc: "oneChar = True" by simp
            from probeRun.accepted[where attempt = "endProbe2 env g"
                and probed = "probedChar body", OF pc at']
            show ?thesis unfolding oc by (simp only: endScan2_accept_one[OF pc acc])
          next
            case False
            then have oc: "oneChar = False" by simp
            from endProbe2_accept[OF G acc]
            have G': "g \<longrightarrow> wellOrdered (lineRange2 (snd ?t))
                        \<and> \<not> isBefore (currentNode, Suc currentOffset)
                               (endContainer (lineRange2 (snd ?t)), endOffset (lineRange2 (snd ?t)))"
              by (auto simp: isBefore_def)
            from "1.IH"(2)[OF lt nws _ False] acc G'
            have "probeRun (probedChar body) (endProbe2 env g) (snd ?t)
                    (updateHighlightLineRangeEndScan2 env body oneChar (snd ?t) currentNode
                       (Suc currentOffset) False)"
              by simp
            from probeRun.continued[where attempt = "endProbe2 env g"
                and probed = "probedChar body", OF pc at' this]
            show ?thesis unfolding oc by (simp only: endScan2_accept_more[OF pc acc])
          qed
        qed
      qed
    qed
  qed
next
  case (2 env body oneChar s currentNode)
  show ?case
  proof
    assume G: "g \<longrightarrow> wellOrdered (lineRange2 s) \<and> \<not> currentNode < endContainer (lineRange2 s)"
    show "probeRun (probedChar body) (endProbe2 env g) s
            (updateHighlightLineRangeEndWalk2 env body oneChar s currentNode)"
    proof (cases "nextNodeOf2 body currentNode")
      case None
      then show ?thesis
        by (simp add: updateHighlightLineRangeEndWalk2.simps[of env body _ s currentNode]
            probeRun.exhausted)
    next
      case (Some nextNode)
      from nextNodeOf2_after[OF Some] have later: "\<And>r. currentNode < nextNode @ r" by blast
      show ?thesis
      proof (cases "getNextTextNode body nextNode")
        case None
        from later[of "[]"] G
        have "g \<longrightarrow> wellOrdered (lineRange2 s) \<and> \<not> nextNode < endContainer (lineRange2 s)"
          by auto
        with Some None "2.IH"(1) show ?thesis
          by (simp add: updateHighlightLineRangeEndWalk2.simps[of env body _ s currentNode])
      next
        case tn: (Some nextTextNode)
        from getNextTextNode_Some[OF tn] later have "currentNode < nextTextNode" by blast
        with G have "g \<longrightarrow> wellOrdered (lineRange2 s)
                     \<and> \<not> isBefore (nextTextNode, 0)
                            (endContainer (lineRange2 s), endOffset (lineRange2 s))"
          by (auto simp: isBefore_def)
        with Some tn "2.IH"(2) show ?thesis
          by (simp add: updateHighlightLineRangeEndWalk2.simps[of env body _ s currentNode])
      qed
    qed
  qed
qed

lemma startScan2_probes_guarded:
  "(g \<longrightarrow> currentOffset \<le> length (nodeText body currentNode)
        \<and> wellOrdered (lineRange2 s)
        \<and> \<not> isBefore (startContainer (lineRange2 s), startOffset (lineRange2 s))
               (currentNode, currentOffset)) \<longrightarrow>
   probeRun (\<lambda>n k. \<not> isWhitespaceOrZeroWidth (nodeText body n ! k)
                    \<and> (g \<longrightarrow> k < length (nodeText body n)))
     (startProbe2 env g)
     s (updateHighlightLineRangeStartScan2 env body oneChar s currentNode currentOffset)"
  "(g \<longrightarrow> wellOrdered (lineRange2 s) \<and> \<not> startContainer (lineRange2 s) < currentNode) \<longrightarrow>
   probeRun (\<lambda>n k. \<not> isWhitespaceOrZeroWidth (nodeText body n ! k)
                    \<and> (g \<longrightarrow> k < length (nodeText body n)))
     (startProbe2 env g)
     s (updateHighlightLineRangeStartWalk2 env body oneChar s currentNode)"
proof (induction env body oneChar s currentNode currentOffset
         and env body oneChar s currentNode
       rule: updateHighlightLineRangeStartScan2_updateHighlightLineRangeStartWalk2.induct)
  case (1 env body oneChar s currentNode currentOffset)
  let ?t = "tryToExpandStart2 env currentNode (currentOffset - 1) False s"
  let ?b = "(startContainer (lineRange2 s), startOffset (lineRange2 s))"
  let ?P = "\<lambda>n k. \<not> isWhitespaceOrZeroWidth (nodeText body n ! k)
                    \<and> (g \<longrightarrow> k < length (nodeText body n))"
  show ?case
  proof
    assume G: "g \<longrightarrow> currentOffset \<le> length (nodeText body currentNode)
                 \<and> wellOrdered (lineRange2 s) \<and> \<not> isBefore ?b (currentNode, currentOffset)"
    show "probeRun ?P (startProbe2 env g) s
            (updateHighlightLineRangeStartScan2 env body oneChar s currentNode currentOffset)"
    proof (cases "0 < currentOffset")
      case False
      from G have "g \<longrightarrow> wellOrdered (lineRange2 s) \<and> \<not> startContainer (lineRange2 s) < currentNode"
        by (auto simp: isBefore_def)
      with "1.IH"(3)[OF False] show ?thesis by (simp only: startScan2_done[OF False])
    next
      case lt: True
      from G lt have G1: "g \<longrightarrow> currentOffset - 1 \<le> length (nodeText body currentNode)
                 \<and> wellOrdered (lineRange2 s)
                 \<and> \<not> isBefore ?b (currentNode, currentOffset - 1)"
        by (auto simp: isBefore_def)
      from G lt have before: "g \<longrightarrow> wellOrdered (lineRange2 s)
                 \<and> isBefore (currentNode, currentOffset - 1) ?b"
        by (auto simp: isBefore_def)
      show ?thesis
      proof (cases "isWhitespaceOrZeroWidth (nodeText body currentNode ! (currentOffset - 1))")
        case True
        from "1.IH"(1)[OF lt True] G1 show ?thesis by (simp only: startScan2_skip[OF lt True])
      next
        case nws: False
        from lt G nws have pc: "?P currentNode (currentOffset - 1)" by auto
        have at: "startProbe2 env g currentNode (currentOffset - 1) s ?t"
          using before by (auto simp: startProbe2_def)
        show ?thesis
        proof (cases "fst ?t")
          case False
          with at have "startProbe2 env g currentNode (currentOffset - 1) s (False, snd ?t)"
            by (metis prod.collapse)
          from probeRun.rejected[where attempt = "startProbe2 env g" and probed = ?P, OF pc this]
          show ?thesis by (simp only: startScan2_reject[OF lt nws False])
        next
          case acc: True
          with at have at': "startProbe2 env g currentNode (currentOffset - 1) s (True, snd ?t)"
            by (metis prod.collapse)
          show ?thesis
          proof (cases oneChar)
            case True
            then have oc: "oneChar = True" by simp
            from probeRun.accepted[where attempt = "startProbe2 env g" and probed = ?P, OF pc at']
            show ?thesis unfolding oc by (simp only: startScan2_accept_one[OF lt nws acc])
          next
            case False
            then have oc: "oneChar = False" by simp
            from startProbe2_accept[OF before acc] G1
            have G': "g \<longrightarrow> currentOffset - 1 \<le> length (nodeText body currentNode)
                        \<and> wellOrdered (lineRange2 (snd ?t))
                        \<and> \<not> isBefore (startContainer (lineRange2 (snd ?t)),
                                       startOffset (lineRange2 (snd ?t)))
                               (currentNode, currentOffset - 1)"
              by (auto simp: isBefore_def)
            from "1.IH"(2)[OF lt nws _ False] acc G'
            have "probeRun ?P (startProbe2 env g) (snd ?t)
                    (updateHighlightLineRangeStartScan2 env body oneChar (snd ?t) currentNode
                       (currentOffset - 1))"
              by simp
            from probeRun.continued[where attempt = "startProbe2 env g" and probed = ?P,
                OF pc at' this]
            show ?thesis unfolding oc by (simp only: startScan2_accept_more[OF lt nws acc])
          qed
        qed
      qed
    qed
  qed
next
  case (2 env body oneChar s currentNode)
  let ?P = "\<lambda>n k. \<not> isWhitespaceOrZeroWidth (nodeText body n ! k)
                    \<and> (g \<longrightarrow> k < length (nodeText body n))"
  show ?case
  proof
    assume G: "g \<longrightarrow> wellOrdered (lineRange2 s) \<and> \<not> startContainer (lineRange2 s) < currentNode"
    show "probeRun ?P (startProbe2 env g) s
            (updateHighlightLineRangeStartWalk2 env body oneChar s currentNode)"
    proof (cases "previousNodeOf2 body currentNode")
      case None
      then show ?thesis
        by (simp add: updateHighlightLineRangeStartWalk2.simps[of env body _ s currentNode]
            probeRun.exhausted)
    next
      case (Some previousNode)
      note pn = Some
      from previousNodeOf2_before[OF Some] have earlier: "\<And>r. previousNode @ r < currentNode"
        by blast
      show ?thesis
      proof (cases "getLastNonEmptyTextNode body previousNode")
        case None
        from earlier[of "[]"] G
        have "g \<longrightarrow> wellOrdered (lineRange2 s) \<and> \<not> startContainer (lineRange2 s) < previousNode"
          by auto
        with pn None "2.IH"(1) show ?thesis
          by (simp add: updateHighlightLineRangeStartWalk2.simps[of env body _ s currentNode])
      next
        case lt: (Some lastTextNode)
        let ?k = "length (nodeText body lastTextNode) - 1"
        let ?t = "tryToExpandStart2 env lastTextNode ?k True s"
        from getLastNonEmptyTextNode_Some[OF lt] earlier
        have ne: "nodeText body lastTextNode \<noteq> []" and lc: "lastTextNode < currentNode"
          by blast+
        then have kl: "?k < length (nodeText body lastTextNode)" by simp
        from G lc have before: "g \<longrightarrow> wellOrdered (lineRange2 s)
             \<and> isBefore (lastTextNode, ?k) (startContainer (lineRange2 s), startOffset (lineRange2 s))"
          by (auto simp: isBefore_def)
        then have G1: "g \<longrightarrow> ?k \<le> length (nodeText body lastTextNode)
             \<and> wellOrdered (lineRange2 s)
             \<and> \<not> isBefore (startContainer (lineRange2 s), startOffset (lineRange2 s))
                    (lastTextNode, ?k)"
          by (auto simp: isBefore_less)
        show ?thesis
        proof (cases "isWhitespaceOrZeroWidth (nodeText body lastTextNode ! ?k)")
          case True
          from "2.IH"(2)[OF pn lt True] G1
          have "probeRun ?P (startProbe2 env g) s
                  (updateHighlightLineRangeStartScan2 env body oneChar s lastTextNode ?k)"
            by simp
          with pn lt True show ?thesis
            by (simp add: updateHighlightLineRangeStartWalk2.simps[of env body _ s currentNode])
        next
          case nws: False
          with kl have pc: "?P lastTextNode ?k" by simp
          have at: "startProbe2 env g lastTextNode ?k s ?t"
            using before by (auto simp: startProbe2_def)
          show ?thesis
          proof (cases "fst ?t")
            case False
            with at have "startProbe2 env g lastTextNode ?k s (False, snd ?t)"
              by (metis prod.collapse)
            from probeRun.rejected[where attempt = "startProbe2 env g" and probed = ?P,
                OF pc this] pn lt nws False
            show ?thesis
              by (simp add: updateHighlightLineRangeStartWalk2.simps[of env body _ s currentNode])
          next
            case acc: True
            with at have at': "startProbe2 env g lastTextNode ?k s (True, snd ?t)"
              by (metis prod.collapse)
            show ?thesis
            proof (cases oneChar)
              case True
              from probeRun.accepted[where attempt = "startProbe2 env g" and probed = ?P,
                  OF pc at'] pn lt nws acc True
              show ?thesis
                by (simp add: updateHighlightLineRangeStartWalk2.simps[of env body _ s currentNode])
            next
              case False
              from startProbe2_accept[OF before acc] kl
              have G': "g \<longrightarrow> ?k \<le> length (nodeText body lastTextNode)
                          \<and> wellOrdered (lineRange2 (snd ?t))
                          \<and> \<not> isBefore (startContainer (lineRange2 (snd ?t)),
                                         startOffset (lineRange2 (snd ?t)))
                                 (lastTextNode, ?k)"
                by (auto simp: isBefore_def)
              from "2.IH"(3)[OF pn lt nws acc False] G'
              have "probeRun ?P (startProbe2 env g) (snd ?t)
                      (updateHighlightLineRangeStartScan2 env body oneChar (snd ?t) lastTextNode ?k)"
                by simp
              from probeRun.continued[where attempt = "startProbe2 env g" and probed = ?P,
                  OF pc at' this] pn lt nws acc False
              show ?thesis
                by (simp add: updateHighlightLineRangeStartWalk2.simps[of env body _ s currentNode])
            qed
          qed
        qed
      qed
    qed
  qed
qed

lemma endRun2_probes_any:
  "probeRun (probedChar body) (endProbe2 env False)
     s (updateHighlightLineRangeEnd2 env body oneChar s)"
  unfolding updateHighlightLineRangeEnd2_def
  using endScan2_probes_guarded(1)[where g = False] by blast

lemma endRun2_probes:
  assumes "wellOrdered (lineRange2 s)"
  shows "probeRun (probedChar body) (endProbe2 env True)
           s (updateHighlightLineRangeEnd2 env body oneChar s)"
  unfolding updateHighlightLineRangeEnd2_def
  using endScan2_probes_guarded(1)[where g = True] assms by (simp add: isBefore_def)

lemma startRun2_probes_any:
  "probeRun (\<lambda>n k. True) (startProbe2 env False)
     s (updateHighlightLineRangeStart2 env body oneChar s)"
proof -
  have "probeRun (\<lambda>n k. \<not> isWhitespaceOrZeroWidth (nodeText body n ! k)
                       \<and> (False \<longrightarrow> k < length (nodeText body n)))
          (startProbe2 env False) s
          (updateHighlightLineRangeStartScan2 env body oneChar s
             (startContainer (lineRange2 s)) (startOffset (lineRange2 s)))"
    using startScan2_probes_guarded(1)[where g = False] by blast
  then show ?thesis
    unfolding updateHighlightLineRangeStart2_def by (rule probeRun_mono) simp
qed

lemma startRun2_probes:
  assumes "startOffset (lineRange2 s) \<le> length (nodeText body (startContainer (lineRange2 s)))"
    and "wellOrdered (lineRange2 s)"
  shows "probeRun (probedChar body) (startProbe2 env True) s
           (updateHighlightLineRangeStart2 env body oneChar s)"
proof -
  have "probeRun (\<lambda>n k. \<not> isWhitespaceOrZeroWidth (nodeText body n ! k)
                       \<and> (True \<longrightarrow> k < length (nodeText body n)))
          (startProbe2 env True) s
          (updateHighlightLineRangeStartScan2 env body oneChar s
             (startContainer (lineRange2 s)) (startOffset (lineRange2 s)))"
    using startScan2_probes_guarded(1)[where g = True] assms by (simp add: isBefore_def)
  then show ?thesis
    unfolding updateHighlightLineRangeStart2_def
    by (rule probeRun_mono) (simp add: probedChar_def)
qed

lemma probeRun_counter_le:
  assumes step': "\<forall>n k s r. attempt n k s r \<longrightarrow>
                   c s \<le> c (snd r) \<and> (fst r \<longrightarrow> c s < c (snd r) \<and> c (snd r) \<le> M)"
  shows "probeRun P attempt s r \<Longrightarrow>
         (c s :: nat) \<le> c (snd r) \<and> (fst r \<longrightarrow> c s < c (snd r) \<and> c (snd r) \<le> M)"
proof (induction rule: probeRun.induct)
  case (exhausted s)
  show ?case by simp
next
  note step = step'[rule_format]
  case (rejected n k s s')
  from step[OF rejected.hyps(2)] show ?case by simp
next
  note step = step'[rule_format]
  case (accepted n k s s')
  from step[OF accepted.hyps(2)] show ?case by simp
next
  note step = step'[rule_format]
  case (continued n k s s' r)
  from step[OF continued.hyps(2)] have "c s < c s'" by simp
  with continued.IH show ?case by auto
qed

lemma endProbe2_counter:
  "\<forall>n k s r. endProbe2 env g n k s r \<longrightarrow>
     linesSpannedChecks2 s \<le> linesSpannedChecks2 (snd r)
     \<and> (fst r \<longrightarrow> linesSpannedChecks2 s < linesSpannedChecks2 (snd r)
                 \<and> linesSpannedChecks2 (snd r) \<le> MAX_LINES_SPANNED_CHECKS2)"
proof (intro allI impI)
  fix n k s r
  assume "endProbe2 env g n k s r"
  then obtain c where r: "r = tryToExpandEnd2 env n (Suc k) c s" by (auto simp: endProbe2_def)
  from tryToExpandEnd2_outcome[of env n "Suc k" c s]
  show "linesSpannedChecks2 s \<le> linesSpannedChecks2 (snd r)
     \<and> (fst r \<longrightarrow> linesSpannedChecks2 s < linesSpannedChecks2 (snd r)
                 \<and> linesSpannedChecks2 (snd r) \<le> MAX_LINES_SPANNED_CHECKS2)"
    unfolding r by auto
qed

lemma startProbe2_counter:
  "\<forall>n k s r. startProbe2 env g n k s r \<longrightarrow>
     linesSpannedChecks2 s \<le> linesSpannedChecks2 (snd r)
     \<and> (fst r \<longrightarrow> linesSpannedChecks2 s < linesSpannedChecks2 (snd r)
                 \<and> linesSpannedChecks2 (snd r) \<le> MAX_LINES_SPANNED_CHECKS2)"
proof (intro allI impI)
  fix n k s r
  assume "startProbe2 env g n k s r"
  then obtain c where r: "r = tryToExpandStart2 env n k c s" by (auto simp: startProbe2_def)
  from tryToExpandStart2_outcome[of env n k c s]
  show "linesSpannedChecks2 s \<le> linesSpannedChecks2 (snd r)
     \<and> (fst r \<longrightarrow> linesSpannedChecks2 s < linesSpannedChecks2 (snd r)
                 \<and> linesSpannedChecks2 (snd r) \<le> MAX_LINES_SPANNED_CHECKS2)"
    unfolding r by auto
qed

lemma updateEnd2_counter:
  "linesSpannedChecks2 s
     \<le> linesSpannedChecks2 (snd (updateHighlightLineRangeEnd2 env body oneChar s))"
  using probeRun_counter_le[where attempt = "endProbe2 env False" and c = linesSpannedChecks2
      and M = MAX_LINES_SPANNED_CHECKS2, OF endProbe2_counter endRun2_probes_any]
  by blast

lemma updateStart2_counter:
  "fst (updateHighlightLineRangeStart2 env body oneChar s) \<Longrightarrow>
   linesSpannedChecks2 s
     < linesSpannedChecks2 (snd (updateHighlightLineRangeStart2 env body oneChar s))
   \<and> linesSpannedChecks2 (snd (updateHighlightLineRangeStart2 env body oneChar s))
       \<le> MAX_LINES_SPANNED_CHECKS2"
  using probeRun_counter_le[where attempt = "startProbe2 env False" and c = linesSpannedChecks2
      and M = MAX_LINES_SPANNED_CHECKS2, OF startProbe2_counter startRun2_probes_any]
  by blast

function alternateExpansion2 ::
  "layout \<Rightarrow> node \<Rightarrow> cachedLineRange2 \<Rightarrow> bool \<times> bool \<times> cachedLineRange2" where
  "alternateExpansion2 env body highlightLineRange =
     (if fst (updateHighlightLineRangeStart2 env body True
                (snd (updateHighlightLineRangeEnd2 env body True highlightLineRange)))
         \<and> fst (updateHighlightLineRangeEnd2 env body True highlightLineRange)
      then alternateExpansion2 env body
             (snd (updateHighlightLineRangeStart2 env body True
                     (snd (updateHighlightLineRangeEnd2 env body True highlightLineRange))))
      else (fst (updateHighlightLineRangeStart2 env body True
                   (snd (updateHighlightLineRangeEnd2 env body True highlightLineRange))),
            fst (updateHighlightLineRangeEnd2 env body True highlightLineRange),
            snd (updateHighlightLineRangeStart2 env body True
                   (snd (updateHighlightLineRangeEnd2 env body True highlightLineRange)))))"
  by pat_completeness auto
termination
proof (relation "measure (\<lambda>(env, body, highlightLineRange).
                   Suc MAX_LINES_SPANNED_CHECKS2 - linesSpannedChecks2 highlightLineRange)",
       goal_cases)
  case 1
  show ?case by simp
next
  case (2 env body highlightLineRange)
  let ?e = "snd (updateHighlightLineRangeEnd2 env body True highlightLineRange)"
  from 2 have "fst (updateHighlightLineRangeStart2 env body True ?e)" by simp
  from updateStart2_counter[OF this] updateEnd2_counter[of highlightLineRange env body True]
  have "linesSpannedChecks2 highlightLineRange
          < linesSpannedChecks2 (snd (updateHighlightLineRangeStart2 env body True ?e))"
    and "linesSpannedChecks2 (snd (updateHighlightLineRangeStart2 env body True ?e))
          \<le> MAX_LINES_SPANNED_CHECKS2"
    by simp_all
  then show ?case by simp
qed

declare alternateExpansion2.simps [simp del]

definition expandLineRange2 :: "layout \<Rightarrow> node \<Rightarrow> cachedLineRange2 \<Rightarrow> cachedLineRange2" where
  "expandLineRange2 env body highlightLineRange =
     (case alternateExpansion2 env body highlightLineRange of
        (keepGoingStart, keepGoingEnd, alternated) \<Rightarrow>
          let startDone =
                (if keepGoingStart
                 then snd (updateHighlightLineRangeStart2 env body False alternated)
                 else alternated)
          in if keepGoingEnd
             then snd (updateHighlightLineRangeEnd2 env body False startDone)
             else startDone)"

text \<open>
  \<^verbatim>\<open>setHighlightLineRange(caretPosition, mouseY)\<close> of part_002: the seed collapses when it
  reports more than one client rectangle of any size, and the counter is reset after
  that check.
\<close>

definition seedLineRange2 :: "path \<Rightarrow> nat \<Rightarrow> cachedLineRange2 \<Rightarrow> cachedLineRange2" where
  "seedLineRange2 offsetNode seedOffset highlightLineRange =
     setEnd2 offsetNode (seedOffset + 1) (setStart2 offsetNode seedOffset highlightLineRange)"

definition resolveLineFrom2 ::
  "layout \<Rightarrow> node \<Rightarrow> path \<Rightarrow> nat \<Rightarrow> real \<Rightarrow> cachedLineRange2 \<Rightarrow> cachedLineRange2" where
  "resolveLineFrom2 env body offsetNode seedOffset mouseY seeded =
     (if outsideVertically (fst (getBoundingClientRect2 env seeded)) mouseY
      then collapse2 (snd (getBoundingClientRect2 env seeded))
      else if length (getClientRects env (lineRange2 (snd (getBoundingClientRect2 env seeded)))) > 1
      then collapse2 (snd (getBoundingClientRect2 env seeded))
      else if pointsAtEdgeWhitespace body offsetNode seedOffset
                (lineRange2 (expandLineRange2 env body
                   (resetLinesSpannedChecksCount (snd (getBoundingClientRect2 env seeded)))))
      then collapse2 (expandLineRange2 env body
             (resetLinesSpannedChecksCount (snd (getBoundingClientRect2 env seeded))))
      else expandLineRange2 env body
             (resetLinesSpannedChecksCount (snd (getBoundingClientRect2 env seeded))))"

definition setHighlightLineRange2 ::
  "layout \<Rightarrow> node \<Rightarrow> caretPosition \<Rightarrow> real \<Rightarrow> cachedLineRange2
     \<Rightarrow> domException + cachedLineRange2" where
  "setHighlightLineRange2 env body caretPosition mouseY highlightLineRange =
     (case caretPosition of
        None \<Rightarrow> Inr highlightLineRange
      | Some (offsetNode, offset) \<Rightarrow>
          if \<not> isTextNode body offsetNode then Inr highlightLineRange
          else if nodeText body offsetNode = [] then Inl IndexSizeError
          else Inr (resolveLineFrom2 env body offsetNode
                      (min offset (length (nodeText body offsetNode) - 1)) mouseY
                      (seedLineRange2 offsetNode
                         (min offset (length (nodeText body offsetNode) - 1))
                         highlightLineRange)))"

record highlighter2 =
  wordHighlight2 :: domRange
  lineHighlight2 :: cachedLineRange2
  hitTests2 :: nat

text \<open>
  \<^verbatim>\<open>pointerMoveHandler(event)\<close> of part_002: the word is resolved with the delimiter
  class of part_002, and the memoised rectangle of the line range is invalidated before
  the line is looked at.
\<close>

definition resolveWordAt2 ::
  "layout \<Rightarrow> node \<Rightarrow> real \<Rightarrow> real \<Rightarrow> highlighter2 \<Rightarrow> caretPosition option \<times> highlighter2" where
  "resolveWordAt2 env body x y h =
     (if isPointOutsideHighlightedWord env (wordHighlight2 h) x y
      then
        let caretPosition = caretPositionFromPoint env x y;
            resolved = setHighlightWordRange2 body caretPosition
                         (collapse False (wordHighlight2 h))
        in (Some caretPosition,
            h\<lparr>wordHighlight2 :=
                 (if isPointOutsideHighlightedWord env resolved x y
                  then collapse False resolved else resolved),
               hitTests2 := Suc (hitTests2 h)\<rparr>)
      else (None, h))"

definition resolveLineAt2 ::
  "layout \<Rightarrow> node \<Rightarrow> real \<Rightarrow> real \<Rightarrow> caretPosition option \<Rightarrow> highlighter2
     \<Rightarrow> domException option \<times> highlighter2" where
  "resolveLineAt2 env body x y caret h =
     (case isPointOutsideHighlightedLine2 env
             (invalidateBoundingClientRectangle (lineHighlight2 h)) x y of
        (outside, looked) \<Rightarrow>
          if outside
          then
            let caretPosition =
                  (case caret of Some c \<Rightarrow> c | None \<Rightarrow> caretPositionFromPoint env x y);
                tested = (case caret of Some c \<Rightarrow> hitTests2 h | None \<Rightarrow> Suc (hitTests2 h))
            in case setHighlightLineRange2 env body caretPosition y (collapse2 looked) of
                 Inl e \<Rightarrow> (Some e, h\<lparr>lineHighlight2 := collapse2 looked, hitTests2 := tested\<rparr>)
               | Inr resolved \<Rightarrow>
                   (case isPointOutsideHighlightedLine2 env resolved x y of
                      (stillOutside, looked') \<Rightarrow>
                        (None, h\<lparr>lineHighlight2 :=
                                    (if stillOutside then collapse2 looked' else looked'),
                                  hitTests2 := tested\<rparr>))
          else (None, h\<lparr>lineHighlight2 := looked\<rparr>))"

definition pointerMoveHandler2 ::
  "layout \<Rightarrow> node \<Rightarrow> real \<Rightarrow> real \<Rightarrow> highlighter2 \<Rightarrow> domException option \<times> highlighter2" where
  "pointerMoveHandler2 env body x y h =
     (case resolveWordAt2 env body x y h of
        (caretPosition, h') \<Rightarrow> resolveLineAt2 env body x y caretPosition h')"

definition pointerLeaveHandler2 :: "highlighter2 \<Rightarrow> highlighter2" where
  "pointerLeaveHandler2 h =
     h\<lparr>wordHighlight2 := collapse False (wordHighlight2 h),
       lineHighlight2 := collapse2 (lineHighlight2 h)\<rparr>"

definition newLineRange2 :: cachedLineRange2 where
  "newLineRange2 =
     \<lparr>lineRange2 = createRange, boundingClientRect = None, linesSpannedChecks2 = 0\<rparr>"

definition newHighlighter2 :: highlighter2 where
  "newHighlighter2 =
     \<lparr>wordHighlight2 = createRange, lineHighlight2 = newLineRange2, hitTests2 = 0\<rparr>"


section \<open>Notions used in the properties\<close>

text \<open>The boundary points of a range.\<close>

definition endPoint :: "domRange \<Rightarrow> path \<times> nat" where
  "endPoint r = (endContainer r, endOffset r)"

definition startPoint :: "domRange \<Rightarrow> path \<times> nat" where
  "startPoint r = (startContainer r, startOffset r)"

text \<open>
  A range both of whose boundaries reference non-empty text runs, with the offsets
  within the runs.
\<close>

definition rangeInText :: "node \<Rightarrow> domRange \<Rightarrow> bool" where
  "rangeInText body r =
     (nodeText body (startContainer r) \<noteq> [] \<and> nodeText body (endContainer r) \<noteq> []
      \<and> startOffset r \<le> length (nodeText body (startContainer r))
      \<and> endOffset r \<le> length (nodeText body (endContainer r)))"

text \<open>
  The same for the range object of part_002, together with the order of its boundaries.
\<close>

definition anchored2 :: "node \<Rightarrow> cachedLineRange2 \<Rightarrow> bool" where
  "anchored2 body s = (rangeInText body (lineRange2 s) \<and> wellOrdered (lineRange2 s))"


text \<open>
  The seed offset of \<^verbatim>\<open>setHighlightLineRange\<close>,
  \<^verbatim>\<open>Math.min(caretPosition.offset, caretPosition.offsetNode.textContent.length - 1)\<close>,
  and the range object as it is when the expansion of \<^verbatim>\<open>setHighlightLineRange\<close> has
  finished, for a seed that has passed the two checks before the expansion.
\<close>

definition seedOffset :: "node \<Rightarrow> path \<Rightarrow> nat \<Rightarrow> nat" where
  "seedOffset body offsetNode offset = min offset (length (nodeText body offsetNode) - 1)"

definition expandedSeed ::
  "layout \<Rightarrow> node \<Rightarrow> path \<Rightarrow> nat \<Rightarrow> cachedLineRange \<Rightarrow> cachedLineRange" where
  "expandedSeed env body offsetNode k highlightLineRange =
     expandLineRange env body
       (setInitialRect (getBoundingClientRect env (singleCharRange offsetNode k))
          (seedLineRange offsetNode k highlightLineRange))"

definition expandedSeed2 ::
  "layout \<Rightarrow> node \<Rightarrow> path \<Rightarrow> nat \<Rightarrow> cachedLineRange2 \<Rightarrow> cachedLineRange2" where
  "expandedSeed2 env body offsetNode k highlightLineRange =
     expandLineRange2 env body
       (resetLinesSpannedChecksCount
          (snd (getBoundingClientRect2 env (seedLineRange2 offsetNode k highlightLineRange))))"


section \<open>Further example documents, layouts and states\<close>

text \<open>The word \<open>ab\<close> after a leading space.\<close>

definition leadingSpace :: node where
  "leadingSpace = ElementNode 100 20 [TextNode [0x20, 0x61, 0x62]]"

text \<open>A document of two spaces.\<close>

definition twoSpaces :: node where
  "twoSpaces = ElementNode 100 20 [TextNode [0x20, 0x20]]"

text \<open>The word \<open>ab\<close> followed by an empty text run.\<close>

definition trailingEmptyRun :: node where
  "trailingEmptyRun = ElementNode 100 20 [TextNode [0x61, 0x62], TextNode []]"

text \<open>
  A state for examples on the document \<open>a b\<close> laid out by \<open>fixedPitchLine\<close>: the word
  \<open>a\<close> and the whole line are highlighted.
\<close>

definition hoveredWord :: highlighter where
  "hoveredWord =
     \<lparr>wordHighlight = \<lparr>startContainer = [0], startOffset = 0, endContainer = [0], endOffset = 1\<rparr>,
      lineHighlight = newLineRange
        \<lparr>lineRange := \<lparr>startContainer = [0], startOffset = 0, endContainer = [0], endOffset = 3\<rparr>\<rparr>,
      hitTests = 0\<rparr>"

definition hoveredWord2 :: highlighter2 where
  "hoveredWord2 =
     \<lparr>wordHighlight2 = \<lparr>startContainer = [0], startOffset = 0, endContainer = [0], endOffset = 1\<rparr>,
      lineHighlight2 = newLineRange2
        \<lparr>lineRange2 := \<lparr>startContainer = [0], startOffset = 0, endContainer = [0], endOffset = 3\<rparr>\<rparr>,
      hitTests2 = 0\<rparr>"

text \<open>
  Range objects for examples on the document \<open>a b\<close>: the character \<open>a\<close> is
  the range, and the counter has reached the maximum of the part.
\<close>

definition spentLineRange :: cachedLineRange where
  "spentLineRange =
     \<lparr>lineRange = \<lparr>startContainer = [0], startOffset = 0, endContainer = [0], endOffset = 1\<rparr>,
      manualBoundingRectTop = 0, manualBoundingRectBottom = 20, minRectHeight = 20,
      linesSpannedChecks = 105\<rparr>"

definition spentLineRange2 :: cachedLineRange2 where
  "spentLineRange2 =
     \<lparr>lineRange2 = \<lparr>startContainer = [0], startOffset = 0, endContainer = [0], endOffset = 1\<rparr>,
      boundingClientRect = None, linesSpannedChecks2 = 115\<rparr>"

text \<open>
  Range objects on the character \<open>b\<close> of the same document, measured and with a fresh
  counter.
\<close>

definition freshLineRange :: cachedLineRange where
  "freshLineRange =
     \<lparr>lineRange = \<lparr>startContainer = [0], startOffset = 2, endContainer = [0], endOffset = 3\<rparr>,
      manualBoundingRectTop = 0, manualBoundingRectBottom = 20, minRectHeight = 20,
      linesSpannedChecks = 0\<rparr>"

definition freshLineRange2 :: cachedLineRange2 where
  "freshLineRange2 =
     \<lparr>lineRange2 = \<lparr>startContainer = [0], startOffset = 2, endContainer = [0], endOffset = 3\<rparr>,
      boundingClientRect = None, linesSpannedChecks2 = 0\<rparr>"

text \<open>
  Layouts for examples that measure like \<open>fixedPitchLine\<close> but report fixed lists of
  client rectangles for every range: two rectangles that occupy space with an empty one
  between them, and two different rectangles that occupy space next to each other.
\<close>

definition leftHalf :: rect where
  "leftHalf = \<lparr>rectX = 0, rectY = 0, rectWidth = 5, rectHeight = 20\<rparr>"

definition emptyRect :: rect where
  "emptyRect = \<lparr>rectX = 5, rectY = 0, rectWidth = 0, rectHeight = 20\<rparr>"

definition rightHalf :: rect where
  "rightHalf = \<lparr>rectX = 5, rectY = 0, rectWidth = 5, rectHeight = 20\<rparr>"

definition gappedRects :: layout where
  "gappedRects =
     (fixedPitchLine None)\<lparr>getClientRects := (\<lambda>r. [leftHalf, emptyRect, rightHalf])\<rparr>"

definition adjacentRects :: layout where
  "adjacentRects =
     (fixedPitchLine None)\<lparr>getClientRects := (\<lambda>r. [leftHalf, rightHalf])\<rparr>"


text \<open>
  The quantities that \<^verbatim>\<open>tryToExpandEnd\<close> and \<^verbatim>\<open>tryToExpandStart\<close> of part_001 compute
  from the rectangle of the candidate character and the fields of the range object:
  \<^verbatim>\<open>minHeight\<close>, \<^verbatim>\<open>newBoundingRectHeight\<close> and \<^verbatim>\<open>interceptRectHeight\<close>.
\<close>

definition minHeight :: "rect \<Rightarrow> cachedLineRange \<Rightarrow> real" where
  "minHeight singleCharRect this = min (minRectHeight this) (rectHeight singleCharRect)"

definition newBoundingRectHeight :: "rect \<Rightarrow> cachedLineRange \<Rightarrow> real" where
  "newBoundingRectHeight singleCharRect this =
     doubleSub
       (if rectBottom singleCharRect > manualBoundingRectBottom this
        then rectBottom singleCharRect else manualBoundingRectBottom this)
       (if rectTop singleCharRect < manualBoundingRectTop this
        then rectTop singleCharRect else manualBoundingRectTop this)"

definition interceptRectHeight :: "rect \<Rightarrow> cachedLineRange \<Rightarrow> real" where
  "interceptRectHeight singleCharRect this =
     doubleSub
       (if rectBottom singleCharRect > manualBoundingRectBottom this
        then manualBoundingRectBottom this else rectBottom singleCharRect)
       (if rectTop singleCharRect < manualBoundingRectTop this
        then manualBoundingRectTop this else rectTop singleCharRect)"

















section \<open>Properties of the delimiter classifier\<close>

text \<open>
  C3. \<open>isDelimiter\<close> is a total predicate on code units that is true exactly on the
  fixed literal set: whitespace, underscore, the hyphen variants (hyphen-minus, en dash
  and, in part_001, em dash), slash, parentheses, curly braces, square brackets,
  comma, dot, colon, semicolon, question mark, exclamation mark and ellipsis. It depends
  on nothing but the code unit, and \<open>isWordChar\<close> is its exact complement. Both parts of
  the source are covered; they differ only in the em dash.
\<close>

theorem isDelimiter_exact:
  "(isDelimiter c \<longleftrightarrow>
      isJsWhitespace c \<or> c = 0x5F \<or> c = 0x2D \<or> c = 0x2013 \<or> c = 0x2014 \<or> c = 0x2F
      \<or> c = 0x28 \<or> c = 0x29 \<or> c = 0x7B \<or> c = 0x7D \<or> c = 0x5B \<or> c = 0x5D
      \<or> c = 0x2C \<or> c = 0x2E \<or> c = 0x3A \<or> c = 0x3B \<or> c = 0x3F \<or> c = 0x21
      \<or> c = 0x2026)
   \<and> (isDelimiter2 c \<longleftrightarrow>
      isJsWhitespace c \<or> c = 0x5F \<or> c = 0x2D \<or> c = 0x2013 \<or> c = 0x2F
      \<or> c = 0x28 \<or> c = 0x29 \<or> c = 0x7B \<or> c = 0x7D \<or> c = 0x5B \<or> c = 0x5D
      \<or> c = 0x2C \<or> c = 0x2E \<or> c = 0x3A \<or> c = 0x3B \<or> c = 0x3F \<or> c = 0x21
      \<or> c = 0x2026)
   \<and> isWordChar c = (\<not> isDelimiter c)
   \<and> isWordChar2 c = (\<not> isDelimiter2 c)"
proof -
  have d1: "isDelimiter c \<longleftrightarrow>
      isJsWhitespace c \<or> c = 0x5F \<or> c = 0x2D \<or> c = 0x2013 \<or> c = 0x2014 \<or> c = 0x2F
      \<or> c = 0x28 \<or> c = 0x29 \<or> c = 0x7B \<or> c = 0x7D \<or> c = 0x5B \<or> c = 0x5D
      \<or> c = 0x2C \<or> c = 0x2E \<or> c = 0x3A \<or> c = 0x3B \<or> c = 0x3F \<or> c = 0x21
      \<or> c = 0x2026"
    unfolding isDelimiter_def delimiterClass_def by (simp only: classTest.simps atomMatches.simps) blast
  have d2: "isDelimiter2 c \<longleftrightarrow>
      isJsWhitespace c \<or> c = 0x5F \<or> c = 0x2D \<or> c = 0x2013 \<or> c = 0x2F
      \<or> c = 0x28 \<or> c = 0x29 \<or> c = 0x7B \<or> c = 0x7D \<or> c = 0x5B \<or> c = 0x5D
      \<or> c = 0x2C \<or> c = 0x2E \<or> c = 0x3A \<or> c = 0x3B \<or> c = 0x3F \<or> c = 0x21
      \<or> c = 0x2026"
    unfolding isDelimiter2_def delimiterClass2_def by (simp only: classTest.simps atomMatches.simps) blast
  show ?thesis
    using d1 d2 by (simp only: isWordChar_def isWordChar2_def)
qed

section \<open>Properties of word resolution\<close>


declare scanWordEnd.simps [simp del] findWordEnd.simps [simp del]
  scanWordStart.simps [simp del] findWordStart.simps [simp del] skipEmptyPrevious.simps [simp del]

lemma scanWordEnd_ge: "endOff \<le> scanWordEnd delim t endOff"
proof (induction delim t endOff rule: scanWordEnd.induct)
  case (1 delim t endOff)
  show ?case
  proof (cases "endOff < length t \<and> \<not> delim (t ! endOff)")
    case True
    from "1.IH"[OF True] show ?thesis by (subst scanWordEnd.simps) (simp add: True)
  next
    case False
    then show ?thesis by (subst scanWordEnd.simps) auto
  qed
qed

lemma scanWordEnd_le: "endOff \<le> length t \<Longrightarrow> scanWordEnd delim t endOff \<le> length t"
proof (induction delim t endOff rule: scanWordEnd.induct)
  case (1 delim t endOff)
  show ?case
  proof (cases "endOff < length t \<and> \<not> delim (t ! endOff)")
    case True
    then have "Suc endOff \<le> length t" by simp
    from "1.IH"[OF True this] show ?thesis by (subst scanWordEnd.simps) (simp add: True)
  next
    case False
    with "1.prems" show ?thesis by (subst scanWordEnd.simps) auto
  qed
qed

lemma scanWordEnd_word:
  "endOff \<le> k \<Longrightarrow> k < scanWordEnd delim t endOff \<Longrightarrow> \<not> delim (t ! k)"
proof (induction delim t endOff rule: scanWordEnd.induct)
  case (1 delim t endOff)
  show ?case
  proof (cases "endOff < length t \<and> \<not> delim (t ! endOff)")
    case True
    with "1.prems"(2) have lt: "k < scanWordEnd delim t (Suc endOff)"
      by (subst (asm) scanWordEnd.simps) simp
    show ?thesis
    proof (cases "k = endOff")
      case True
      with \<open>endOff < length t \<and> \<not> delim (t ! endOff)\<close> show ?thesis by simp
    next
      case False
      with "1.prems"(1) have "Suc endOff \<le> k" by simp
      from "1.IH"[OF True this lt] show ?thesis .
    qed
  next
    case False
    with "1.prems" show ?thesis by (subst (asm) scanWordEnd.simps) auto
  qed
qed

lemma scanWordEnd_stop:
  "scanWordEnd delim t endOff < length t \<Longrightarrow> delim (t ! scanWordEnd delim t endOff)"
proof (induction delim t endOff rule: scanWordEnd.induct)
  case (1 delim t endOff)
  show ?case
  proof (cases "endOff < length t \<and> \<not> delim (t ! endOff)")
    case True
    then have eq: "scanWordEnd delim t endOff = scanWordEnd delim t (Suc endOff)"
      by (subst scanWordEnd.simps) simp
    with "1.IH"[OF True] "1.prems" show ?thesis by simp
  next
    case False
    then have eq: "scanWordEnd delim t endOff = endOff"
      by (subst scanWordEnd.simps) auto
    with False "1.prems" show ?thesis by auto
  qed
qed

lemma scanWordStart_le: "scanWordStart delim t startOff \<le> startOff"
proof (induction delim t startOff rule: scanWordStart.induct)
  case (1 delim t startOff)
  show ?case
  proof (cases "startOff > 0 \<and> \<not> delim (t ! (startOff - 1))")
    case True
    then have eq: "scanWordStart delim t startOff = scanWordStart delim t (startOff - 1)"
      by (subst scanWordStart.simps) simp
    from "1.IH"[OF True] have "scanWordStart delim t (startOff - 1) \<le> startOff" by simp
    with eq show ?thesis by simp
  next
    case False
    then show ?thesis by (subst scanWordStart.simps) auto
  qed
qed

lemma scanWordStart_word:
  "scanWordStart delim t startOff \<le> k \<Longrightarrow> k < startOff \<Longrightarrow> \<not> delim (t ! k)"
proof (induction delim t startOff rule: scanWordStart.induct)
  case (1 delim t startOff)
  show ?case
  proof (cases "startOff > 0 \<and> \<not> delim (t ! (startOff - 1))")
    case True
    with "1.prems"(1) have le: "scanWordStart delim t (startOff - 1) \<le> k"
      by (subst (asm) scanWordStart.simps) simp
    show ?thesis
    proof (cases "k = startOff - 1")
      case True
      with \<open>startOff > 0 \<and> \<not> delim (t ! (startOff - 1))\<close> show ?thesis by simp
    next
      case False
      with "1.prems"(2) have "k < startOff - 1" by simp
      from "1.IH"[OF True le this] show ?thesis .
    qed
  next
    case False
    then have "scanWordStart delim t startOff = startOff"
      by (subst scanWordStart.simps) auto
    with "1.prems" show ?thesis by simp
  qed
qed

lemma scanWordStart_stop:
  "0 < scanWordStart delim t startOff \<Longrightarrow>
     delim (t ! (scanWordStart delim t startOff - 1))"
proof (induction delim t startOff rule: scanWordStart.induct)
  case (1 delim t startOff)
  show ?case
  proof (cases "startOff > 0 \<and> \<not> delim (t ! (startOff - 1))")
    case True
    then have eq: "scanWordStart delim t startOff = scanWordStart delim t (startOff - 1)"
      by (subst scanWordStart.simps) simp
    with "1.IH"[OF True] "1.prems" show ?thesis by simp
  next
    case False
    then have eq: "scanWordStart delim t startOff = startOff"
      by (subst scanWordStart.simps) auto
    with False "1.prems" show ?thesis by auto
  qed
qed

lemma findWordEnd_run:
  assumes "findWordEnd delim body m ofs = (e, eo)" "m \<noteq> []" "isTextNode body m"
    "ofs \<le> length (nodeText body m)"
  shows "\<exists>j. e = butlast m @ [j] \<and> last m \<le> j
      \<and> (\<forall>k. last m \<le> k \<and> k \<le> j \<longrightarrow> isTextNode body (butlast m @ [k]))
      \<and> eo \<le> length (nodeText body e)
      \<and> (last m < j \<or> ofs \<le> eo)
      \<and> (\<forall>k c. last m \<le> k \<and> k \<le> j \<and> c < length (nodeText body (butlast m @ [k]))
             \<and> (last m < k \<or> ofs \<le> c) \<and> (k < j \<or> c < eo)
           \<longrightarrow> \<not> delim (nodeText body (butlast m @ [k]) ! c))
      \<and> ((eo < length (nodeText body e) \<and> delim (nodeText body e ! eo))
           \<or> (eo = length (nodeText body e) \<and> \<not> isTextNode body (butlast m @ [Suc j])))"
  using assms
proof (induction delim body m ofs arbitrary: e eo rule: findWordEnd.induct)
  case (1 delim body endNode endOff)
  let ?t = "nodeText body endNode"
  let ?s = "scanWordEnd delim ?t endOff"
  let ?P = "\<lambda>j. e = butlast endNode @ [j] \<and> last endNode \<le> j
      \<and> (\<forall>k. last endNode \<le> k \<and> k \<le> j \<longrightarrow> isTextNode body (butlast endNode @ [k]))
      \<and> eo \<le> length (nodeText body e)
      \<and> (last endNode < j \<or> endOff \<le> eo)
      \<and> (\<forall>k c. last endNode \<le> k \<and> k \<le> j \<and> c < length (nodeText body (butlast endNode @ [k]))
             \<and> (last endNode < k \<or> endOff \<le> c) \<and> (k < j \<or> c < eo)
           \<longrightarrow> \<not> delim (nodeText body (butlast endNode @ [k]) ! c))
      \<and> ((eo < length (nodeText body e) \<and> delim (nodeText body e ! eo))
           \<or> (eo = length (nodeText body e) \<and> \<not> isTextNode body (butlast endNode @ [Suc j])))"
  have self: "butlast endNode @ [last endNode] = endNode" using "1.prems"(2) by simp
  have s_ge: "endOff \<le> ?s" by (rule scanWordEnd_ge)
  have s_le: "?s \<le> length ?t" using "1.prems"(4) by (rule scanWordEnd_le)
  have s_word: "\<And>c. endOff \<le> c \<Longrightarrow> c < ?s \<Longrightarrow> \<not> delim (?t ! c)"
    by (rule scanWordEnd_word)
  have stay: "?P (last endNode)"
    if res: "e = endNode" "eo = ?s"
      and stop: "(?s < length ?t \<and> delim (?t ! ?s))
                 \<or> (?s = length ?t \<and> \<not> isTextNode body (butlast endNode @ [Suc (last endNode)]))"
  proof -
    have a: "\<forall>k. last endNode \<le> k \<and> k \<le> last endNode \<longrightarrow> isTextNode body (butlast endNode @ [k])"
      using self "1.prems"(3) by (metis le_antisym)
    have b: "\<forall>k c. last endNode \<le> k \<and> k \<le> last endNode
              \<and> c < length (nodeText body (butlast endNode @ [k]))
              \<and> (last endNode < k \<or> endOff \<le> c) \<and> (k < last endNode \<or> c < eo)
            \<longrightarrow> \<not> delim (nodeText body (butlast endNode @ [k]) ! c)"
    proof (intro allI impI)
      fix k c
      assume h: "last endNode \<le> k \<and> k \<le> last endNode
              \<and> c < length (nodeText body (butlast endNode @ [k]))
              \<and> (last endNode < k \<or> endOff \<le> c) \<and> (k < last endNode \<or> c < eo)"
      then have k: "k = last endNode" by simp
      with h res have "endOff \<le> c" "c < ?s" by simp_all
      from s_word[OF this] k self show "\<not> delim (nodeText body (butlast endNode @ [k]) ! c)" by simp
    qed
    show ?thesis using res self s_ge s_le a b stop by simp
  qed
  show ?case
  proof (cases "?s < length ?t")
    case True
    with "1.prems"(1) have res: "e = endNode" "eo = ?s"
      by (auto simp: findWordEnd.simps[of delim body endNode endOff])
    from True have "delim (?t ! ?s)" by (rule scanWordEnd_stop)
    with True have mx: "(?s < length ?t \<and> delim (?t ! ?s)) \<or> (?s = length ?t \<and> \<not> isTextNode body (butlast endNode @ [Suc (last endNode)]))" by simp
    show ?thesis by (rule exI[where x = "last endNode"]) (rule stay[OF res mx])
  next
    case False
    with s_le have full: "?s = length ?t" by simp
    show ?thesis
    proof (cases "nextSibling body endNode")
      case None
      with False "1.prems"(1) have res: "e = endNode" "eo = ?s"
        by (auto simp: findWordEnd.simps[of delim body endNode endOff])
      from None "1.prems"(2) have "nodeAt body (butlast endNode @ [Suc (last endNode)]) = None"
        by (simp add: nextSibling_def split: if_splits)
      then have "\<not> isTextNode body (butlast endNode @ [Suc (last endNode)])"
        by (rule not_valid_not_text)
      with full have mx: "(?s < length ?t \<and> delim (?t ! ?s)) \<or> (?s = length ?t \<and> \<not> isTextNode body (butlast endNode @ [Suc (last endNode)]))" by simp
      show ?thesis by (rule exI[where x = "last endNode"]) (rule stay[OF res mx])
    next
      case (Some nxt)
      from nextSibling_Some[OF Some] have nxt: "nxt = butlast endNode @ [Suc (last endNode)]"
        by simp
      then have bl: "butlast nxt = butlast endNode" and la: "last nxt = Suc (last endNode)"
        and ne: "nxt \<noteq> []" by simp_all
      show ?thesis
      proof (cases "isTextNode body nxt")
        case nt: False
        with False Some "1.prems"(1) have res: "e = endNode" "eo = ?s"
          by (auto simp: findWordEnd.simps[of delim body endNode endOff])
        from nt nxt full have mx: "(?s < length ?t \<and> delim (?t ! ?s)) \<or> (?s = length ?t \<and> \<not> isTextNode body (butlast endNode @ [Suc (last endNode)]))" by simp
        show ?thesis by (rule exI[where x = "last endNode"]) (rule stay[OF res mx])
      next
        case tx: True
        with False Some "1.prems"(1) have rec: "findWordEnd delim body nxt 0 = (e, eo)"
          by (simp add: findWordEnd.simps[of delim body endNode endOff])
        from "1.IH"[OF False Some tx rec ne tx] obtain j where
          j1: "e = butlast endNode @ [j]" and j2: "Suc (last endNode) \<le> j"
          and j3: "\<forall>k. Suc (last endNode) \<le> k \<and> k \<le> j \<longrightarrow> isTextNode body (butlast endNode @ [k])"
          and j4: "eo \<le> length (nodeText body e)"
          and j6: "\<forall>k c. Suc (last endNode) \<le> k \<and> k \<le> j
                     \<and> c < length (nodeText body (butlast endNode @ [k]))
                     \<and> (Suc (last endNode) < k \<or> 0 \<le> c) \<and> (k < j \<or> c < eo)
                   \<longrightarrow> \<not> delim (nodeText body (butlast endNode @ [k]) ! c)"
          and j7: "(eo < length (nodeText body e) \<and> delim (nodeText body e ! eo))
                   \<or> (eo = length (nodeText body e) \<and> \<not> isTextNode body (butlast endNode @ [Suc j]))"
          unfolding bl la by auto
        have a: "\<forall>k. last endNode \<le> k \<and> k \<le> j \<longrightarrow> isTextNode body (butlast endNode @ [k])"
        proof (intro allI impI)
          fix k assume h: "last endNode \<le> k \<and> k \<le> j"
          show "isTextNode body (butlast endNode @ [k])"
          proof (cases "k = last endNode")
            case True
            with self "1.prems"(3) show ?thesis by simp
          next
            case False
            with h j3 show ?thesis by simp
          qed
        qed
        have b: "\<forall>k c. last endNode \<le> k \<and> k \<le> j
                   \<and> c < length (nodeText body (butlast endNode @ [k]))
                   \<and> (last endNode < k \<or> endOff \<le> c) \<and> (k < j \<or> c < eo)
                 \<longrightarrow> \<not> delim (nodeText body (butlast endNode @ [k]) ! c)"
        proof (intro allI impI)
          fix k c
          assume h: "last endNode \<le> k \<and> k \<le> j
                   \<and> c < length (nodeText body (butlast endNode @ [k]))
                   \<and> (last endNode < k \<or> endOff \<le> c) \<and> (k < j \<or> c < eo)"
          show "\<not> delim (nodeText body (butlast endNode @ [k]) ! c)"
          proof (cases "k = last endNode")
            case True
            with h self full have "endOff \<le> c" "c < ?s" by simp_all
            from s_word[OF this] True self show ?thesis by simp
          next
            case False
            with h have "Suc (last endNode) \<le> k \<and> k \<le> j
                     \<and> c < length (nodeText body (butlast endNode @ [k]))
                     \<and> (Suc (last endNode) < k \<or> 0 \<le> c) \<and> (k < j \<or> c < eo)" by simp
            with j6 show ?thesis by blast
          qed
        qed
        have r2: "last endNode \<le> j" and r5: "last endNode < j \<or> endOff \<le> eo"
          using j2 by simp_all
        have "?P j" by (intro conjI) (fact j1, fact r2, fact a, fact j4, fact r5, fact b, fact j7)
        then show ?thesis by (rule exI[where x = j])
      qed
    qed
  qed
qed

lemma skipEmptyPrevious_None:
  "skipEmptyPrevious body m = None \<Longrightarrow> m \<noteq> [] \<Longrightarrow> nodeAt body m \<noteq> None \<Longrightarrow>
   x < last m \<Longrightarrow>
   isTextNode body (butlast m @ [x]) \<and> nodeText body (butlast m @ [x]) = []"
proof (induction body m rule: skipEmptyPrevious.induct)
  case (1 body prevNode)
  have self: "butlast prevNode @ [last prevNode] = prevNode" using "1.prems"(2) by simp
  have "nodeAt body (butlast prevNode @ [last prevNode]) \<noteq> None" using self "1.prems"(3) by simp
  from sibling_valid[OF this, of "last prevNode - 1"]
  have pv: "nodeAt body (butlast prevNode @ [last prevNode - 1]) \<noteq> None" by simp
  from "1.prems"(4) have pos: "0 < last prevNode" by simp
  with pv "1.prems"(2) have ps: "previousSibling body prevNode = Some (butlast prevNode @ [last prevNode - 1])"
    by (simp add: previousSibling_def)
  let ?prev = "butlast prevNode @ [last prevNode - 1]"
  have emp: "isTextNode body ?prev \<and> nodeText body ?prev = []"
  proof (rule ccontr)
    assume "\<not> ?thesis"
    with ps have "skipEmptyPrevious body prevNode = Some ?prev"
      by (subst skipEmptyPrevious.simps) auto
    with "1.prems"(1) show False by simp
  qed
  then have rec: "skipEmptyPrevious body ?prev = None"
    using ps "1.prems"(1) by (subst (asm) skipEmptyPrevious.simps) simp
  show ?case
  proof (cases "x = last prevNode - 1")
    case True
    with emp show ?thesis by simp
  next
    case False
    with "1.prems"(4) have "x < last ?prev" by simp
    from "1.IH"[OF ps emp rec _ pv this] show ?thesis by simp
  qed
qed

lemma skipEmptyPrevious_run:
  "skipEmptyPrevious body m = Some q \<Longrightarrow>
   \<exists>k < last m. q = butlast m @ [k]
     \<and> (\<forall>x. k < x \<and> x < last m \<longrightarrow>
            isTextNode body (butlast m @ [x]) \<and> nodeText body (butlast m @ [x]) = [])
     \<and> \<not> (isTextNode body q \<and> nodeText body q = [])"
proof (induction body m rule: skipEmptyPrevious.induct)
  case (1 body prevNode)
  from "1.prems" obtain prev where ps: "previousSibling body prevNode = Some prev"
    by (subst (asm) skipEmptyPrevious.simps) (auto split: option.splits)
  from previousSibling_Some[OF ps] have pos: "0 < last prevNode"
    and prev: "prev = butlast prevNode @ [last prevNode - 1]" by simp_all
  then have bl: "butlast prev = butlast prevNode" and la: "last prev = last prevNode - 1"
    by simp_all
  show ?case
  proof (cases "isTextNode body prev \<and> nodeText body prev = []")
    case True
    with ps "1.prems" have rec: "skipEmptyPrevious body prev = Some q"
      by (subst (asm) skipEmptyPrevious.simps) simp
    from "1.IH"[OF ps True rec] obtain k where k: "k < last prevNode - 1"
      "q = butlast prevNode @ [k]"
      "\<forall>x. k < x \<and> x < last prevNode - 1 \<longrightarrow>
            isTextNode body (butlast prevNode @ [x]) \<and> nodeText body (butlast prevNode @ [x]) = []"
      "\<not> (isTextNode body q \<and> nodeText body q = [])"
      unfolding bl la by auto
    have "\<forall>x. k < x \<and> x < last prevNode \<longrightarrow>
            isTextNode body (butlast prevNode @ [x]) \<and> nodeText body (butlast prevNode @ [x]) = []"
    proof (intro allI impI)
      fix x assume h: "k < x \<and> x < last prevNode"
      show "isTextNode body (butlast prevNode @ [x]) \<and> nodeText body (butlast prevNode @ [x]) = []"
      proof (cases "x = last prevNode - 1")
        case True
        with \<open>isTextNode body prev \<and> nodeText body prev = []\<close> prev show ?thesis by simp
      next
        case False
        with h have "k < x \<and> x < last prevNode - 1" by arith
        with k(3) show ?thesis by blast
      qed
    qed
    with k(1,2,4) show ?thesis by (intro exI[of _ k]) simp
  next
    case False
    with ps "1.prems" have "prev = q"
      by (subst (asm) skipEmptyPrevious.simps) simp
    with False prev pos show ?thesis by (intro exI[of _ "last prevNode - 1"]) auto
  qed
qed

lemma findWordStart_run:
  assumes "findWordStart delim body m ofs = (s, so)" "m \<noteq> []" "isTextNode body m"
    "ofs \<le> length (nodeText body m)"
  shows "\<exists>i. s = butlast m @ [i] \<and> i \<le> last m
      \<and> (\<forall>k. i \<le> k \<and> k \<le> last m \<longrightarrow> isTextNode body (butlast m @ [k]))
      \<and> so \<le> length (nodeText body s)
      \<and> (i < last m \<or> so \<le> ofs)
      \<and> (\<forall>k c. i \<le> k \<and> k \<le> last m \<and> c < length (nodeText body (butlast m @ [k]))
             \<and> (i < k \<or> so \<le> c) \<and> (k < last m \<or> c < ofs)
           \<longrightarrow> \<not> delim (nodeText body (butlast m @ [k]) ! c))
      \<and> ((0 < so \<and> delim (nodeText body s ! (so - 1)))
           \<or> (so = 0 \<and> (\<forall>k < i.
                 (\<forall>x. k < x \<and> x < i \<longrightarrow>
                    isTextNode body (butlast m @ [x]) \<and> nodeText body (butlast m @ [x]) = [])
                 \<and> isTextNode body (butlast m @ [k]) \<and> nodeText body (butlast m @ [k]) \<noteq> []
                 \<longrightarrow> delim (nodeText body (butlast m @ [k])
                              ! (length (nodeText body (butlast m @ [k])) - 1)))))"
  using assms
proof (induction delim body m ofs arbitrary: s so rule: findWordStart.induct)
  case (1 delim body startNode startOff)
  let ?t = "nodeText body startNode"
  let ?s = "scanWordStart delim ?t startOff"
  let ?T = "\<lambda>k. nodeText body (butlast startNode @ [k])"
  let ?E = "\<lambda>x. isTextNode body (butlast startNode @ [x]) \<and> ?T x = []"
  let ?M = "\<lambda>i. (0 < so \<and> delim (nodeText body s ! (so - 1)))
           \<or> (so = 0 \<and> (\<forall>k < i. (\<forall>x. k < x \<and> x < i \<longrightarrow> ?E x)
                 \<and> isTextNode body (butlast startNode @ [k]) \<and> ?T k \<noteq> []
                 \<longrightarrow> delim (?T k ! (length (?T k) - 1))))"
  let ?P = "\<lambda>i. s = butlast startNode @ [i] \<and> i \<le> last startNode
      \<and> (\<forall>k. i \<le> k \<and> k \<le> last startNode \<longrightarrow> isTextNode body (butlast startNode @ [k]))
      \<and> so \<le> length (nodeText body s)
      \<and> (i < last startNode \<or> so \<le> startOff)
      \<and> (\<forall>k c. i \<le> k \<and> k \<le> last startNode \<and> c < length (?T k)
             \<and> (i < k \<or> so \<le> c) \<and> (k < last startNode \<or> c < startOff)
           \<longrightarrow> \<not> delim (?T k ! c))
      \<and> ?M i"
  have self: "butlast startNode @ [last startNode] = startNode" using "1.prems"(2) by simp
  have valid: "nodeAt body startNode \<noteq> None" using "1.prems"(3) by (rule isTextNode_valid)
  have s_le: "?s \<le> startOff" by (rule scanWordStart_le)
  have s_word: "\<And>c. ?s \<le> c \<Longrightarrow> c < startOff \<Longrightarrow> \<not> delim (?t ! c)"
    by (rule scanWordStart_word)
  have stay: "?P (last startNode)"
    if res: "s = startNode" "so = ?s" and stop: "?M (last startNode)"
  proof -
    have a: "\<forall>k. last startNode \<le> k \<and> k \<le> last startNode \<longrightarrow> isTextNode body (butlast startNode @ [k])"
      using self "1.prems"(3) by (metis le_antisym)
    have b: "\<forall>k c. last startNode \<le> k \<and> k \<le> last startNode \<and> c < length (?T k)
             \<and> (last startNode < k \<or> so \<le> c) \<and> (k < last startNode \<or> c < startOff)
           \<longrightarrow> \<not> delim (?T k ! c)"
    proof (intro allI impI)
      fix k c
      assume h: "last startNode \<le> k \<and> k \<le> last startNode \<and> c < length (?T k)
             \<and> (last startNode < k \<or> so \<le> c) \<and> (k < last startNode \<or> c < startOff)"
      then have k: "k = last startNode" by simp
      with h res have "?s \<le> c" "c < startOff" by simp_all
      from s_word[OF this] k self show "\<not> delim (?T k ! c)" by simp
    qed
    have c: "so \<le> length (nodeText body s)" using res s_le "1.prems"(4) by simp
    have r1: "s = butlast startNode @ [last startNode]" using res self by simp
    have r5: "last startNode < last startNode \<or> so \<le> startOff" using res s_le by simp
    show ?thesis by (intro conjI) (fact r1, simp, fact a, fact c, fact r5, fact b, fact stop)
  qed
  show ?case
  proof (cases "0 < ?s")
    case True
    with "1.prems"(1) have res: "s = startNode" "so = ?s"
      by (auto simp: findWordStart.simps[of delim body startNode startOff])
    from True have "delim (?t ! (?s - 1))" by (rule scanWordStart_stop)
    with True res have mx: "?M (last startNode)" by simp
    show ?thesis by (rule exI[where x = "last startNode"]) (rule stay[OF res mx])
  next
    case False
    then have zero: "?s = 0" by simp
    show ?thesis
    proof (cases "skipEmptyPrevious body startNode")
      case None
      with False "1.prems"(1) have res: "s = startNode" "so = ?s"
        by (auto simp: findWordStart.simps[of delim body startNode startOff])
      have "\<And>x. x < last startNode \<Longrightarrow> ?E x"
        using skipEmptyPrevious_None[OF None "1.prems"(2) valid] by simp
      then have mx: "?M (last startNode)" using res zero by auto
      show ?thesis by (rule exI[where x = "last startNode"]) (rule stay[OF res mx])
    next
      case (Some prevNode)
      from skipEmptyPrevious_run[OF Some] obtain k0 where k0: "k0 < last startNode"
        and prev: "prevNode = butlast startNode @ [k0]"
        and gap: "\<forall>x. k0 < x \<and> x < last startNode \<longrightarrow> ?E x"
        and nonempty: "\<not> (isTextNode body prevNode \<and> nodeText body prevNode = [])"
        by auto
      from prev have bl: "butlast prevNode = butlast startNode" and la: "last prevNode = k0"
        and ne: "prevNode \<noteq> []" by simp_all
      let ?pt = "nodeText body prevNode"
      show ?thesis
      proof (cases "\<not> isTextNode body prevNode \<or> delim (?pt ! (length ?pt - 1))")
        case stopHere: True
        with False Some "1.prems"(1) have res: "s = startNode" "so = ?s"
          by (auto simp: findWordStart.simps[of delim body startNode startOff])
        have "\<forall>k < last startNode. (\<forall>x. k < x \<and> x < last startNode \<longrightarrow> ?E x)
                 \<and> isTextNode body (butlast startNode @ [k]) \<and> ?T k \<noteq> []
                 \<longrightarrow> delim (?T k ! (length (?T k) - 1))"
        proof (intro allI impI)
          fix k
          assume kl: "k < last startNode"
          assume h: "(\<forall>x. k < x \<and> x < last startNode \<longrightarrow> ?E x)
                 \<and> isTextNode body (butlast startNode @ [k]) \<and> ?T k \<noteq> []"
          have "k = k0"
          proof (rule ccontr)
            assume neq: "k \<noteq> k0"
            show False
            proof (cases "k < k0")
              case True
              with h k0 have "?E k0" by simp
              with nonempty prev show False by simp
            next
              case False
              with neq have "k0 < k" by simp
              with gap kl have "?E k" by simp
              with h show False by simp
            qed
          qed
          with h stopHere prev show "delim (?T k ! (length (?T k) - 1))" by auto
        qed
        with res zero have mx: "?M (last startNode)" by simp
        show ?thesis by (rule exI[where x = "last startNode"]) (rule stay[OF res mx])
      next
        case goOn: False
        then have tx: "isTextNode body prevNode" and lastWord: "\<not> delim (?pt ! (length ?pt - 1))"
          by simp_all
        from goOn False Some "1.prems"(1)
        have rec: "findWordStart delim body prevNode (length ?pt - 1) = (s, so)"
          by (simp add: findWordStart.simps[of delim body startNode startOff])
        have "length ?pt - 1 \<le> length ?pt" by simp
        from "1.IH"[OF False Some goOn rec ne tx this] obtain i where
          ii: "s = butlast startNode @ [i] \<and> i \<le> k0
          \<and> (\<forall>k. i \<le> k \<and> k \<le> k0 \<longrightarrow> isTextNode body (butlast startNode @ [k]))
          \<and> so \<le> length (nodeText body s)
          \<and> (i < k0 \<or> so \<le> length ?pt - 1)
          \<and> (\<forall>k c. i \<le> k \<and> k \<le> k0 \<and> c < length (?T k)
                     \<and> (i < k \<or> so \<le> c) \<and> (k < k0 \<or> c < length ?pt - 1)
                   \<longrightarrow> \<not> delim (?T k ! c))
          \<and> ?M i"
          unfolding bl la ..
        note i1 = ii[THEN conjunct1]
        note i2 = ii[THEN conjunct2, THEN conjunct1]
        note i3 = ii[THEN conjunct2, THEN conjunct2, THEN conjunct1]
        note i4 = ii[THEN conjunct2, THEN conjunct2, THEN conjunct2, THEN conjunct1]
        note i6 = ii[THEN conjunct2, THEN conjunct2, THEN conjunct2, THEN conjunct2,
                     THEN conjunct2, THEN conjunct1]
        note i7 = ii[THEN conjunct2, THEN conjunct2, THEN conjunct2, THEN conjunct2,
                     THEN conjunct2, THEN conjunct2]
        have a: "\<forall>k. i \<le> k \<and> k \<le> last startNode \<longrightarrow> isTextNode body (butlast startNode @ [k])"
        proof (intro allI impI)
          fix k assume h: "i \<le> k \<and> k \<le> last startNode"
          show "isTextNode body (butlast startNode @ [k])"
          proof (cases "k \<le> k0")
            case True
            with h i3 show ?thesis by simp
          next
            case nk: False
            show ?thesis
            proof (cases "k = last startNode")
              case True
              with self "1.prems"(3) show ?thesis by simp
            next
              case False
              with nk h gap show ?thesis by simp
            qed
          qed
        qed
        have b: "\<forall>k c. i \<le> k \<and> k \<le> last startNode \<and> c < length (?T k)
             \<and> (i < k \<or> so \<le> c) \<and> (k < last startNode \<or> c < startOff)
           \<longrightarrow> \<not> delim (?T k ! c)"
        proof (intro allI impI)
          fix k c
          assume h: "i \<le> k \<and> k \<le> last startNode \<and> c < length (?T k)
             \<and> (i < k \<or> so \<le> c) \<and> (k < last startNode \<or> c < startOff)"
          consider (self) "k = last startNode" | (gap) "k0 < k" "k < last startNode"
            | (prev) "k = k0" | (before) "k < k0" using h by linarith
          then show "\<not> delim (?T k ! c)"
          proof cases
            case self
            with h \<open>butlast startNode @ [last startNode] = startNode\<close> zero
            have "?s \<le> c" "c < startOff" by simp_all
            from s_word[OF this] self \<open>butlast startNode @ [last startNode] = startNode\<close>
            show ?thesis by simp
          next
            case gap
            with \<open>\<forall>x. k0 < x \<and> x < last startNode \<longrightarrow> ?E x\<close> have "?T k = []" by simp
            with h show ?thesis by simp
          next
            case prev
            show ?thesis
            proof (cases "c = length ?pt - 1")
              case True
              with lastWord prev \<open>prevNode = butlast startNode @ [k0]\<close> show ?thesis by simp
            next
              case False
              with h prev \<open>prevNode = butlast startNode @ [k0]\<close>
              have "i \<le> k \<and> k \<le> k0 \<and> c < length (?T k)
                     \<and> (i < k \<or> so \<le> c) \<and> (k < k0 \<or> c < length ?pt - 1)" by auto
              with i6 show ?thesis by blast
            qed
          next
            case before
            with h have "i \<le> k \<and> k \<le> k0 \<and> c < length (?T k)
                     \<and> (i < k \<or> so \<le> c) \<and> (k < k0 \<or> c < length ?pt - 1)" by simp
            with i6 show ?thesis by blast
          qed
        qed
        have lt: "i < last startNode" using i2 k0 by simp
        then have r2: "i \<le> last startNode" and r5: "i < last startNode \<or> so \<le> startOff"
          by simp_all
        have "?P i" by (intro conjI) (fact i1, fact r2, fact a, fact i4, fact r5, fact b, fact i7)
        then show ?thesis by (rule exI[where x = i])
      qed
    qed
  qed
qed

lemma setStart_setEnd:
  "\<not> isBefore (e, eo) (s, so) \<Longrightarrow>
   setEnd e eo (setStart s so r) =
     r\<lparr>startContainer := s, startOffset := so, endContainer := e, endOffset := eo\<rparr>"
  by (simp add: setStart_def setEnd_def)

lemma resolveWord_maximal:
  assumes ne: "n \<noteq> []" and tx: "isTextNode body n"
    and lt: "ofs < length (nodeText body n)" and wd: "\<not> delim (nodeText body n ! ofs)"
  shows "maximalWordRun delim body n ofs (resolveWord delim body n ofs (Suc ofs) r)"
proof -
  obtain e eo where fe: "findWordEnd delim body n (Suc ofs) = (e, eo)" by fastforce
  obtain s so where fs: "findWordStart delim body n ofs = (s, so)" by fastforce
  from lt have le1: "Suc ofs \<le> length (nodeText body n)" and le0: "ofs \<le> length (nodeText body n)"
    by simp_all
  from findWordEnd_run[OF fe ne tx le1] obtain j where
    jj: "e = butlast n @ [j] \<and> last n \<le> j
      \<and> (\<forall>k. last n \<le> k \<and> k \<le> j \<longrightarrow> isTextNode body (butlast n @ [k]))
      \<and> eo \<le> length (nodeText body e)
      \<and> (last n < j \<or> Suc ofs \<le> eo)
      \<and> (\<forall>k c. last n \<le> k \<and> k \<le> j \<and> c < length (nodeText body (butlast n @ [k]))
             \<and> (last n < k \<or> Suc ofs \<le> c) \<and> (k < j \<or> c < eo)
           \<longrightarrow> \<not> delim (nodeText body (butlast n @ [k]) ! c))
      \<and> ((eo < length (nodeText body e) \<and> delim (nodeText body e ! eo))
           \<or> (eo = length (nodeText body e) \<and> \<not> isTextNode body (butlast n @ [Suc j])))" ..
  note j1 = jj[THEN conjunct1]
  note j2 = jj[THEN conjunct2, THEN conjunct1]
  note j3 = jj[THEN conjunct2, THEN conjunct2, THEN conjunct1]
  note j4 = jj[THEN conjunct2, THEN conjunct2, THEN conjunct2, THEN conjunct1]
  note j5 = jj[THEN conjunct2, THEN conjunct2, THEN conjunct2, THEN conjunct2, THEN conjunct1]
  note j6 = jj[THEN conjunct2, THEN conjunct2, THEN conjunct2, THEN conjunct2, THEN conjunct2,
               THEN conjunct1]
  note j7 = jj[THEN conjunct2, THEN conjunct2, THEN conjunct2, THEN conjunct2, THEN conjunct2,
               THEN conjunct2]
  from findWordStart_run[OF fs ne tx le0] obtain i where
    ii: "s = butlast n @ [i] \<and> i \<le> last n
      \<and> (\<forall>k. i \<le> k \<and> k \<le> last n \<longrightarrow> isTextNode body (butlast n @ [k]))
      \<and> so \<le> length (nodeText body s)
      \<and> (i < last n \<or> so \<le> ofs)
      \<and> (\<forall>k c. i \<le> k \<and> k \<le> last n \<and> c < length (nodeText body (butlast n @ [k]))
             \<and> (i < k \<or> so \<le> c) \<and> (k < last n \<or> c < ofs)
           \<longrightarrow> \<not> delim (nodeText body (butlast n @ [k]) ! c))
      \<and> ((0 < so \<and> delim (nodeText body s ! (so - 1)))
           \<or> (so = 0 \<and> (\<forall>k < i.
                 (\<forall>x. k < x \<and> x < i \<longrightarrow>
                    isTextNode body (butlast n @ [x]) \<and> nodeText body (butlast n @ [x]) = [])
                 \<and> isTextNode body (butlast n @ [k]) \<and> nodeText body (butlast n @ [k]) \<noteq> []
                 \<longrightarrow> delim (nodeText body (butlast n @ [k])
                              ! (length (nodeText body (butlast n @ [k])) - 1)))))" ..
  note i1 = ii[THEN conjunct1]
  note i2 = ii[THEN conjunct2, THEN conjunct1]
  note i3 = ii[THEN conjunct2, THEN conjunct2, THEN conjunct1]
  note i4 = ii[THEN conjunct2, THEN conjunct2, THEN conjunct2, THEN conjunct1]
  note i5 = ii[THEN conjunct2, THEN conjunct2, THEN conjunct2, THEN conjunct2, THEN conjunct1]
  note i6 = ii[THEN conjunct2, THEN conjunct2, THEN conjunct2, THEN conjunct2, THEN conjunct2,
               THEN conjunct1]
  note i7 = ii[THEN conjunct2, THEN conjunct2, THEN conjunct2, THEN conjunct2, THEN conjunct2,
               THEN conjunct2]
  have self: "butlast n @ [last n] = n" using ne by simp
  have order: "\<not> isBefore (e, eo) (s, so)"
  proof (cases "i < j")
    case True
    then have "s < e" unfolding i1 j1 by (rule snoc_less_snoc)
    then show ?thesis by (auto simp: isBefore_def)
  next
    case False
    with i2 j2 have ij: "i = last n" "j = last n" by simp_all
    with i5 j5 have "so \<le> eo" by simp
    moreover from ij i1 j1 have "s = e" by simp
    ultimately show ?thesis by (simp add: isBefore_def)
  qed
  let ?r = "resolveWord delim body n ofs (Suc ofs) r"
  have r: "?r = r\<lparr>startContainer := s, startOffset := so, endContainer := e, endOffset := eo\<rparr>"
    by (simp add: resolveWord_def fe fs setStart_setEnd[OF order])
  have f1: "startContainer ?r = butlast n @ [i]" and f2: "endContainer ?r = butlast n @ [j]"
    and f3: "startOffset ?r = so" and f4: "endOffset ?r = eo"
    using r i1 j1 by simp_all
  have a: "\<forall>k. i \<le> k \<and> k \<le> j \<longrightarrow> isTextNode body (butlast n @ [k])"
  proof (intro allI impI)
    fix k assume h: "i \<le> k \<and> k \<le> j"
    show "isTextNode body (butlast n @ [k])"
    proof (cases "k \<le> last n")
      case True with h i3 show ?thesis by simp
    next
      case False with h j3 show ?thesis by simp
    qed
  qed
  have b: "\<forall>k c. i \<le> k \<and> k \<le> j \<and> c < length (nodeText body (butlast n @ [k]))
               \<and> (i < k \<or> so \<le> c) \<and> (k < j \<or> c < eo)
             \<longrightarrow> \<not> delim (nodeText body (butlast n @ [k]) ! c)"
  proof (intro allI impI)
    fix k c
    assume h: "i \<le> k \<and> k \<le> j \<and> c < length (nodeText body (butlast n @ [k]))
               \<and> (i < k \<or> so \<le> c) \<and> (k < j \<or> c < eo)"
    consider (before) "k < last n \<or> (k = last n \<and> c < ofs)" | (hit) "k = last n" "c = ofs"
      | (after) "last n < k \<or> (k = last n \<and> Suc ofs \<le> c)" by linarith
    then show "\<not> delim (nodeText body (butlast n @ [k]) ! c)"
    proof cases
      case before
      with h have "i \<le> k \<and> k \<le> last n \<and> c < length (nodeText body (butlast n @ [k]))
             \<and> (i < k \<or> so \<le> c) \<and> (k < last n \<or> c < ofs)" by auto
      with i6 show ?thesis by blast
    next
      case hit
      with wd self show ?thesis by simp
    next
      case after
      with h have "last n \<le> k \<and> k \<le> j \<and> c < length (nodeText body (butlast n @ [k]))
             \<and> (last n < k \<or> Suc ofs \<le> c) \<and> (k < j \<or> c < eo)" by auto
      with j6 show ?thesis by blast
    qed
  qed
  have c1: "startOffset ?r \<le> length (nodeText body (butlast n @ [i]))" using i4 i1 f3 by simp
  have c2: "endOffset ?r \<le> length (nodeText body (butlast n @ [j]))" using j4 j1 f4 by simp
  have c3: "i < last n \<or> startOffset ?r \<le> ofs" using i5 f3 by simp
  have c4: "last n < j \<or> ofs < endOffset ?r" using j5 f4 by auto
  have c5: "\<forall>k c. i \<le> k \<and> k \<le> j \<and> c < length (nodeText body (butlast n @ [k]))
               \<and> (i < k \<or> startOffset ?r \<le> c) \<and> (k < j \<or> c < endOffset ?r)
             \<longrightarrow> \<not> delim (nodeText body (butlast n @ [k]) ! c)"
    using b unfolding f3 f4 .
  have c6: "(endOffset ?r < length (nodeText body (butlast n @ [j]))
               \<and> delim (nodeText body (butlast n @ [j]) ! endOffset ?r))
           \<or> (endOffset ?r = length (nodeText body (butlast n @ [j]))
               \<and> \<not> isTextNode body (butlast n @ [Suc j]))"
    using j7 unfolding f4 j1 .
  have c7: "(0 < startOffset ?r
               \<and> delim (nodeText body (butlast n @ [i]) ! (startOffset ?r - 1)))
           \<or> (startOffset ?r = 0
               \<and> (\<forall>k < i.
                     (\<forall>x. k < x \<and> x < i \<longrightarrow>
                        isTextNode body (butlast n @ [x]) \<and> nodeText body (butlast n @ [x]) = [])
                     \<and> isTextNode body (butlast n @ [k]) \<and> nodeText body (butlast n @ [k]) \<noteq> []
                     \<longrightarrow> delim (nodeText body (butlast n @ [k])
                                  ! (length (nodeText body (butlast n @ [k])) - 1))))"
    using i7 unfolding f3 i1 .
  show ?thesis
    unfolding maximalWordRun_def
    by (rule exI[where x = i], rule exI[where x = j], intro conjI)
       (fact f1, fact f2, fact i2, fact j2, fact a, fact c1, fact c2, fact c3, fact c4, fact c5,
        fact c6, fact c7)
qed

text \<open>
  C2. For a hit-test position in a text run below the body whose character at the offset
  is a word character, word resolution sets the word range to the maximal contiguous run
  of word characters containing the position. The run may span several sibling text
  runs, and empty runs between word characters are passed through in both directions:
  in the witness the word \<open>ab\<close>, split into the runs \<open>a\<close>, empty, \<open>b\<close>, resolves to
  the one range from the start of \<open>a\<close> to the end of \<open>b\<close> from either letter.
  Stated for both parts of the source.
\<close>

theorem word_resolution_maximal_run:
  assumes "offsetNode \<noteq> []" and "isTextNode body offsetNode"
    and "ofs < length (nodeText body offsetNode)"
  shows "(isWordChar (nodeText body offsetNode ! ofs) \<longrightarrow>
            maximalWordRun isDelimiter body offsetNode ofs
              (setHighlightWordRange body (Some (offsetNode, ofs)) highlightWordRange))
       \<and> (isWordChar2 (nodeText body offsetNode ! ofs) \<longrightarrow>
            maximalWordRun isDelimiter2 body offsetNode ofs
              (setHighlightWordRange2 body (Some (offsetNode, ofs)) highlightWordRange))"
proof -
  have gen: "maximalWordRun delim body offsetNode ofs
               (setHighlightWordRangeWith delim body (Some (offsetNode, ofs)) highlightWordRange)"
    if "\<not> delim (nodeText body offsetNode ! ofs)" for delim
    using resolveWord_maximal[where delim = delim and r = highlightWordRange, OF assms that]
      assms that
    by (simp add: setHighlightWordRangeWith_def)
  show ?thesis
    using gen[of isDelimiter] gen[of isDelimiter2]
    by (simp add: isWordChar_def isWordChar2_def setHighlightWordRange_def
        setHighlightWordRange2_def)
qed

theorem word_resolution_maximal_run_witness:
  "[0] \<noteq> ([] :: path) \<and> isTextNode splitWordBody [0]
   \<and> 0 < length (nodeText splitWordBody [0])
   \<and> isWordChar (nodeText splitWordBody [0] ! 0)
   \<and> isWordChar2 (nodeText splitWordBody [0] ! 0)
   \<and> maximalWordRun isDelimiter splitWordBody [0] 0
        (setHighlightWordRange splitWordBody (Some ([0], 0)) createRange)
   \<and> maximalWordRun isDelimiter2 splitWordBody [0] 0
        (setHighlightWordRange2 splitWordBody (Some ([0], 0)) createRange)
   \<and> setHighlightWordRange splitWordBody (Some ([0], 0)) createRange
       = \<lparr>startContainer = [0], startOffset = 0, endContainer = [2], endOffset = 1\<rparr>
   \<and> setHighlightWordRange splitWordBody (Some ([2], 0)) createRange
       = \<lparr>startContainer = [0], startOffset = 0, endContainer = [2], endOffset = 1\<rparr>"
proof -
  have h1: "[0] \<noteq> ([] :: path)" by simp
  have h2: "isTextNode splitWordBody [0]" by (simp add: splitWordBody_def isTextNode_def)
  have h3: "0 < length (nodeText splitWordBody [0])" by (simp add: splitWordBody_def nodeText_def)
  have h4: "isWordChar (nodeText splitWordBody [0] ! 0)"
    by (simp add: splitWordBody_def nodeText_def isWordChar_def isDelimiter_def
        delimiterClass_def isJsWhitespace_def)
  have h5: "isWordChar2 (nodeText splitWordBody [0] ! 0)"
    by (simp add: splitWordBody_def nodeText_def isWordChar2_def isDelimiter2_def
        delimiterClass2_def isJsWhitespace_def)
  have e1: "setHighlightWordRange splitWordBody (Some ([0], 0)) createRange
       = \<lparr>startContainer = [0], startOffset = 0, endContainer = [2], endOffset = 1\<rparr>"
    by code_simp
  have e2: "setHighlightWordRange splitWordBody (Some ([2], 0)) createRange
       = \<lparr>startContainer = [0], startOffset = 0, endContainer = [2], endOffset = 1\<rparr>"
    by code_simp
  from word_resolution_maximal_run[OF h1 h2 h3, of createRange] h1 h2 h3 h4 h5 e1 e2
  show ?thesis by blast
qed

section \<open>Properties of the expansion loops\<close>

lemma probeRun_rejects:
  assumes step: "\<forall>n k s r. attempt n k s r \<longrightarrow> B s \<longrightarrow> \<not> fst r \<and> f (snd r) = f s"
  shows "probeRun P attempt s r \<Longrightarrow> B s \<Longrightarrow> \<not> fst r \<and> f (snd r) = f s"
proof (induction rule: probeRun.induct)
  case (exhausted s)
  show ?case by simp
next
  case (rejected n k s s')
  with step show ?case by fastforce
next
  case (accepted n k s s')
  with step show ?case by fastforce
next
  case (continued n k s s' r)
  with step show ?case by fastforce
qed

lemma probeRun_invariant:
  assumes step: "\<forall>n k s r. P n k \<longrightarrow> attempt n k s r \<longrightarrow> I s \<longrightarrow> I (snd r)"
  shows "probeRun P attempt s r \<Longrightarrow> I s \<Longrightarrow> I (snd r)"
proof (induction rule: probeRun.induct)
  case (exhausted s)
  then show ?case by simp
next
  case (rejected n k s s')
  with step show ?case by fastforce
next
  case (accepted n k s s')
  with step show ?case by fastforce
next
  case (continued n k s s' r)
  from step continued.hyps(1,2) continued.prems have "I s'" by fastforce
  with continued.IH show ?case by simp
qed

lemma probeRun_boundary:
  assumes step: "\<forall>n k s r. P n k \<longrightarrow> attempt n k s r \<longrightarrow>
                   (b (snd r) = b s \<or> (fst r \<and> b (snd r) = mk n k))"
  shows "probeRun P attempt s r \<Longrightarrow> b (snd r) = b s \<or> (\<exists>n k. P n k \<and> b (snd r) = mk n k)"
proof (induction rule: probeRun.induct)
  case (exhausted s)
  show ?case by simp
next
  case (rejected n k s s')
  with step show ?case by fastforce
next
  case (accepted n k s s')
  with step show ?case by fastforce
next
  case (continued n k s s' r)
  from step continued.hyps(1,2) have "b s' = b s \<or> b s' = mk n k" by fastforce
  with continued.IH continued.hyps(1) show ?case by metis
qed

subsection \<open>The step budget\<close>

lemma tryToExpandEnd_exhausted:
  "MAX_LINES_SPANNED_CHECKS \<le> linesSpannedChecks s \<Longrightarrow>
   tryToExpandEnd env n k s = (False, s\<lparr>linesSpannedChecks := Suc (linesSpannedChecks s)\<rparr>)"
  by (simp add: tryToExpandEnd_def)

lemma tryToExpandStart_exhausted:
  "MAX_LINES_SPANNED_CHECKS \<le> linesSpannedChecks s \<Longrightarrow>
   tryToExpandStart env n k s = (False, s\<lparr>linesSpannedChecks := Suc (linesSpannedChecks s)\<rparr>)"
  by (simp add: tryToExpandStart_def)

lemma updateEnd_exhausted:
  assumes "MAX_LINES_SPANNED_CHECKS \<le> linesSpannedChecks s"
  shows "\<not> fst (updateHighlightLineRangeEnd env body oneChar s)
         \<and> lineRange (snd (updateHighlightLineRangeEnd env body oneChar s)) = lineRange s"
proof -
  have step: "\<forall>n k s r. endProbe env n k s r \<longrightarrow>
                MAX_LINES_SPANNED_CHECKS \<le> linesSpannedChecks s \<longrightarrow>
                \<not> fst r \<and> (lineRange (snd r), MAX_LINES_SPANNED_CHECKS \<le> linesSpannedChecks (snd r))
                          = (lineRange s, MAX_LINES_SPANNED_CHECKS \<le> linesSpannedChecks s)"
    by (auto simp: endProbe_def tryToExpandEnd_exhausted)
  from probeRun_rejects[where attempt = "endProbe env"
      and B = "\<lambda>s. MAX_LINES_SPANNED_CHECKS \<le> linesSpannedChecks s"
      and f = "\<lambda>s. (lineRange s, MAX_LINES_SPANNED_CHECKS \<le> linesSpannedChecks s)",
      OF step endRun_probes assms]
  show ?thesis by simp
qed

lemma updateStart_exhausted:
  assumes "MAX_LINES_SPANNED_CHECKS \<le> linesSpannedChecks s"
  shows "\<not> fst (updateHighlightLineRangeStart env body oneChar s)
         \<and> lineRange (snd (updateHighlightLineRangeStart env body oneChar s)) = lineRange s"
proof -
  have step: "\<forall>n k s r. startProbe env n k s r \<longrightarrow>
                MAX_LINES_SPANNED_CHECKS \<le> linesSpannedChecks s \<longrightarrow>
                \<not> fst r \<and> (lineRange (snd r), MAX_LINES_SPANNED_CHECKS \<le> linesSpannedChecks (snd r))
                          = (lineRange s, MAX_LINES_SPANNED_CHECKS \<le> linesSpannedChecks s)"
    by (auto simp: startProbe_def tryToExpandStart_exhausted)
  from probeRun_rejects[where attempt = "startProbe env"
      and B = "\<lambda>s. MAX_LINES_SPANNED_CHECKS \<le> linesSpannedChecks s"
      and f = "\<lambda>s. (lineRange s, MAX_LINES_SPANNED_CHECKS \<le> linesSpannedChecks s)",
      OF step startRun_probes_any assms]
  show ?thesis by simp
qed

lemma spansMultipleLines_exhausted:
  "MAX_LINES_SPANNED_CHECKS2 \<le> linesSpannedChecks2 s \<Longrightarrow> fst (spansMultipleLines env s)"
  by (simp add: spansMultipleLines_def)

lemma tryToExpandEnd2_exhausted:
  assumes "MAX_LINES_SPANNED_CHECKS2 \<le> linesSpannedChecks2 s"
  shows "\<not> fst (tryToExpandEnd2 env n k c s)"
  using tryToExpandEnd2_outcome[of env n k c s] assms by auto

lemma tryToExpandStart2_exhausted:
  assumes "MAX_LINES_SPANNED_CHECKS2 \<le> linesSpannedChecks2 s"
  shows "\<not> fst (tryToExpandStart2 env n k c s)"
  using tryToExpandStart2_outcome[of env n k c s] assms by auto

lemma endProbe2_rollback:
  assumes "endProbe2 env True n k s r" "\<not> fst r"
  shows "lineRange2 (snd r) = lineRange2 s"
proof -
  from assms(1) obtain c where r: "r = tryToExpandEnd2 env n (Suc k) c s"
    and wo: "wellOrdered (lineRange2 s)"
    and af: "\<not> isBefore (n, k) (endContainer (lineRange2 s), endOffset (lineRange2 s))"
    by (auto simp: endProbe2_def)
  from wo af have ns: "\<not> isBefore (n, Suc k) (startContainer (lineRange2 s), startOffset (lineRange2 s))"
    by (auto simp: wellOrdered_def isBefore_less less_prod_def)
  from tryToExpandEnd2_outcome[of env n "Suc k" c s] assms(2) r
  have "lineRange2 (snd r) = setEnd (endContainer (lineRange2 s)) (endOffset (lineRange2 s))
              (setEnd n (Suc k) (lineRange2 s))" by auto
  with setEnd_rollback[OF wo ns] show ?thesis by simp
qed

lemma startProbe2_rollback:
  assumes "startProbe2 env True n k s r" "\<not> fst r"
  shows "lineRange2 (snd r) = lineRange2 s"
proof -
  from assms(1) obtain c where r: "r = tryToExpandStart2 env n k c s"
    and wo: "wellOrdered (lineRange2 s)"
    and af: "isBefore (n, k) (startContainer (lineRange2 s), startOffset (lineRange2 s))"
    by (auto simp: startProbe2_def)
  from wo af have ns: "\<not> isBefore (endContainer (lineRange2 s), endOffset (lineRange2 s)) (n, k)"
    by (auto simp: wellOrdered_def isBefore_less)
  from tryToExpandStart2_outcome[of env n k c s] assms(2) r
  have "lineRange2 (snd r) = setStart (startContainer (lineRange2 s)) (startOffset (lineRange2 s))
              (setStart n k (lineRange2 s))" by auto
  with setStart_rollback[OF wo ns] show ?thesis by simp
qed

lemma updateEnd2_exhausted:
  assumes "MAX_LINES_SPANNED_CHECKS2 \<le> linesSpannedChecks2 s" and "wellOrdered (lineRange2 s)"
  shows "\<not> fst (updateHighlightLineRangeEnd2 env body oneChar s)
         \<and> lineRange2 (snd (updateHighlightLineRangeEnd2 env body oneChar s)) = lineRange2 s"
proof -
  have step: "\<forall>n k s r. endProbe2 env True n k s r \<longrightarrow>
                MAX_LINES_SPANNED_CHECKS2 \<le> linesSpannedChecks2 s \<longrightarrow>
                \<not> fst r \<and> lineRange2 (snd r) = lineRange2 s"
  proof (intro allI impI)
    fix n k s r
    assume p: "endProbe2 env True n k s r" and b: "MAX_LINES_SPANNED_CHECKS2 \<le> linesSpannedChecks2 s"
    from p obtain c where "r = tryToExpandEnd2 env n (Suc k) c s" by (auto simp: endProbe2_def)
    with tryToExpandEnd2_exhausted[OF b] have "\<not> fst r" by simp
    with endProbe2_rollback[OF p] show "\<not> fst r \<and> lineRange2 (snd r) = lineRange2 s" by simp
  qed
  from probeRun_rejects[where attempt = "endProbe2 env True"
      and B = "\<lambda>s. MAX_LINES_SPANNED_CHECKS2 \<le> linesSpannedChecks2 s" and f = lineRange2,
      OF step endRun2_probes[OF assms(2)] assms(1)]
  show ?thesis by simp
qed

lemma updateStart2_exhausted:
  assumes "MAX_LINES_SPANNED_CHECKS2 \<le> linesSpannedChecks2 s" and "wellOrdered (lineRange2 s)"
    and "startOffset (lineRange2 s) \<le> length (nodeText body (startContainer (lineRange2 s)))"
  shows "\<not> fst (updateHighlightLineRangeStart2 env body oneChar s)
         \<and> lineRange2 (snd (updateHighlightLineRangeStart2 env body oneChar s)) = lineRange2 s"
proof -
  have step: "\<forall>n k s r. startProbe2 env True n k s r \<longrightarrow>
                MAX_LINES_SPANNED_CHECKS2 \<le> linesSpannedChecks2 s \<longrightarrow>
                \<not> fst r \<and> lineRange2 (snd r) = lineRange2 s"
  proof (intro allI impI)
    fix n k s r
    assume p: "startProbe2 env True n k s r"
      and b: "MAX_LINES_SPANNED_CHECKS2 \<le> linesSpannedChecks2 s"
    from p obtain c where "r = tryToExpandStart2 env n k c s" by (auto simp: startProbe2_def)
    with tryToExpandStart2_exhausted[OF b] have "\<not> fst r" by simp
    with startProbe2_rollback[OF p] show "\<not> fst r \<and> lineRange2 (snd r) = lineRange2 s" by simp
  qed
  from probeRun_rejects[where attempt = "startProbe2 env True"
      and B = "\<lambda>s. MAX_LINES_SPANNED_CHECKS2 \<le> linesSpannedChecks2 s" and f = lineRange2,
      OF step startRun2_probes[OF assms(3,2)] assms(1)]
  show ?thesis by simp
qed

subsection \<open>Boundaries stay inside non-empty text runs\<close>

lemma rangeInText_setEnd:
  "rangeInText body r \<Longrightarrow> k < length (nodeText body n) \<Longrightarrow> rangeInText body (setEnd n (Suc k) r)"
  by (auto simp: rangeInText_def setEnd_def)

lemma rangeInText_setStart:
  "rangeInText body r \<Longrightarrow> k < length (nodeText body n) \<Longrightarrow> rangeInText body (setStart n k r)"
  by (auto simp: rangeInText_def setStart_def)

lemma rangeInText_collapse: "rangeInText body r \<Longrightarrow> rangeInText body (collapse b r)"
  by (auto simp: rangeInText_def collapse_def)

lemma collapsed_collapse: "collapsed (collapse b r)"
  by (simp add: collapsed_def collapse_def)

lemma tryToExpandEnd_range:
  "lineRange (snd (tryToExpandEnd env n k s)) =
     (if fst (tryToExpandEnd env n k s) then setEnd n k (lineRange s) else lineRange s)"
  by (auto simp: tryToExpandEnd_def split: prod.splits if_splits)

lemma tryToExpandStart_range:
  "lineRange (snd (tryToExpandStart env n k s)) =
     (if fst (tryToExpandStart env n k s) then setStart n k (lineRange s) else lineRange s)"
  by (auto simp: tryToExpandStart_def split: prod.splits if_splits)

lemma endProbe_inText:
  "\<forall>n k s r. probedChar body n k \<longrightarrow> endProbe env n k s r \<longrightarrow>
     rangeInText body (lineRange s) \<longrightarrow> rangeInText body (lineRange (snd r))"
  by (auto simp: endProbe_def probedChar_def tryToExpandEnd_range rangeInText_setEnd)

lemma startProbe_inText:
  "\<forall>n k s r. probedChar body n k \<longrightarrow> startProbe env n k s r \<longrightarrow>
     rangeInText body (lineRange s) \<longrightarrow> rangeInText body (lineRange (snd r))"
  by (auto simp: startProbe_def probedChar_def tryToExpandStart_range rangeInText_setStart)

lemma updateEnd_inText:
  "rangeInText body (lineRange s) \<Longrightarrow>
   rangeInText body (lineRange (snd (updateHighlightLineRangeEnd env body oneChar s)))"
  using probeRun_invariant[where attempt = "endProbe env" and P = "probedChar body"
      and I = "\<lambda>s. rangeInText body (lineRange s)", OF endProbe_inText endRun_probes]
  by blast

lemma updateStart_inText:
  assumes "rangeInText body (lineRange s)"
  shows "rangeInText body (lineRange (snd (updateHighlightLineRangeStart env body oneChar s)))"
proof -
  from assms have "startOffset (lineRange s) \<le> length (nodeText body (startContainer (lineRange s)))"
    by (simp add: rangeInText_def)
  from probeRun_invariant[where attempt = "startProbe env" and P = "probedChar body"
      and I = "\<lambda>s. rangeInText body (lineRange s)", OF startProbe_inText startRun_probes[OF this]]
    assms
  show ?thesis by blast
qed

lemma alternateExpansion_inText:
  "rangeInText body (lineRange s) \<Longrightarrow>
   rangeInText body (lineRange (snd (snd (alternateExpansion env body s))))"
proof (induction env body s rule: alternateExpansion.induct)
  case (1 env body s)
  let ?e = "updateHighlightLineRangeEnd env body True s"
  let ?b = "updateHighlightLineRangeStart env body True (snd ?e)"
  from updateStart_inText[OF updateEnd_inText[OF "1.prems"]]
  have I: "rangeInText body (lineRange (snd ?b))" .
  show ?case
  proof (cases "fst ?b \<and> fst ?e")
    case True
    from "1.IH"[OF True I] True show ?thesis
      by (subst alternateExpansion.simps) simp
  next
    case False
    with I show ?thesis by (subst alternateExpansion.simps) auto
  qed
qed

lemma expandLineRange_inText:
  assumes "rangeInText body (lineRange s)"
  shows "rangeInText body (lineRange (expandLineRange env body s))"
proof -
  obtain ks ke a where alt: "alternateExpansion env body s = (ks, ke, a)"
    by (metis prod_cases3)
  with alternateExpansion_inText[OF assms, of env] have Ia: "rangeInText body (lineRange a)" by simp
  let ?sd = "if ks then snd (updateHighlightLineRangeStart env body False a) else a"
  have Is: "rangeInText body (lineRange ?sd)" using Ia updateStart_inText by simp
  then have "rangeInText body
     (lineRange (if ke then snd (updateHighlightLineRangeEnd env body False ?sd) else ?sd))"
    using updateEnd_inText by simp
  then show ?thesis by (simp add: expandLineRange_def alt Let_def)
qed

lemma seed_range:
  "setEnd n (Suc k) (setStart n k r) =
     r\<lparr>startContainer := n, startOffset := k, endContainer := n, endOffset := Suc k\<rparr>"
  by (rule setStart_setEnd) (simp add: isBefore_def)

lemma resolveLineFrom_inText:
  assumes "rangeInText body (lineRange seeded)"
  shows "rangeInText body (lineRange (resolveLineFrom env body n k mouseY seeded))"
proof -
  let ?init = "setInitialRect (getBoundingClientRect env (lineRange seeded)) seeded"
  from assms have I1: "rangeInText body (lineRange ?init)" by (simp add: setInitialRect_def)
  from expandLineRange_inText[OF I1]
  have I2: "rangeInText body (lineRange (expandLineRange env body ?init))" .
  have cl: "\<And>x. rangeInText body (lineRange x) \<Longrightarrow> rangeInText body (lineRange (collapseLine x))"
    by (simp add: collapseLine_def rangeInText_collapse)
  show ?thesis
    unfolding resolveLineFrom_def using assms I1 I2 cl by simp
qed

lemma seedLineRange_range:
  "lineRange (seedLineRange n k s) =
     (lineRange s)\<lparr>startContainer := n, startOffset := k, endContainer := n, endOffset := Suc k\<rparr>"
  by (simp add: seedLineRange_def seed_range)

lemma seedOffset_less:
  "nodeText body n \<noteq> [] \<Longrightarrow> min ofs (length (nodeText body n) - 1) < length (nodeText body n)"
proof -
  assume "nodeText body n \<noteq> []"
  then have "0 < length (nodeText body n)" by simp
  then show ?thesis by arith
qed

lemma setHighlightLineRange_Inr:
  assumes "isTextNode body n" "nodeText body n \<noteq> []"
  shows "setHighlightLineRange env body (Some (n, ofs)) mouseY s =
           Inr (resolveLineFrom env body n (min ofs (length (nodeText body n) - 1)) mouseY
                  (seedLineRange n (min ofs (length (nodeText body n) - 1)) s))"
  using assms by (simp add: setHighlightLineRange_def)

lemma setHighlightLineRange_inText:
  assumes "setHighlightLineRange env body (Some (n, ofs)) mouseY s = Inr s'"
    and "isTextNode body n"
  shows "rangeInText body (lineRange s')"
proof -
  from assms have ne: "nodeText body n \<noteq> []"
    by (auto simp: setHighlightLineRange_def split: if_splits)
  let ?k = "min ofs (length (nodeText body n) - 1)"
  from seedOffset_less[OF ne, of ofs] have "?k \<le> length (nodeText body n)"
    "Suc ?k \<le> length (nodeText body n)" by simp_all
  with ne have I: "rangeInText body (lineRange (seedLineRange n ?k s))"
    by (simp add: seedLineRange_range rangeInText_def)
  from setHighlightLineRange_Inr[OF assms(2) ne, of env ofs mouseY s] assms(1)
  have "s' = resolveLineFrom env body n ?k mouseY (seedLineRange n ?k s)" by simp
  with resolveLineFrom_inText[OF I, of env n ?k mouseY] show ?thesis by simp
qed

section \<open>Properties of the pointer-move handler\<close>

lemma insideSomeRect_iff:
  "insideSomeRect rects x y \<longleftrightarrow> (\<exists>r \<in> set rects. isInsideRect r x y)"
  by (induction rects) auto

lemma resolveWordAt_line [simp]:
  "lineHighlight (snd (resolveWordAt env body x y h)) = lineHighlight h"
  by (simp add: resolveWordAt_def Let_def)

lemma resolveWordAt2_line [simp]:
  "lineHighlight2 (snd (resolveWordAt2 env body x y h)) = lineHighlight2 h"
  by (simp add: resolveWordAt2_def Let_def)

lemma resolveLineAt_word [simp]:
  "wordHighlight (snd (resolveLineAt env body x y caret h)) = wordHighlight h"
  by (simp add: resolveLineAt_def Let_def split: sum.splits)

lemma resolveLineAt2_word [simp]:
  "wordHighlight2 (snd (resolveLineAt2 env body x y caret h)) = wordHighlight2 h"
  by (simp add: resolveLineAt2_def Let_def split: sum.splits prod.splits)

lemma pointerMoveHandler_snd:
  "snd (pointerMoveHandler env body x y h)
     = snd (resolveLineAt env body x y (fst (resolveWordAt env body x y h))
              (snd (resolveWordAt env body x y h)))"
  by (simp add: pointerMoveHandler_def case_prod_beta)

lemma pointerMoveHandler2_snd:
  "snd (pointerMoveHandler2 env body x y h)
     = snd (resolveLineAt2 env body x y (fst (resolveWordAt2 env body x y h))
              (snd (resolveWordAt2 env body x y h)))"
  by (simp add: pointerMoveHandler2_def case_prod_beta)

lemma word_inside:
  "\<not> collapsed w \<Longrightarrow> \<exists>r \<in> set (getClientRects env w). isInsideRect r x y \<Longrightarrow>
   \<not> isPointOutsideHighlightedWord env w x y"
  by (simp add: isPointOutsideHighlightedWord_def insideSomeRect_iff)

lemma line_inside:
  "\<not> collapsed (lineRange l) \<Longrightarrow> isInsideRect (getBoundingClientRect env (lineRange l)) x y \<Longrightarrow>
   \<not> isPointOutsideHighlightedLine env l x y"
  by (simp add: isPointOutsideHighlightedLine_def)

lemma line_inside2:
  "\<not> collapsed (lineRange2 l) \<Longrightarrow> isInsideRect (getBoundingClientRect env (lineRange2 l)) x y \<Longrightarrow>
   isPointOutsideHighlightedLine2 env (invalidateBoundingClientRectangle l) x y
     = (False, l\<lparr>boundingClientRect := Some (getBoundingClientRect env (lineRange2 l))\<rparr>)"
  by (simp add: isPointOutsideHighlightedLine2_def invalidateBoundingClientRectangle_def
      getBoundingClientRect2_def)

text \<open>
  C9. On a pointer move whose point lies inside one of the client rectangles of the
  (non-collapsed) word range, the handler leaves the word range as it is, whatever
  happens to the line range; when the point lies inside the bounding rectangle of the
  (non-collapsed) line range, the handler leaves the boundary positions of the line
  range as they are, whatever happens to the word range; when both hold, no hit test is
  made, no exception escapes, and the state is unchanged (in part_002 up to the
  memoised rectangle of the line range). \<open>isInsideRect\<close> holds only for a
  rectangle that occupies space. Stated for both parts of the source.
\<close>

theorem containment_skips_resolution:
  "(\<not> collapsed (wordHighlight h)
      \<and> (\<exists>r \<in> set (getClientRects env (wordHighlight h)). isInsideRect r x y)
    \<longrightarrow> wordHighlight (snd (pointerMoveHandler env body x y h)) = wordHighlight h)
   \<and> (\<not> collapsed (lineRange (lineHighlight h))
      \<and> isInsideRect (getBoundingClientRect env (lineRange (lineHighlight h))) x y
    \<longrightarrow> lineHighlight (snd (pointerMoveHandler env body x y h)) = lineHighlight h)
   \<and> (\<not> collapsed (wordHighlight h)
      \<and> (\<exists>r \<in> set (getClientRects env (wordHighlight h)). isInsideRect r x y)
      \<and> \<not> collapsed (lineRange (lineHighlight h))
      \<and> isInsideRect (getBoundingClientRect env (lineRange (lineHighlight h))) x y
    \<longrightarrow> pointerMoveHandler env body x y h = (None, h))
   \<and> (\<not> collapsed (wordHighlight2 h2)
      \<and> (\<exists>r \<in> set (getClientRects env (wordHighlight2 h2)). isInsideRect r x y)
    \<longrightarrow> wordHighlight2 (snd (pointerMoveHandler2 env body x y h2)) = wordHighlight2 h2)
   \<and> (\<not> collapsed (lineRange2 (lineHighlight2 h2))
      \<and> isInsideRect (getBoundingClientRect env (lineRange2 (lineHighlight2 h2))) x y
    \<longrightarrow> lineRange2 (lineHighlight2 (snd (pointerMoveHandler2 env body x y h2)))
          = lineRange2 (lineHighlight2 h2))
   \<and> (\<not> collapsed (wordHighlight2 h2)
      \<and> (\<exists>r \<in> set (getClientRects env (wordHighlight2 h2)). isInsideRect r x y)
      \<and> \<not> collapsed (lineRange2 (lineHighlight2 h2))
      \<and> isInsideRect (getBoundingClientRect env (lineRange2 (lineHighlight2 h2))) x y
    \<longrightarrow> pointerMoveHandler2 env body x y h2
          = (None, h2\<lparr>lineHighlight2 := (lineHighlight2 h2)
                        \<lparr>boundingClientRect :=
                           Some (getBoundingClientRect env (lineRange2 (lineHighlight2 h2)))\<rparr>\<rparr>))"
proof (intro conjI impI)
  assume "\<not> collapsed (wordHighlight h)
      \<and> (\<exists>r \<in> set (getClientRects env (wordHighlight h)). isInsideRect r x y)"
  then have "\<not> isPointOutsideHighlightedWord env (wordHighlight h) x y"
    using word_inside by blast
  then show "wordHighlight (snd (pointerMoveHandler env body x y h)) = wordHighlight h"
    by (simp add: pointerMoveHandler_snd) (simp add: resolveWordAt_def)
next
  assume "\<not> collapsed (lineRange (lineHighlight h))
      \<and> isInsideRect (getBoundingClientRect env (lineRange (lineHighlight h))) x y"
  then have "\<not> isPointOutsideHighlightedLine env (lineHighlight h) x y"
    using line_inside by blast
  then have "\<not> isPointOutsideHighlightedLine env
                 (lineHighlight (snd (resolveWordAt env body x y h))) x y" by simp
  then show "lineHighlight (snd (pointerMoveHandler env body x y h)) = lineHighlight h"
    unfolding pointerMoveHandler_snd by (simp add: resolveLineAt_def)
next
  assume a: "\<not> collapsed (wordHighlight h)
      \<and> (\<exists>r \<in> set (getClientRects env (wordHighlight h)). isInsideRect r x y)
      \<and> \<not> collapsed (lineRange (lineHighlight h))
      \<and> isInsideRect (getBoundingClientRect env (lineRange (lineHighlight h))) x y"
  then have w: "\<not> isPointOutsideHighlightedWord env (wordHighlight h) x y"
    using word_inside by blast
  from a have l: "\<not> isPointOutsideHighlightedLine env (lineHighlight h) x y"
    using line_inside by blast
  from w l show "pointerMoveHandler env body x y h = (None, h)"
    by (simp add: pointerMoveHandler_def resolveWordAt_def resolveLineAt_def)
next
  assume "\<not> collapsed (wordHighlight2 h2)
      \<and> (\<exists>r \<in> set (getClientRects env (wordHighlight2 h2)). isInsideRect r x y)"
  then have "\<not> isPointOutsideHighlightedWord env (wordHighlight2 h2) x y"
    using word_inside by blast
  then show "wordHighlight2 (snd (pointerMoveHandler2 env body x y h2)) = wordHighlight2 h2"
    by (simp add: pointerMoveHandler2_snd) (simp add: resolveWordAt2_def)
next
  assume a: "\<not> collapsed (lineRange2 (lineHighlight2 h2))
      \<and> isInsideRect (getBoundingClientRect env (lineRange2 (lineHighlight2 h2))) x y"
  let ?h = "snd (resolveWordAt2 env body x y h2)"
  from a line_inside2[of "lineHighlight2 ?h" env x y]
  have "isPointOutsideHighlightedLine2 env (invalidateBoundingClientRectangle (lineHighlight2 ?h)) x y
     = (False, (lineHighlight2 h2)\<lparr>boundingClientRect :=
                   Some (getBoundingClientRect env (lineRange2 (lineHighlight2 h2)))\<rparr>)"
    by simp
  then show "lineRange2 (lineHighlight2 (snd (pointerMoveHandler2 env body x y h2)))
          = lineRange2 (lineHighlight2 h2)"
    unfolding pointerMoveHandler2_snd by (simp add: resolveLineAt2_def)
next
  assume a: "\<not> collapsed (wordHighlight2 h2)
      \<and> (\<exists>r \<in> set (getClientRects env (wordHighlight2 h2)). isInsideRect r x y)
      \<and> \<not> collapsed (lineRange2 (lineHighlight2 h2))
      \<and> isInsideRect (getBoundingClientRect env (lineRange2 (lineHighlight2 h2))) x y"
  then have w: "\<not> isPointOutsideHighlightedWord env (wordHighlight2 h2) x y"
    using word_inside by blast
  from a line_inside2[of "lineHighlight2 h2" env x y]
  have l: "isPointOutsideHighlightedLine2 env (invalidateBoundingClientRectangle (lineHighlight2 h2)) x y
     = (False, (lineHighlight2 h2)\<lparr>boundingClientRect :=
                   Some (getBoundingClientRect env (lineRange2 (lineHighlight2 h2)))\<rparr>)"
    by simp
  from w l show "pointerMoveHandler2 env body x y h2
          = (None, h2\<lparr>lineHighlight2 := (lineHighlight2 h2)
                        \<lparr>boundingClientRect :=
                           Some (getBoundingClientRect env (lineRange2 (lineHighlight2 h2)))\<rparr>\<rparr>)"
    by (simp add: pointerMoveHandler2_def resolveWordAt2_def resolveLineAt2_def)
qed

theorem containment_skips_resolution_witness:
  "\<not> collapsed (wordHighlight hoveredWord)
   \<and> (\<exists>r \<in> set (getClientRects (fixedPitchLine None) (wordHighlight hoveredWord)).
         isInsideRect r 5 10)
   \<and> \<not> collapsed (lineRange (lineHighlight hoveredWord))
   \<and> isInsideRect (getBoundingClientRect (fixedPitchLine None)
                      (lineRange (lineHighlight hoveredWord))) 5 10
   \<and> pointerMoveHandler (fixedPitchLine None) aSpaceB 5 10 hoveredWord = (None, hoveredWord)
   \<and> \<not> collapsed (wordHighlight2 hoveredWord2)
   \<and> (\<exists>r \<in> set (getClientRects (fixedPitchLine None) (wordHighlight2 hoveredWord2)).
         isInsideRect r 5 10)
   \<and> \<not> collapsed (lineRange2 (lineHighlight2 hoveredWord2))
   \<and> isInsideRect (getBoundingClientRect (fixedPitchLine None)
                      (lineRange2 (lineHighlight2 hoveredWord2))) 5 10
   \<and> hitTests2 (snd (pointerMoveHandler2 (fixedPitchLine None) aSpaceB 5 10 hoveredWord2)) = 0
   \<and> lineRange2 (lineHighlight2
        (snd (pointerMoveHandler2 (fixedPitchLine None) aSpaceB 5 10 hoveredWord2)))
       = lineRange2 (lineHighlight2 hoveredWord2)"
proof -
  have h1: "\<not> collapsed (wordHighlight hoveredWord)" by code_simp
  have h2: "\<exists>r \<in> set (getClientRects (fixedPitchLine None) (wordHighlight hoveredWord)).
         isInsideRect r 5 10"
    unfolding insideSomeRect_iff[symmetric] by code_simp
  have h3: "\<not> collapsed (lineRange (lineHighlight hoveredWord))" by code_simp
  have h4: "isInsideRect (getBoundingClientRect (fixedPitchLine None)
                      (lineRange (lineHighlight hoveredWord))) 5 10" by code_simp
  have k1: "\<not> collapsed (wordHighlight2 hoveredWord2)" by code_simp
  have k2: "\<exists>r \<in> set (getClientRects (fixedPitchLine None) (wordHighlight2 hoveredWord2)).
         isInsideRect r 5 10"
    unfolding insideSomeRect_iff[symmetric] by code_simp
  have k3: "\<not> collapsed (lineRange2 (lineHighlight2 hoveredWord2))" by code_simp
  have k4: "isInsideRect (getBoundingClientRect (fixedPitchLine None)
                      (lineRange2 (lineHighlight2 hoveredWord2))) 5 10" by code_simp
  from containment_skips_resolution[where h = hoveredWord and env = "fixedPitchLine None" and x = 5 and y = 10
      and ?h2.0 = hoveredWord2 and body = aSpaceB]
    h1 h2 h3 h4 k1 k2 k3 k4
  show ?thesis by (simp add: hoveredWord2_def)
qed

lemma delimiter_hit_unchanged:
  "ofs < length (nodeText body n) \<Longrightarrow> delim (nodeText body n ! ofs) \<Longrightarrow>
   setHighlightWordRangeWith delim body (Some (n, ofs)) r = r"
  by (simp add: setHighlightWordRangeWith_def)

lemma resolveLineAt_line_cong:
  "lineHighlight h = lineHighlight h' \<Longrightarrow>
   lineHighlight (snd (resolveLineAt env body x y caret h))
     = lineHighlight (snd (resolveLineAt env body x y caret h'))"
  by (simp add: resolveLineAt_def Let_def split: sum.splits)

lemma resolveLineAt2_line_cong:
  "lineHighlight2 h = lineHighlight2 h' \<Longrightarrow>
   lineHighlight2 (snd (resolveLineAt2 env body x y caret h))
     = lineHighlight2 (snd (resolveLineAt2 env body x y caret h'))"
  by (simp add: resolveLineAt2_def Let_def split: sum.splits prod.splits)

lemma resolveWordAt_outside:
  "isPointOutsideHighlightedWord env (wordHighlight h) x y \<Longrightarrow>
   fst (resolveWordAt env body x y h) = Some (caretPositionFromPoint env x y)
   \<and> wordHighlight (snd (resolveWordAt env body x y h))
       = (if isPointOutsideHighlightedWord env
               (setHighlightWordRange body (caretPositionFromPoint env x y)
                  (collapse False (wordHighlight h))) x y
          then collapse False
                 (setHighlightWordRange body (caretPositionFromPoint env x y)
                    (collapse False (wordHighlight h)))
          else setHighlightWordRange body (caretPositionFromPoint env x y)
                 (collapse False (wordHighlight h)))"
  by (simp add: resolveWordAt_def Let_def)

lemma resolveWordAt2_outside:
  "isPointOutsideHighlightedWord env (wordHighlight2 h) x y \<Longrightarrow>
   fst (resolveWordAt2 env body x y h) = Some (caretPositionFromPoint env x y)
   \<and> wordHighlight2 (snd (resolveWordAt2 env body x y h))
       = (if isPointOutsideHighlightedWord env
               (setHighlightWordRange2 body (caretPositionFromPoint env x y)
                  (collapse False (wordHighlight2 h))) x y
          then collapse False
                 (setHighlightWordRange2 body (caretPositionFromPoint env x y)
                    (collapse False (wordHighlight2 h)))
          else setHighlightWordRange2 body (caretPositionFromPoint env x y)
                 (collapse False (wordHighlight2 h)))"
  by (simp add: resolveWordAt2_def Let_def)

text \<open>
  C7. When the handler makes its hit test for the word and the position found has an
  offset below the length of its run and a delimiter at that offset, word resolution
  returns without touching the range, and the word range the handler leaves is
  collapsed. The line range the handler leaves is the one line resolution computes from
  the same caret position and the previous line range alone, whatever the word range is.
  On the document \<open>a b\<close> with the pointer on the space, the word range is collapsed
  and the line range is not. Stated for both parts of the source.
\<close>

theorem delimiter_hit_collapses_word:
  "(isPointOutsideHighlightedWord env (wordHighlight h) x y
      \<and> caretPositionFromPoint env x y = Some (n, ofs)
      \<and> ofs < length (nodeText body n) \<and> isDelimiter (nodeText body n ! ofs)
    \<longrightarrow> setHighlightWordRange body (Some (n, ofs)) r = r
        \<and> collapsed (wordHighlight (snd (pointerMoveHandler env body x y h)))
        \<and> lineHighlight (snd (pointerMoveHandler env body x y h))
            = lineHighlight (snd (resolveLineAt env body x y (Some (Some (n, ofs)))
                                    (h\<lparr>wordHighlight := w\<rparr>))))
   \<and> (isPointOutsideHighlightedWord env (wordHighlight2 h2) x y
      \<and> caretPositionFromPoint env x y = Some (n, ofs)
      \<and> ofs < length (nodeText body n) \<and> isDelimiter2 (nodeText body n ! ofs)
    \<longrightarrow> setHighlightWordRange2 body (Some (n, ofs)) r = r
        \<and> collapsed (wordHighlight2 (snd (pointerMoveHandler2 env body x y h2)))
        \<and> lineHighlight2 (snd (pointerMoveHandler2 env body x y h2))
            = lineHighlight2 (snd (resolveLineAt2 env body x y (Some (Some (n, ofs)))
                                     (h2\<lparr>wordHighlight2 := w\<rparr>))))
   \<and> collapsed (wordHighlight
        (snd (pointerMoveHandler (fixedPitchLine (Some ([0], 1))) aSpaceB 15 10 newHighlighter)))
   \<and> \<not> collapsed (lineRange (lineHighlight
        (snd (pointerMoveHandler (fixedPitchLine (Some ([0], 1))) aSpaceB 15 10 newHighlighter))))
   \<and> collapsed (wordHighlight2
        (snd (pointerMoveHandler2 (fixedPitchLine (Some ([0], 1))) aSpaceB 15 10 newHighlighter2)))
   \<and> \<not> collapsed (lineRange2 (lineHighlight2
        (snd (pointerMoveHandler2 (fixedPitchLine (Some ([0], 1))) aSpaceB 15 10 newHighlighter2))))"
proof (intro conjI impI)
  assume a: "isPointOutsideHighlightedWord env (wordHighlight h) x y
      \<and> caretPositionFromPoint env x y = Some (n, ofs)
      \<and> ofs < length (nodeText body n) \<and> isDelimiter (nodeText body n ! ofs)"
  then have u: "\<And>r. setHighlightWordRange body (Some (n, ofs)) r = r"
    by (simp add: setHighlightWordRange_def delimiter_hit_unchanged)
  from u show "setHighlightWordRange body (Some (n, ofs)) r = r" .
  from a resolveWordAt_outside[of env h x y body] u
  have f: "fst (resolveWordAt env body x y h) = Some (Some (n, ofs))"
    and w: "collapsed (wordHighlight (snd (resolveWordAt env body x y h)))"
    by (simp_all add: collapsed_def collapse_def)
  from w show "collapsed (wordHighlight (snd (pointerMoveHandler env body x y h)))"
    by (simp add: pointerMoveHandler_snd)
  show "lineHighlight (snd (pointerMoveHandler env body x y h))
            = lineHighlight (snd (resolveLineAt env body x y (Some (Some (n, ofs)))
                                    (h\<lparr>wordHighlight := w\<rparr>)))"
    unfolding pointerMoveHandler_snd f
    by (rule resolveLineAt_line_cong) simp
next
  assume a: "isPointOutsideHighlightedWord env (wordHighlight2 h2) x y
      \<and> caretPositionFromPoint env x y = Some (n, ofs)
      \<and> ofs < length (nodeText body n) \<and> isDelimiter2 (nodeText body n ! ofs)"
  then have u: "\<And>r. setHighlightWordRange2 body (Some (n, ofs)) r = r"
    by (simp add: setHighlightWordRange2_def delimiter_hit_unchanged)
  from u show "setHighlightWordRange2 body (Some (n, ofs)) r = r" .
  from a resolveWordAt2_outside[of env h2 x y body] u
  have f: "fst (resolveWordAt2 env body x y h2) = Some (Some (n, ofs))"
    and w: "collapsed (wordHighlight2 (snd (resolveWordAt2 env body x y h2)))"
    by (simp_all add: collapsed_def collapse_def)
  from w show "collapsed (wordHighlight2 (snd (pointerMoveHandler2 env body x y h2)))"
    by (simp add: pointerMoveHandler2_snd)
  show "lineHighlight2 (snd (pointerMoveHandler2 env body x y h2))
            = lineHighlight2 (snd (resolveLineAt2 env body x y (Some (Some (n, ofs)))
                                     (h2\<lparr>wordHighlight2 := w\<rparr>)))"
    unfolding pointerMoveHandler2_snd f
    by (rule resolveLineAt2_line_cong) simp
next
  show "collapsed (wordHighlight
        (snd (pointerMoveHandler (fixedPitchLine (Some ([0], 1))) aSpaceB 15 10 newHighlighter)))"
    by code_simp
  show "\<not> collapsed (lineRange (lineHighlight
        (snd (pointerMoveHandler (fixedPitchLine (Some ([0], 1))) aSpaceB 15 10 newHighlighter))))"
    by code_simp
  show "collapsed (wordHighlight2
        (snd (pointerMoveHandler2 (fixedPitchLine (Some ([0], 1))) aSpaceB 15 10 newHighlighter2)))"
    by code_simp
  show "\<not> collapsed (lineRange2 (lineHighlight2
        (snd (pointerMoveHandler2 (fixedPitchLine (Some ([0], 1))) aSpaceB 15 10 newHighlighter2))))"
    by code_simp
qed

theorem delimiter_hit_collapses_word_witness:
  "isPointOutsideHighlightedWord (fixedPitchLine (Some ([0], 1))) (wordHighlight newHighlighter) 15 10
   \<and> caretPositionFromPoint (fixedPitchLine (Some ([0], 1))) 15 10 = Some ([0], 1)
   \<and> 1 < length (nodeText aSpaceB [0]) \<and> isDelimiter (nodeText aSpaceB [0] ! 1)
   \<and> isPointOutsideHighlightedWord (fixedPitchLine (Some ([0], 1))) (wordHighlight2 newHighlighter2) 15 10
   \<and> isDelimiter2 (nodeText aSpaceB [0] ! 1)
   \<and> setHighlightWordRange aSpaceB (Some ([0], 1)) createRange = createRange
   \<and> setHighlightWordRange2 aSpaceB (Some ([0], 1)) createRange = createRange
   \<and> lineRange (lineHighlight
        (snd (pointerMoveHandler (fixedPitchLine (Some ([0], 1))) aSpaceB 15 10 newHighlighter)))
       = \<lparr>startContainer = [0], startOffset = 0, endContainer = [0], endOffset = 3\<rparr>
   \<and> lineRange2 (lineHighlight2
        (snd (pointerMoveHandler2 (fixedPitchLine (Some ([0], 1))) aSpaceB 15 10 newHighlighter2)))
       = \<lparr>startContainer = [0], startOffset = 0, endContainer = [0], endOffset = 3\<rparr>"
proof -
  have h1: "isPointOutsideHighlightedWord (fixedPitchLine (Some ([0], 1))) (wordHighlight newHighlighter) 15 10"
    by code_simp
  have h2: "caretPositionFromPoint (fixedPitchLine (Some ([0], 1))) 15 10 = Some ([0], 1)"
    by (simp add: fixedPitchLine_def)
  have h3: "1 < length (nodeText aSpaceB [0])" by (simp add: aSpaceB_def nodeText_def)
  have h4: "isDelimiter (nodeText aSpaceB [0] ! 1)" by code_simp
  have k1: "isPointOutsideHighlightedWord (fixedPitchLine (Some ([0], 1))) (wordHighlight2 newHighlighter2) 15 10"
    by code_simp
  have k4: "isDelimiter2 (nodeText aSpaceB [0] ! 1)" by code_simp
  have e1: "lineRange (lineHighlight
        (snd (pointerMoveHandler (fixedPitchLine (Some ([0], 1))) aSpaceB 15 10 newHighlighter)))
       = \<lparr>startContainer = [0], startOffset = 0, endContainer = [0], endOffset = 3\<rparr>"
    by code_simp
  have e2: "lineRange2 (lineHighlight2
        (snd (pointerMoveHandler2 (fixedPitchLine (Some ([0], 1))) aSpaceB 15 10 newHighlighter2)))
       = \<lparr>startContainer = [0], startOffset = 0, endContainer = [0], endOffset = 3\<rparr>"
    by code_simp
  from delimiter_hit_collapses_word[where env = "fixedPitchLine (Some ([0], 1))" and x = 15
      and y = 10 and h = newHighlighter and ?h2.0 = newHighlighter2 and n = "[0]" and ofs = 1
      and body = aSpaceB and r = createRange]
    h1 h2 h3 h4 k1 k4 e1 e2
  show ?thesis by simp
qed

section \<open>The expansion on an exhausted budget\<close>

lemma updateStart_counter_le:
  "linesSpannedChecks s \<le> linesSpannedChecks (snd (updateHighlightLineRangeStart env body oneChar s))"
  using probeRun_counter[where attempt = "startProbe env" and c = linesSpannedChecks
      and M = MAX_LINES_SPANNED_CHECKS, OF startProbe_counter startRun_probes_any]
  by blast

lemma updateStart2_counter_le:
  "linesSpannedChecks2 s
     \<le> linesSpannedChecks2 (snd (updateHighlightLineRangeStart2 env body oneChar s))"
  using probeRun_counter_le[where attempt = "startProbe2 env False" and c = linesSpannedChecks2
      and M = MAX_LINES_SPANNED_CHECKS2, OF startProbe2_counter startRun2_probes_any]
  by blast

lemma alternateExpansion_exhausted:
  assumes "MAX_LINES_SPANNED_CHECKS \<le> linesSpannedChecks s"
  shows "\<not> fst (alternateExpansion env body s) \<and> \<not> fst (snd (alternateExpansion env body s))
         \<and> lineRange (snd (snd (alternateExpansion env body s))) = lineRange s"
proof -
  let ?e = "updateHighlightLineRangeEnd env body True s"
  let ?b = "updateHighlightLineRangeStart env body True (snd ?e)"
  note e = updateEnd_exhausted[OF assms, of env body True]
  from assms updateEnd_counter[of s env body True]
  have "MAX_LINES_SPANNED_CHECKS \<le> linesSpannedChecks (snd ?e)" by simp
  note b = updateStart_exhausted[OF this, of env body True]
  from e b show ?thesis
    by (subst (1 2 3) alternateExpansion.simps) simp
qed

lemma expandLineRange_exhausted:
  assumes "MAX_LINES_SPANNED_CHECKS \<le> linesSpannedChecks s"
  shows "lineRange (expandLineRange env body s) = lineRange s"
  using alternateExpansion_exhausted[OF assms, of env body]
  by (simp add: expandLineRange_def case_prod_beta)

lemma alternateExpansion2_exhausted:
  assumes "MAX_LINES_SPANNED_CHECKS2 \<le> linesSpannedChecks2 s" and "wellOrdered (lineRange2 s)"
    and "startOffset (lineRange2 s) \<le> length (nodeText body (startContainer (lineRange2 s)))"
  shows "\<not> fst (alternateExpansion2 env body s) \<and> \<not> fst (snd (alternateExpansion2 env body s))
         \<and> lineRange2 (snd (snd (alternateExpansion2 env body s))) = lineRange2 s"
proof -
  let ?e = "updateHighlightLineRangeEnd2 env body True s"
  let ?b = "updateHighlightLineRangeStart2 env body True (snd ?e)"
  note e = updateEnd2_exhausted[OF assms(1,2), of env body True]
  from assms updateEnd2_counter[of s env body True]
  have c: "MAX_LINES_SPANNED_CHECKS2 \<le> linesSpannedChecks2 (snd ?e)" by simp
  from e assms have "wellOrdered (lineRange2 (snd ?e))"
    and "startOffset (lineRange2 (snd ?e)) \<le> length (nodeText body (startContainer (lineRange2 (snd ?e))))"
    by simp_all
  note b = updateStart2_exhausted[OF c this, of env True]
  from e b show ?thesis
    by (subst (1 2 3) alternateExpansion2.simps) simp
qed

lemma expandLineRange2_exhausted:
  assumes "MAX_LINES_SPANNED_CHECKS2 \<le> linesSpannedChecks2 s" and "wellOrdered (lineRange2 s)"
    and "startOffset (lineRange2 s) \<le> length (nodeText body (startContainer (lineRange2 s)))"
  shows "lineRange2 (expandLineRange2 env body s) = lineRange2 s"
  using alternateExpansion2_exhausted[OF assms, of env]
  by (simp add: expandLineRange2_def case_prod_beta)

lemma tryToExpandEnd2_exhausted_range:
  assumes "MAX_LINES_SPANNED_CHECKS2 \<le> linesSpannedChecks2 s" and "wellOrdered (lineRange2 s)"
    and "\<not> isBefore (n, k) (startContainer (lineRange2 s), startOffset (lineRange2 s))"
  shows "lineRange2 (snd (tryToExpandEnd2 env n k c s)) = lineRange2 s"
  using tryToExpandEnd2_outcome[of env n k c s] tryToExpandEnd2_exhausted[OF assms(1), of env n k c]
    setEnd_rollback[OF assms(2,3)]
  by auto

lemma tryToExpandStart2_exhausted_range:
  assumes "MAX_LINES_SPANNED_CHECKS2 \<le> linesSpannedChecks2 s" and "wellOrdered (lineRange2 s)"
    and "\<not> isBefore (endContainer (lineRange2 s), endOffset (lineRange2 s)) (n, k)"
  shows "lineRange2 (snd (tryToExpandStart2 env n k c s)) = lineRange2 s"
  using tryToExpandStart2_outcome[of env n k c s] tryToExpandStart2_exhausted[OF assms(1), of env n k c]
    setStart_rollback[OF assms(2,3)]
  by auto

text \<open>
  C4. The expansion functions are total: the walks over the tree descend in the number of
  nodes left, and the alternation descends in the budget, because an expansion that
  reports success has raised the counter and left it within the maximum. The maxima are
  105 in part_001 and 115 in part_002. Once the counter has reached the maximum, every
  attempt to grow is rejected and the boundaries stay where they are: for the single
  attempt, for a call of either expansion function, and for the whole expansion, which
  returns the range it was given. The expansion has no error result. In part_002 an
  attempt moves the boundary and moves it back, which restores the range when the range
  is well ordered and the attempt lies on the side being grown, as it does in every
  expansion that starts from a range inside its text.
\<close>

theorem step_budget_rejects:
  "MAX_LINES_SPANNED_CHECKS = 105 \<and> MAX_LINES_SPANNED_CHECKS2 = 115
   \<and> (fst (updateHighlightLineRangeStart env body oneChar t) \<longrightarrow>
        linesSpannedChecks t
          < linesSpannedChecks (snd (updateHighlightLineRangeStart env body oneChar t))
        \<and> linesSpannedChecks (snd (updateHighlightLineRangeStart env body oneChar t))
            \<le> MAX_LINES_SPANNED_CHECKS)
   \<and> (fst (updateHighlightLineRangeStart2 env body oneChar t2) \<longrightarrow>
        linesSpannedChecks2 t2
          < linesSpannedChecks2 (snd (updateHighlightLineRangeStart2 env body oneChar t2))
        \<and> linesSpannedChecks2 (snd (updateHighlightLineRangeStart2 env body oneChar t2))
            \<le> MAX_LINES_SPANNED_CHECKS2)
   \<and> (MAX_LINES_SPANNED_CHECKS \<le> linesSpannedChecks s \<longrightarrow>
        tryToExpandEnd env n k s = (False, s\<lparr>linesSpannedChecks := Suc (linesSpannedChecks s)\<rparr>)
        \<and> tryToExpandStart env n k s
            = (False, s\<lparr>linesSpannedChecks := Suc (linesSpannedChecks s)\<rparr>)
        \<and> \<not> fst (updateHighlightLineRangeEnd env body oneChar s)
        \<and> lineRange (snd (updateHighlightLineRangeEnd env body oneChar s)) = lineRange s
        \<and> \<not> fst (updateHighlightLineRangeStart env body oneChar s)
        \<and> lineRange (snd (updateHighlightLineRangeStart env body oneChar s)) = lineRange s
        \<and> lineRange (expandLineRange env body s) = lineRange s)
   \<and> (MAX_LINES_SPANNED_CHECKS2 \<le> linesSpannedChecks2 s2 \<longrightarrow>
        \<not> fst (tryToExpandEnd2 env n k c s2) \<and> \<not> fst (tryToExpandStart2 env n k c s2))
   \<and> (MAX_LINES_SPANNED_CHECKS2 \<le> linesSpannedChecks2 s2 \<and> wellOrdered (lineRange2 s2)
      \<and> \<not> isBefore (n, k) (startContainer (lineRange2 s2), startOffset (lineRange2 s2)) \<longrightarrow>
        lineRange2 (snd (tryToExpandEnd2 env n k c s2)) = lineRange2 s2)
   \<and> (MAX_LINES_SPANNED_CHECKS2 \<le> linesSpannedChecks2 s2 \<and> wellOrdered (lineRange2 s2)
      \<and> \<not> isBefore (endContainer (lineRange2 s2), endOffset (lineRange2 s2)) (n, k) \<longrightarrow>
        lineRange2 (snd (tryToExpandStart2 env n k c s2)) = lineRange2 s2)
   \<and> (MAX_LINES_SPANNED_CHECKS2 \<le> linesSpannedChecks2 s2 \<and> wellOrdered (lineRange2 s2)
      \<and> startOffset (lineRange2 s2) \<le> length (nodeText body (startContainer (lineRange2 s2)))
      \<longrightarrow>
        \<not> fst (updateHighlightLineRangeEnd2 env body oneChar s2)
        \<and> lineRange2 (snd (updateHighlightLineRangeEnd2 env body oneChar s2)) = lineRange2 s2
        \<and> \<not> fst (updateHighlightLineRangeStart2 env body oneChar s2)
        \<and> lineRange2 (snd (updateHighlightLineRangeStart2 env body oneChar s2)) = lineRange2 s2
        \<and> lineRange2 (expandLineRange2 env body s2) = lineRange2 s2)"
proof (intro conjI impI)
  show "MAX_LINES_SPANNED_CHECKS = 105" by (simp add: MAX_LINES_SPANNED_CHECKS_def)
  show "MAX_LINES_SPANNED_CHECKS2 = 115" by (simp add: MAX_LINES_SPANNED_CHECKS2_def)
next
  assume a: "fst (updateHighlightLineRangeStart env body oneChar t)"
  from updateStart_counter[OF a]
  show "linesSpannedChecks t
          < linesSpannedChecks (snd (updateHighlightLineRangeStart env body oneChar t))"
    and "linesSpannedChecks (snd (updateHighlightLineRangeStart env body oneChar t))
            \<le> MAX_LINES_SPANNED_CHECKS" by simp_all
next
  assume a: "fst (updateHighlightLineRangeStart2 env body oneChar t2)"
  from updateStart2_counter[OF a]
  show "linesSpannedChecks2 t2
          < linesSpannedChecks2 (snd (updateHighlightLineRangeStart2 env body oneChar t2))"
    and "linesSpannedChecks2 (snd (updateHighlightLineRangeStart2 env body oneChar t2))
            \<le> MAX_LINES_SPANNED_CHECKS2" by simp_all
next
  assume a: "MAX_LINES_SPANNED_CHECKS \<le> linesSpannedChecks s"
  show "tryToExpandEnd env n k s = (False, s\<lparr>linesSpannedChecks := Suc (linesSpannedChecks s)\<rparr>)"
    by (rule tryToExpandEnd_exhausted[OF a])
  show "tryToExpandStart env n k s = (False, s\<lparr>linesSpannedChecks := Suc (linesSpannedChecks s)\<rparr>)"
    by (rule tryToExpandStart_exhausted[OF a])
  from updateEnd_exhausted[OF a, of env body oneChar]
  show "\<not> fst (updateHighlightLineRangeEnd env body oneChar s)"
    and "lineRange (snd (updateHighlightLineRangeEnd env body oneChar s)) = lineRange s"
    by simp_all
  from updateStart_exhausted[OF a, of env body oneChar]
  show "\<not> fst (updateHighlightLineRangeStart env body oneChar s)"
    and "lineRange (snd (updateHighlightLineRangeStart env body oneChar s)) = lineRange s"
    by simp_all
  show "lineRange (expandLineRange env body s) = lineRange s"
    by (rule expandLineRange_exhausted[OF a])
next
  assume a: "MAX_LINES_SPANNED_CHECKS2 \<le> linesSpannedChecks2 s2"
  show "\<not> fst (tryToExpandEnd2 env n k c s2)" by (rule tryToExpandEnd2_exhausted[OF a])
  show "\<not> fst (tryToExpandStart2 env n k c s2)" by (rule tryToExpandStart2_exhausted[OF a])
next
  assume "MAX_LINES_SPANNED_CHECKS2 \<le> linesSpannedChecks2 s2 \<and> wellOrdered (lineRange2 s2)
      \<and> \<not> isBefore (n, k) (startContainer (lineRange2 s2), startOffset (lineRange2 s2))"
  then show "lineRange2 (snd (tryToExpandEnd2 env n k c s2)) = lineRange2 s2"
    using tryToExpandEnd2_exhausted_range by blast
next
  assume "MAX_LINES_SPANNED_CHECKS2 \<le> linesSpannedChecks2 s2 \<and> wellOrdered (lineRange2 s2)
      \<and> \<not> isBefore (endContainer (lineRange2 s2), endOffset (lineRange2 s2)) (n, k)"
  then show "lineRange2 (snd (tryToExpandStart2 env n k c s2)) = lineRange2 s2"
    using tryToExpandStart2_exhausted_range by blast
next
  assume a: "MAX_LINES_SPANNED_CHECKS2 \<le> linesSpannedChecks2 s2 \<and> wellOrdered (lineRange2 s2)
      \<and> startOffset (lineRange2 s2) \<le> length (nodeText body (startContainer (lineRange2 s2)))"
  then have a1: "MAX_LINES_SPANNED_CHECKS2 \<le> linesSpannedChecks2 s2"
    and a2: "wellOrdered (lineRange2 s2)"
    and a3: "startOffset (lineRange2 s2) \<le> length (nodeText body (startContainer (lineRange2 s2)))"
    by simp_all
  from updateEnd2_exhausted[OF a1 a2, of env body oneChar]
  show "\<not> fst (updateHighlightLineRangeEnd2 env body oneChar s2)"
    and "lineRange2 (snd (updateHighlightLineRangeEnd2 env body oneChar s2)) = lineRange2 s2"
    by simp_all
  from updateStart2_exhausted[OF a1 a2 a3, of env oneChar]
  show "\<not> fst (updateHighlightLineRangeStart2 env body oneChar s2)"
    and "lineRange2 (snd (updateHighlightLineRangeStart2 env body oneChar s2)) = lineRange2 s2"
    by simp_all
  show "lineRange2 (expandLineRange2 env body s2) = lineRange2 s2"
    by (rule expandLineRange2_exhausted[OF a1 a2 a3])
qed

theorem step_budget_rejects_witness:
  "fst (updateHighlightLineRangeStart (fixedPitchLine None) aSpaceB True freshLineRange)
   \<and> fst (updateHighlightLineRangeStart2 (fixedPitchLine None) aSpaceB True freshLineRange2)
   \<and> MAX_LINES_SPANNED_CHECKS \<le> linesSpannedChecks spentLineRange
   \<and> MAX_LINES_SPANNED_CHECKS2 \<le> linesSpannedChecks2 spentLineRange2
   \<and> wellOrdered (lineRange2 spentLineRange2)
   \<and> \<not> isBefore ([0], 1) (startContainer (lineRange2 spentLineRange2),
                             startOffset (lineRange2 spentLineRange2))
   \<and> \<not> isBefore (endContainer (lineRange2 spentLineRange2),
                    endOffset (lineRange2 spentLineRange2)) ([0], 1)
   \<and> startOffset (lineRange2 spentLineRange2)
        \<le> length (nodeText aSpaceB (startContainer (lineRange2 spentLineRange2)))
   \<and> linesSpannedChecks
         (snd (updateHighlightLineRangeStart (fixedPitchLine None) aSpaceB True freshLineRange)) = 1
   \<and> linesSpannedChecks2
         (snd (updateHighlightLineRangeStart2 (fixedPitchLine None) aSpaceB True freshLineRange2)) = 1
   \<and> lineRange (expandLineRange (fixedPitchLine None) aSpaceB spentLineRange)
       = \<lparr>startContainer = [0], startOffset = 0, endContainer = [0], endOffset = 1\<rparr>
   \<and> lineRange2 (expandLineRange2 (fixedPitchLine None) aSpaceB spentLineRange2)
       = \<lparr>startContainer = [0], startOffset = 0, endContainer = [0], endOffset = 1\<rparr>
   \<and> \<not> fst (tryToExpandEnd (fixedPitchLine None) [0] 1 spentLineRange)
   \<and> \<not> fst (tryToExpandEnd2 (fixedPitchLine None) [0] 1 True spentLineRange2)"
proof -
  have h1: "fst (updateHighlightLineRangeStart (fixedPitchLine None) aSpaceB True freshLineRange)"
    by code_simp
  have h2: "fst (updateHighlightLineRangeStart2 (fixedPitchLine None) aSpaceB True freshLineRange2)"
    by code_simp
  have h3: "MAX_LINES_SPANNED_CHECKS \<le> linesSpannedChecks spentLineRange" by code_simp
  have h4: "MAX_LINES_SPANNED_CHECKS2 \<le> linesSpannedChecks2 spentLineRange2" by code_simp
  have h5: "wellOrdered (lineRange2 spentLineRange2)" by code_simp
  have h6: "\<not> isBefore ([0], 1) (startContainer (lineRange2 spentLineRange2),
                             startOffset (lineRange2 spentLineRange2))" by code_simp
  have h7: "\<not> isBefore (endContainer (lineRange2 spentLineRange2),
                    endOffset (lineRange2 spentLineRange2)) ([0], 1)" by code_simp
  have h8: "startOffset (lineRange2 spentLineRange2)
        \<le> length (nodeText aSpaceB (startContainer (lineRange2 spentLineRange2)))" by code_simp
  have e1: "linesSpannedChecks
         (snd (updateHighlightLineRangeStart (fixedPitchLine None) aSpaceB True freshLineRange)) = 1"
    by code_simp
  have e2: "linesSpannedChecks2
         (snd (updateHighlightLineRangeStart2 (fixedPitchLine None) aSpaceB True freshLineRange2)) = 1"
    by code_simp
  have e3: "lineRange spentLineRange
       = \<lparr>startContainer = [0], startOffset = 0, endContainer = [0], endOffset = 1\<rparr>"
    by (simp add: spentLineRange_def)
  have e4: "lineRange2 spentLineRange2
       = \<lparr>startContainer = [0], startOffset = 0, endContainer = [0], endOffset = 1\<rparr>"
    by (simp add: spentLineRange2_def)
  from step_budget_rejects[where env = "fixedPitchLine None" and body = aSpaceB
      and oneChar = True and t = freshLineRange and ?t2.0 = freshLineRange2
      and s = spentLineRange and ?s2.0 = spentLineRange2 and n = "[0]" and k = 1 and c = True]
    h1 h2 h3 h4 h5 h6 h7 h8 e1 e2 e3 e4
  show ?thesis by simp
qed

section \<open>Whitespace in the expansion loops\<close>

lemma probeRun_none:
  assumes "\<forall>n k. \<not> P n k"
  shows "probeRun P attempt s r \<Longrightarrow> r = (False, s)"
  by (induction rule: probeRun.induct) (use assms in auto)

lemma endPoint_setEnd: "endPoint (setEnd n k r) = (n, k)"
  by (simp add: endPoint_def setEnd_def)

lemma startPoint_setStart: "startPoint (setStart n k r) = (n, k)"
  by (simp add: startPoint_def setStart_def)

lemma endProbe_boundary:
  "\<forall>n k s r. probedChar body n k \<longrightarrow> endProbe env n k s r \<longrightarrow>
     (endPoint (lineRange (snd r)) = endPoint (lineRange s)
      \<or> (fst r \<and> endPoint (lineRange (snd r)) = (n, Suc k)))"
  by (auto simp: endProbe_def tryToExpandEnd_range endPoint_setEnd)

lemma startProbe_boundary:
  "\<forall>n k s r. probedChar body n k \<longrightarrow> startProbe env n k s r \<longrightarrow>
     (startPoint (lineRange (snd r)) = startPoint (lineRange s)
      \<or> (fst r \<and> startPoint (lineRange (snd r)) = (n, k)))"
  by (auto simp: startProbe_def tryToExpandStart_range startPoint_setStart)

lemma endProbe2_boundary:
  "\<forall>n k s r. probedChar body n k \<longrightarrow> endProbe2 env True n k s r \<longrightarrow>
     (endPoint (lineRange2 (snd r)) = endPoint (lineRange2 s)
      \<or> (fst r \<and> endPoint (lineRange2 (snd r)) = (n, Suc k)))"
proof (intro allI impI)
  fix n k s r
  assume p: "endProbe2 env True n k s r"
  show "endPoint (lineRange2 (snd r)) = endPoint (lineRange2 s)
      \<or> (fst r \<and> endPoint (lineRange2 (snd r)) = (n, Suc k))"
  proof (cases "fst r")
    case False
    with endProbe2_rollback[OF p] show ?thesis by simp
  next
    case True
    from p obtain c where r: "r = tryToExpandEnd2 env n (Suc k) c s"
      and g: "True \<longrightarrow> wellOrdered (lineRange2 s)
             \<and> \<not> isBefore (n, k) (endContainer (lineRange2 s), endOffset (lineRange2 s))"
      by (auto simp: endProbe2_def)
    from endProbe2_accept[OF g, of env c] True r show ?thesis by (simp add: endPoint_def)
  qed
qed

lemma startProbe2_boundary:
  "\<forall>n k s r. probedChar body n k \<longrightarrow> startProbe2 env True n k s r \<longrightarrow>
     (startPoint (lineRange2 (snd r)) = startPoint (lineRange2 s)
      \<or> (fst r \<and> startPoint (lineRange2 (snd r)) = (n, k)))"
proof (intro allI impI)
  fix n k s r
  assume p: "startProbe2 env True n k s r"
  show "startPoint (lineRange2 (snd r)) = startPoint (lineRange2 s)
      \<or> (fst r \<and> startPoint (lineRange2 (snd r)) = (n, k))"
  proof (cases "fst r")
    case False
    with startProbe2_rollback[OF p] show ?thesis by simp
  next
    case True
    from p obtain c where r: "r = tryToExpandStart2 env n k c s"
      and g: "True \<longrightarrow> wellOrdered (lineRange2 s)
             \<and> isBefore (n, k) (startContainer (lineRange2 s), startOffset (lineRange2 s))"
      by (auto simp: startProbe2_def)
    from startProbe2_accept[OF g, of env c] True r show ?thesis by (simp add: startPoint_def)
  qed
qed

lemma updateEnd_boundary:
  "endPoint (lineRange (snd (updateHighlightLineRangeEnd env body oneChar s)))
     = endPoint (lineRange s)
   \<or> (\<exists>n k. probedChar body n k
        \<and> endPoint (lineRange (snd (updateHighlightLineRangeEnd env body oneChar s))) = (n, Suc k))"
  using probeRun_boundary[where attempt = "endProbe env" and P = "probedChar body"
      and b = "\<lambda>s. endPoint (lineRange s)" and mk = "\<lambda>n k. (n, Suc k)",
      OF endProbe_boundary endRun_probes] .

lemma updateStart_boundary:
  assumes "startOffset (lineRange s) \<le> length (nodeText body (startContainer (lineRange s)))"
  shows "startPoint (lineRange (snd (updateHighlightLineRangeStart env body oneChar s)))
     = startPoint (lineRange s)
   \<or> (\<exists>n k. probedChar body n k
        \<and> startPoint (lineRange (snd (updateHighlightLineRangeStart env body oneChar s))) = (n, k))"
  using probeRun_boundary[where attempt = "startProbe env" and P = "probedChar body"
      and b = "\<lambda>s. startPoint (lineRange s)" and mk = "\<lambda>n k. (n, k)",
      OF startProbe_boundary startRun_probes[OF assms]] .

lemma updateEnd2_boundary:
  assumes "wellOrdered (lineRange2 s)"
  shows "endPoint (lineRange2 (snd (updateHighlightLineRangeEnd2 env body oneChar s)))
     = endPoint (lineRange2 s)
   \<or> (\<exists>n k. probedChar body n k
        \<and> endPoint (lineRange2 (snd (updateHighlightLineRangeEnd2 env body oneChar s))) = (n, Suc k))"
  using probeRun_boundary[where attempt = "endProbe2 env True" and P = "probedChar body"
      and b = "\<lambda>s. endPoint (lineRange2 s)" and mk = "\<lambda>n k. (n, Suc k)",
      OF endProbe2_boundary endRun2_probes[OF assms]] .

lemma updateStart2_boundary:
  assumes "startOffset (lineRange2 s) \<le> length (nodeText body (startContainer (lineRange2 s)))"
    and "wellOrdered (lineRange2 s)"
  shows "startPoint (lineRange2 (snd (updateHighlightLineRangeStart2 env body oneChar s)))
     = startPoint (lineRange2 s)
   \<or> (\<exists>n k. probedChar body n k
        \<and> startPoint (lineRange2 (snd (updateHighlightLineRangeStart2 env body oneChar s))) = (n, k))"
  using probeRun_boundary[where attempt = "startProbe2 env True" and P = "probedChar body"
      and b = "\<lambda>s. startPoint (lineRange2 s)" and mk = "\<lambda>n k. (n, k)",
      OF startProbe2_boundary startRun2_probes[OF assms]] .

text \<open>
  C10. A character that is whitespace or zero-width is passed over by the scanning loops
  of both expansion functions with the range object untouched: the scan continues at
  the next offset with the same object, so with the same counter. Every probe of the
  heuristic that a call of an expansion function makes is on a character that is neither
  (\<open>probeRun (probedChar body)\<close>), and in a document without such characters a call
  returns the object as it was. After a call, the boundary of the side being grown is
  where it was, or lies at a probed character whose probe was accepted: right after it
  for the end, right before it for the start; whitespace passed over on the way is
  inside the range only then. For the start the boundary offset must lie within its run,
  and for part_002 the range must be well ordered, as DOM ranges are. Stated for both
  parts of the source.
\<close>

theorem whitespace_is_not_probed:
  "(k < length (nodeText body n) \<and> isWhitespaceOrZeroWidth (nodeText body n ! k) \<longrightarrow>
      updateHighlightLineRangeEndScan env body oneChar s n k
        = updateHighlightLineRangeEndScan env body oneChar s n (Suc k)
      \<and> updateHighlightLineRangeStartScan env body oneChar s n (Suc k)
        = updateHighlightLineRangeStartScan env body oneChar s n k
      \<and> updateHighlightLineRangeEndScan2 env body oneChar s2 n k c
        = updateHighlightLineRangeEndScan2 env body oneChar s2 n (Suc k) c
      \<and> updateHighlightLineRangeStartScan2 env body oneChar s2 n (Suc k)
        = updateHighlightLineRangeStartScan2 env body oneChar s2 n k)
   \<and> probeRun (probedChar body) (endProbe env) s (updateHighlightLineRangeEnd env body oneChar s)
   \<and> probeRun (probedChar body) (endProbe2 env False) s2
        (updateHighlightLineRangeEnd2 env body oneChar s2)
   \<and> (startOffset (lineRange s) \<le> length (nodeText body (startContainer (lineRange s))) \<longrightarrow>
        probeRun (probedChar body) (startProbe env) s
          (updateHighlightLineRangeStart env body oneChar s))
   \<and> (startOffset (lineRange2 s2) \<le> length (nodeText body (startContainer (lineRange2 s2)))
        \<and> wellOrdered (lineRange2 s2) \<longrightarrow>
        probeRun (probedChar body) (startProbe2 env True) s2
          (updateHighlightLineRangeStart2 env body oneChar s2))
   \<and> ((\<forall>m j. \<not> probedChar blank m j) \<longrightarrow>
        updateHighlightLineRangeEnd env blank oneChar s = (False, s)
        \<and> updateHighlightLineRangeEnd2 env blank oneChar s2 = (False, s2))
   \<and> ((\<forall>m j. \<not> probedChar blank m j)
        \<and> startOffset (lineRange s) \<le> length (nodeText blank (startContainer (lineRange s)))
      \<longrightarrow> updateHighlightLineRangeStart env blank oneChar s = (False, s))
   \<and> ((\<forall>m j. \<not> probedChar blank m j)
        \<and> startOffset (lineRange2 s2) \<le> length (nodeText blank (startContainer (lineRange2 s2)))
        \<and> wellOrdered (lineRange2 s2)
      \<longrightarrow> updateHighlightLineRangeStart2 env blank oneChar s2 = (False, s2))
   \<and> (endPoint (lineRange (snd (updateHighlightLineRangeEnd env body oneChar s)))
         = endPoint (lineRange s)
       \<or> (\<exists>m j. probedChar body m j
            \<and> endPoint (lineRange (snd (updateHighlightLineRangeEnd env body oneChar s)))
                = (m, Suc j)))
   \<and> (startOffset (lineRange s) \<le> length (nodeText body (startContainer (lineRange s))) \<longrightarrow>
        startPoint (lineRange (snd (updateHighlightLineRangeStart env body oneChar s)))
          = startPoint (lineRange s)
        \<or> (\<exists>m j. probedChar body m j
             \<and> startPoint (lineRange (snd (updateHighlightLineRangeStart env body oneChar s)))
                 = (m, j)))
   \<and> (wellOrdered (lineRange2 s2) \<longrightarrow>
        endPoint (lineRange2 (snd (updateHighlightLineRangeEnd2 env body oneChar s2)))
          = endPoint (lineRange2 s2)
        \<or> (\<exists>m j. probedChar body m j
             \<and> endPoint (lineRange2 (snd (updateHighlightLineRangeEnd2 env body oneChar s2)))
                 = (m, Suc j)))
   \<and> (startOffset (lineRange2 s2) \<le> length (nodeText body (startContainer (lineRange2 s2)))
        \<and> wellOrdered (lineRange2 s2) \<longrightarrow>
        startPoint (lineRange2 (snd (updateHighlightLineRangeStart2 env body oneChar s2)))
          = startPoint (lineRange2 s2)
        \<or> (\<exists>m j. probedChar body m j
             \<and> startPoint (lineRange2 (snd (updateHighlightLineRangeStart2 env body oneChar s2)))
                 = (m, j)))"
proof (intro conjI impI)
  assume a: "k < length (nodeText body n) \<and> isWhitespaceOrZeroWidth (nodeText body n ! k)"
  from a show "updateHighlightLineRangeEndScan env body oneChar s n k
        = updateHighlightLineRangeEndScan env body oneChar s n (Suc k)"
    by (simp add: endScan_skip)
  from a startScan_skip[of "Suc k" body n env oneChar s]
  show "updateHighlightLineRangeStartScan env body oneChar s n (Suc k)
        = updateHighlightLineRangeStartScan env body oneChar s n k"
    by simp
  from a show "updateHighlightLineRangeEndScan2 env body oneChar s2 n k c
        = updateHighlightLineRangeEndScan2 env body oneChar s2 n (Suc k) c"
    by (simp add: endScan2_skip)
  from a startScan2_skip[of "Suc k" body n env oneChar s2]
  show "updateHighlightLineRangeStartScan2 env body oneChar s2 n (Suc k)
        = updateHighlightLineRangeStartScan2 env body oneChar s2 n k"
    by simp
next
  show "probeRun (probedChar body) (endProbe env) s (updateHighlightLineRangeEnd env body oneChar s)"
    by (rule endRun_probes)
  show "probeRun (probedChar body) (endProbe2 env False) s2
        (updateHighlightLineRangeEnd2 env body oneChar s2)"
    by (rule endRun2_probes_any)
next
  assume "startOffset (lineRange s) \<le> length (nodeText body (startContainer (lineRange s)))"
  then show "probeRun (probedChar body) (startProbe env) s
          (updateHighlightLineRangeStart env body oneChar s)"
    by (rule startRun_probes)
next
  assume "startOffset (lineRange2 s2) \<le> length (nodeText body (startContainer (lineRange2 s2)))
        \<and> wellOrdered (lineRange2 s2)"
  then show "probeRun (probedChar body) (startProbe2 env True) s2
          (updateHighlightLineRangeStart2 env body oneChar s2)"
    using startRun2_probes by blast
next
  assume a: "\<forall>m j. \<not> probedChar blank m j"
  show "updateHighlightLineRangeEnd env blank oneChar s = (False, s)"
    by (rule probeRun_none[OF a endRun_probes])
  show "updateHighlightLineRangeEnd2 env blank oneChar s2 = (False, s2)"
    by (rule probeRun_none[OF a endRun2_probes_any])
next
  assume a: "(\<forall>m j. \<not> probedChar blank m j)
        \<and> startOffset (lineRange s) \<le> length (nodeText blank (startContainer (lineRange s)))"
  then have a1: "\<forall>m j. \<not> probedChar blank m j"
    and a2: "startOffset (lineRange s) \<le> length (nodeText blank (startContainer (lineRange s)))"
    by simp_all
  show "updateHighlightLineRangeStart env blank oneChar s = (False, s)"
    by (rule probeRun_none[OF a1 startRun_probes[OF a2]])
next
  assume a: "(\<forall>m j. \<not> probedChar blank m j)
        \<and> startOffset (lineRange2 s2) \<le> length (nodeText blank (startContainer (lineRange2 s2)))
        \<and> wellOrdered (lineRange2 s2)"
  then have a1: "\<forall>m j. \<not> probedChar blank m j"
    and a2: "startOffset (lineRange2 s2) \<le> length (nodeText blank (startContainer (lineRange2 s2)))"
    and a3: "wellOrdered (lineRange2 s2)"
    by simp_all
  show "updateHighlightLineRangeStart2 env blank oneChar s2 = (False, s2)"
    by (rule probeRun_none[OF a1 startRun2_probes[OF a2 a3]])
next
  show "endPoint (lineRange (snd (updateHighlightLineRangeEnd env body oneChar s)))
         = endPoint (lineRange s)
       \<or> (\<exists>m j. probedChar body m j
            \<and> endPoint (lineRange (snd (updateHighlightLineRangeEnd env body oneChar s)))
                = (m, Suc j))"
    by (rule updateEnd_boundary)
next
  assume "startOffset (lineRange s) \<le> length (nodeText body (startContainer (lineRange s)))"
  then show "startPoint (lineRange (snd (updateHighlightLineRangeStart env body oneChar s)))
          = startPoint (lineRange s)
        \<or> (\<exists>m j. probedChar body m j
             \<and> startPoint (lineRange (snd (updateHighlightLineRangeStart env body oneChar s)))
                 = (m, j))"
    by (rule updateStart_boundary)
next
  assume "wellOrdered (lineRange2 s2)"
  then show "endPoint (lineRange2 (snd (updateHighlightLineRangeEnd2 env body oneChar s2)))
          = endPoint (lineRange2 s2)
        \<or> (\<exists>m j. probedChar body m j
             \<and> endPoint (lineRange2 (snd (updateHighlightLineRangeEnd2 env body oneChar s2)))
                 = (m, Suc j))"
    by (rule updateEnd2_boundary)
next
  assume "startOffset (lineRange2 s2) \<le> length (nodeText body (startContainer (lineRange2 s2)))
        \<and> wellOrdered (lineRange2 s2)"
  then show "startPoint (lineRange2 (snd (updateHighlightLineRangeStart2 env body oneChar s2)))
          = startPoint (lineRange2 s2)
        \<or> (\<exists>m j. probedChar body m j
             \<and> startPoint (lineRange2 (snd (updateHighlightLineRangeStart2 env body oneChar s2)))
                 = (m, j))"
    using updateStart2_boundary by blast
qed

lemma twoSpaces_blank: "\<not> probedChar twoSpaces m j"
proof (cases m)
  case Nil
  then show ?thesis by (simp add: probedChar_def nodeText_def twoSpaces_def)
next
  case (Cons i p)
  show ?thesis
  proof (cases p)
    case Nil
    have "j < 2 \<Longrightarrow> j = 0 \<or> j = 1" by arith
    then show ?thesis
      unfolding Cons Nil
      by (auto simp: probedChar_def nodeText_def twoSpaces_def isWhitespaceOrZeroWidth_def
          isJsWhitespace_def)
  next
    case (Cons i' p')
    then show ?thesis
      unfolding \<open>m = i # p\<close>
      by (simp add: probedChar_def nodeText_def twoSpaces_def)
  qed
qed

theorem whitespace_is_not_probed_witness:
  "1 < length (nodeText aSpaceB [0]) \<and> isWhitespaceOrZeroWidth (nodeText aSpaceB [0] ! 1)
   \<and> startOffset (lineRange freshLineRange)
        \<le> length (nodeText aSpaceB (startContainer (lineRange freshLineRange)))
   \<and> startOffset (lineRange2 freshLineRange2)
        \<le> length (nodeText aSpaceB (startContainer (lineRange2 freshLineRange2)))
   \<and> wellOrdered (lineRange2 freshLineRange2)
   \<and> (\<forall>m j. \<not> probedChar twoSpaces m j)
   \<and> startOffset (lineRange freshLineRange)
        \<le> length (nodeText twoSpaces (startContainer (lineRange freshLineRange)))
   \<and> startOffset (lineRange2 freshLineRange2)
        \<le> length (nodeText twoSpaces (startContainer (lineRange2 freshLineRange2)))
   \<and> updateHighlightLineRangeStartScan (fixedPitchLine None) aSpaceB True freshLineRange [0] (Suc 1)
       = updateHighlightLineRangeStartScan (fixedPitchLine None) aSpaceB True freshLineRange [0] 1
   \<and> updateHighlightLineRangeStart (fixedPitchLine None) twoSpaces True freshLineRange
       = (False, freshLineRange)
   \<and> updateHighlightLineRangeStart2 (fixedPitchLine None) twoSpaces True freshLineRange2
       = (False, freshLineRange2)
   \<and> startPoint (lineRange
        (snd (updateHighlightLineRangeStart (fixedPitchLine None) aSpaceB True freshLineRange)))
       = ([0], 0)
   \<and> linesSpannedChecks
        (snd (updateHighlightLineRangeStart (fixedPitchLine None) aSpaceB True freshLineRange)) = 1
   \<and> startPoint (lineRange2
        (snd (updateHighlightLineRangeStart2 (fixedPitchLine None) aSpaceB True freshLineRange2)))
       = ([0], 0)
   \<and> linesSpannedChecks2
        (snd (updateHighlightLineRangeStart2 (fixedPitchLine None) aSpaceB True freshLineRange2)) = 1"
proof -
  have h1: "1 < length (nodeText aSpaceB [0])" by code_simp
  have h2: "isWhitespaceOrZeroWidth (nodeText aSpaceB [0] ! 1)" by code_simp
  have h3: "startOffset (lineRange freshLineRange)
        \<le> length (nodeText aSpaceB (startContainer (lineRange freshLineRange)))" by code_simp
  have h4: "startOffset (lineRange2 freshLineRange2)
        \<le> length (nodeText aSpaceB (startContainer (lineRange2 freshLineRange2)))" by code_simp
  have h5: "wellOrdered (lineRange2 freshLineRange2)" by code_simp
  have h6: "\<forall>m j. \<not> probedChar twoSpaces m j" using twoSpaces_blank by blast
  have h7: "startOffset (lineRange freshLineRange)
        \<le> length (nodeText twoSpaces (startContainer (lineRange freshLineRange)))" by code_simp
  have h8: "startOffset (lineRange2 freshLineRange2)
        \<le> length (nodeText twoSpaces (startContainer (lineRange2 freshLineRange2)))" by code_simp
  have e1: "startPoint (lineRange
        (snd (updateHighlightLineRangeStart (fixedPitchLine None) aSpaceB True freshLineRange)))
       = ([0], 0)" by code_simp
  have e2: "linesSpannedChecks
        (snd (updateHighlightLineRangeStart (fixedPitchLine None) aSpaceB True freshLineRange)) = 1"
    by code_simp
  have e3: "startPoint (lineRange2
        (snd (updateHighlightLineRangeStart2 (fixedPitchLine None) aSpaceB True freshLineRange2)))
       = ([0], 0)" by code_simp
  have e4: "linesSpannedChecks2
        (snd (updateHighlightLineRangeStart2 (fixedPitchLine None) aSpaceB True freshLineRange2)) = 1"
    by code_simp
  from whitespace_is_not_probed[where env = "fixedPitchLine None" and body = aSpaceB
      and oneChar = True and s = freshLineRange and ?s2.0 = freshLineRange2 and n = "[0]"
      and k = 1 and c = True and blank = twoSpaces]
    h1 h2 h3 h4 h5 h6 h7 h8 e1 e2 e3 e4
  show ?thesis by simp
qed

section \<open>Properties of line resolution\<close>

subsection \<open>A seed with several client rectangles\<close>

lemma ex_Suc_less_Cons:
  "(\<exists>i. Suc i < length (x # xs) \<and> Q i)
     \<longleftrightarrow> (xs \<noteq> [] \<and> Q 0) \<or> (\<exists>i. Suc i < length xs \<and> Q (Suc i))"
proof
  assume "\<exists>i. Suc i < length (x # xs) \<and> Q i"
  then obtain i where i: "Suc i < length (x # xs)" "Q i" by blast
  show "(xs \<noteq> [] \<and> Q 0) \<or> (\<exists>i. Suc i < length xs \<and> Q (Suc i))"
  proof (cases i)
    case 0
    with i show ?thesis by auto
  next
    case (Suc j)
    with i show ?thesis by auto
  qed
next
  assume "(xs \<noteq> [] \<and> Q 0) \<or> (\<exists>i. Suc i < length xs \<and> Q (Suc i))"
  then show "\<exists>i. Suc i < length (x # xs) \<and> Q i"
  proof
    assume "xs \<noteq> [] \<and> Q 0"
    then have "Suc 0 < length (x # xs) \<and> Q 0" by (cases xs) auto
    then show ?thesis by blast
  next
    assume "\<exists>i. Suc i < length xs \<and> Q (Suc i)"
    then obtain i where "Suc i < length xs" "Q (Suc i)" by blast
    then have "Suc (Suc i) < length (x # xs) \<and> Q (Suc i)" by simp
    then show ?thesis by blast
  qed
qed

lemma hasMoreThanOne_iff:
  "hasMoreThanOne rectangles \<longleftrightarrow>
     (\<exists>i. Suc i < length rectangles
        \<and> rectOccupiesSpace (rectangles ! i) \<and> rectOccupiesSpace (rectangles ! Suc i)
        \<and> (rectX (rectangles ! i) \<noteq> rectX (rectangles ! Suc i)
           \<or> rectY (rectangles ! i) \<noteq> rectY (rectangles ! Suc i)
           \<or> rectWidth (rectangles ! i) \<noteq> rectWidth (rectangles ! Suc i)
           \<or> rectHeight (rectangles ! i) \<noteq> rectHeight (rectangles ! Suc i)))"
proof (induction rectangles rule: hasMoreThanOne.induct)
  case (1 rect1 rect2 rectangles)
  show ?case
    by (subst ex_Suc_less_Cons) (use 1 in auto)
next
  case (2 rect1)
  show ?case by simp
next
  case 3
  show ?case by simp
qed

lemma seedLineRange_single:
  "lineRange (seedLineRange n k s) = singleCharRange n k"
  by (simp add: seedLineRange_range singleCharRange_def)

lemma seedLineRange2_single:
  "lineRange2 (seedLineRange2 n k s) = singleCharRange n k"
  by (simp add: seedLineRange2_def seed_range singleCharRange_def)

lemma seedLineRange2_cache:
  "boundingClientRect (seedLineRange2 n k s) = None"
  "linesSpannedChecks2 (seedLineRange2 n k s) = linesSpannedChecks2 s"
  by (simp_all add: seedLineRange2_def setEnd2_def setStart2_def
      invalidateBoundingClientRectangle_def)

lemma setHighlightLineRange2_Inr:
  assumes "isTextNode body n" "nodeText body n \<noteq> []"
  shows "setHighlightLineRange2 env body (Some (n, ofs)) mouseY s =
           Inr (resolveLineFrom2 env body n (min ofs (length (nodeText body n) - 1)) mouseY
                  (seedLineRange2 n (min ofs (length (nodeText body n) - 1)) s))"
  using assms by (simp add: setHighlightLineRange2_def)

lemma resolveLineFrom_several:
  assumes "\<not> outsideVertically (getBoundingClientRect env (lineRange seeded)) mouseY"
    and "hasMoreThanOne (getClientRects env (lineRange seeded))"
  shows "resolveLineFrom env body n k mouseY seeded
           = collapseLine (setInitialRect (getBoundingClientRect env (lineRange seeded)) seeded)"
  using assms by (simp add: resolveLineFrom_def setInitialRect_def)

lemma resolveLineFrom2_several:
  assumes "boundingClientRect seeded = None"
    and "\<not> outsideVertically (getBoundingClientRect env (lineRange2 seeded)) mouseY"
    and "1 < length (getClientRects env (lineRange2 seeded))"
  shows "resolveLineFrom2 env body n k mouseY seeded
           = collapse2 (seeded\<lparr>boundingClientRect :=
                                  Some (getBoundingClientRect env (lineRange2 seeded))\<rparr>)"
  using assms by (simp add: resolveLineFrom2_def getBoundingClientRect2_def)

lemma seed2_several_collapses:
  assumes t: "isTextNode body n" and ne: "nodeText body n \<noteq> []"
    and v: "\<not> outsideVertically
         (getBoundingClientRect env
            (singleCharRange n (min ofs (length (nodeText body n) - 1)))) mouseY"
    and m: "1 < length (getClientRects env
                 (singleCharRange n (min ofs (length (nodeText body n) - 1))))"
  shows "\<exists>s'. setHighlightLineRange2 env body (Some (n, ofs)) mouseY s2 = Inr s'
              \<and> collapsed (lineRange2 s') \<and> linesSpannedChecks2 s' = linesSpannedChecks2 s2"
proof -
  let ?k = "min ofs (length (nodeText body n) - 1)"
  from v have v': "\<not> outsideVertically
       (getBoundingClientRect env (lineRange2 (seedLineRange2 n ?k s2))) mouseY"
    by (simp add: seedLineRange2_single)
  from m have m': "1 < length (getClientRects env (lineRange2 (seedLineRange2 n ?k s2)))"
    by (simp add: seedLineRange2_single)
  have "setHighlightLineRange2 env body (Some (n, ofs)) mouseY s2
          = Inr (collapse2 ((seedLineRange2 n ?k s2)\<lparr>boundingClientRect :=
                   Some (getBoundingClientRect env (lineRange2 (seedLineRange2 n ?k s2)))\<rparr>))"
    unfolding setHighlightLineRange2_Inr[OF t ne]
      resolveLineFrom2_several[OF seedLineRange2_cache(1) v' m'] ..
  then show ?thesis
    by (simp add: collapse2_def collapsed_collapse invalidateBoundingClientRectangle_def
        seedLineRange2_cache)
qed

text \<open>
  C8, as the code has it. \<^verbatim>\<open>hasMoreThanOne\<close> of part_001 is true exactly when two
  consecutive client rectangles both occupy space and differ in \<^verbatim>\<open>x\<close>, \<^verbatim>\<open>y\<close>,
  \<^verbatim>\<open>width\<close> or \<^verbatim>\<open>height\<close>. When the one-character seed range passes the vertical
  check and its client rectangles satisfy that, line resolution of part_001 returns
  normally with the range collapsed and the counter at zero, so without any expansion.
  Line resolution of part_002 does the same, with the counter as it was, when the seed
  has more than one client rectangle, whether the rectangles occupy space or not, and so
  in particular when more than one of them occupies space.
\<close>

theorem seed_with_several_rectangles_collapses:
  "(hasMoreThanOne rectangles \<longleftrightarrow>
     (\<exists>i. Suc i < length rectangles
        \<and> rectOccupiesSpace (rectangles ! i) \<and> rectOccupiesSpace (rectangles ! Suc i)
        \<and> (rectX (rectangles ! i) \<noteq> rectX (rectangles ! Suc i)
           \<or> rectY (rectangles ! i) \<noteq> rectY (rectangles ! Suc i)
           \<or> rectWidth (rectangles ! i) \<noteq> rectWidth (rectangles ! Suc i)
           \<or> rectHeight (rectangles ! i) \<noteq> rectHeight (rectangles ! Suc i))))
   \<and> (isTextNode body n \<and> nodeText body n \<noteq> []
      \<and> \<not> outsideVertically
            (getBoundingClientRect env
               (singleCharRange n (min ofs (length (nodeText body n) - 1)))) mouseY
      \<and> hasMoreThanOne
            (getClientRects env (singleCharRange n (min ofs (length (nodeText body n) - 1))))
    \<longrightarrow> (\<exists>s'. setHighlightLineRange env body (Some (n, ofs)) mouseY s = Inr s'
              \<and> collapsed (lineRange s') \<and> linesSpannedChecks s' = 0))
   \<and> (isTextNode body n \<and> nodeText body n \<noteq> []
      \<and> \<not> outsideVertically
            (getBoundingClientRect env
               (singleCharRange n (min ofs (length (nodeText body n) - 1)))) mouseY
      \<and> 1 < length (getClientRects env
                     (singleCharRange n (min ofs (length (nodeText body n) - 1))))
    \<longrightarrow> (\<exists>s'. setHighlightLineRange2 env body (Some (n, ofs)) mouseY s2 = Inr s'
              \<and> collapsed (lineRange2 s')
              \<and> linesSpannedChecks2 s' = linesSpannedChecks2 s2))
   \<and> (isTextNode body n \<and> nodeText body n \<noteq> []
      \<and> \<not> outsideVertically
            (getBoundingClientRect env
               (singleCharRange n (min ofs (length (nodeText body n) - 1)))) mouseY
      \<and> 1 < length (filter rectOccupiesSpace
                     (getClientRects env
                        (singleCharRange n (min ofs (length (nodeText body n) - 1)))))
    \<longrightarrow> (\<exists>s'. setHighlightLineRange2 env body (Some (n, ofs)) mouseY s2 = Inr s'
              \<and> collapsed (lineRange2 s')
              \<and> linesSpannedChecks2 s' = linesSpannedChecks2 s2))"
proof (intro conjI impI)
  show "hasMoreThanOne rectangles \<longleftrightarrow>
     (\<exists>i. Suc i < length rectangles
        \<and> rectOccupiesSpace (rectangles ! i) \<and> rectOccupiesSpace (rectangles ! Suc i)
        \<and> (rectX (rectangles ! i) \<noteq> rectX (rectangles ! Suc i)
           \<or> rectY (rectangles ! i) \<noteq> rectY (rectangles ! Suc i)
           \<or> rectWidth (rectangles ! i) \<noteq> rectWidth (rectangles ! Suc i)
           \<or> rectHeight (rectangles ! i) \<noteq> rectHeight (rectangles ! Suc i)))"
    by (rule hasMoreThanOne_iff)
next
  let ?k = "min ofs (length (nodeText body n) - 1)"
  assume a: "isTextNode body n \<and> nodeText body n \<noteq> []
      \<and> \<not> outsideVertically (getBoundingClientRect env (singleCharRange n ?k)) mouseY
      \<and> hasMoreThanOne (getClientRects env (singleCharRange n ?k))"
  then have t: "isTextNode body n" and ne: "nodeText body n \<noteq> []" by simp_all
  from a have v: "\<not> outsideVertically
       (getBoundingClientRect env (lineRange (seedLineRange n ?k s))) mouseY"
    and m: "hasMoreThanOne (getClientRects env (lineRange (seedLineRange n ?k s)))"
    by (simp_all add: seedLineRange_single)
  have "setHighlightLineRange env body (Some (n, ofs)) mouseY s
          = Inr (collapseLine (setInitialRect
                   (getBoundingClientRect env (lineRange (seedLineRange n ?k s)))
                   (seedLineRange n ?k s)))"
    unfolding setHighlightLineRange_Inr[OF t ne] resolveLineFrom_several[OF v m] ..
  then show "\<exists>s'. setHighlightLineRange env body (Some (n, ofs)) mouseY s = Inr s'
              \<and> collapsed (lineRange s') \<and> linesSpannedChecks s' = 0"
    by (simp add: collapseLine_def collapsed_collapse setInitialRect_def)
next
  let ?k = "min ofs (length (nodeText body n) - 1)"
  assume a: "isTextNode body n \<and> nodeText body n \<noteq> []
      \<and> \<not> outsideVertically (getBoundingClientRect env (singleCharRange n ?k)) mouseY
      \<and> 1 < length (getClientRects env (singleCharRange n ?k))"
  then show "\<exists>s'. setHighlightLineRange2 env body (Some (n, ofs)) mouseY s2 = Inr s'
              \<and> collapsed (lineRange2 s') \<and> linesSpannedChecks2 s' = linesSpannedChecks2 s2"
    using seed2_several_collapses by blast
next
  let ?k = "min ofs (length (nodeText body n) - 1)"
  assume a: "isTextNode body n \<and> nodeText body n \<noteq> []
      \<and> \<not> outsideVertically (getBoundingClientRect env (singleCharRange n ?k)) mouseY
      \<and> 1 < length (filter rectOccupiesSpace (getClientRects env (singleCharRange n ?k)))"
  then have "1 < length (filter rectOccupiesSpace (getClientRects env (singleCharRange n ?k)))"
    by simp
  also have "\<dots> \<le> length (getClientRects env (singleCharRange n ?k))" by (rule length_filter_le)
  finally have "1 < length (getClientRects env (singleCharRange n ?k))" .
  with a show "\<exists>s'. setHighlightLineRange2 env body (Some (n, ofs)) mouseY s2 = Inr s'
              \<and> collapsed (lineRange2 s') \<and> linesSpannedChecks2 s' = linesSpannedChecks2 s2"
    using seed2_several_collapses by blast
qed

theorem seed_with_several_rectangles_collapses_witness:
  "isTextNode aSpaceB [0] \<and> nodeText aSpaceB [0] \<noteq> []
   \<and> \<not> outsideVertically
         (getBoundingClientRect adjacentRects
            (singleCharRange [0] (min 0 (length (nodeText aSpaceB [0]) - 1)))) 10
   \<and> hasMoreThanOne
         (getClientRects adjacentRects
            (singleCharRange [0] (min 0 (length (nodeText aSpaceB [0]) - 1))))
   \<and> 1 < length (filter rectOccupiesSpace
                  (getClientRects adjacentRects
                     (singleCharRange [0] (min 0 (length (nodeText aSpaceB [0]) - 1)))))
   \<and> 1 < length (getClientRects adjacentRects
                  (singleCharRange [0] (min 0 (length (nodeText aSpaceB [0]) - 1))))
   \<and> (\<exists>s'. setHighlightLineRange adjacentRects aSpaceB (Some ([0], 0)) 10 newLineRange = Inr s'
          \<and> collapsed (lineRange s') \<and> linesSpannedChecks s' = 0)
   \<and> (\<exists>s'. setHighlightLineRange2 adjacentRects aSpaceB (Some ([0], 0)) 10 newLineRange2 = Inr s'
          \<and> collapsed (lineRange2 s')
          \<and> linesSpannedChecks2 s' = linesSpannedChecks2 newLineRange2)
   \<and> map_sum id lineRange
        (setHighlightLineRange adjacentRects aSpaceB (Some ([0], 0)) 10 newLineRange)
       = Inr \<lparr>startContainer = [0], startOffset = 1, endContainer = [0], endOffset = 1\<rparr>"
proof -
  have h1: "isTextNode aSpaceB [0]" by code_simp
  have h2: "nodeText aSpaceB [0] \<noteq> []" by code_simp
  have h3: "\<not> outsideVertically
         (getBoundingClientRect adjacentRects
            (singleCharRange [0] (min 0 (length (nodeText aSpaceB [0]) - 1)))) 10" by code_simp
  have h4: "hasMoreThanOne
         (getClientRects adjacentRects
            (singleCharRange [0] (min 0 (length (nodeText aSpaceB [0]) - 1))))" by code_simp
  have h5: "1 < length (filter rectOccupiesSpace
                  (getClientRects adjacentRects
                     (singleCharRange [0] (min 0 (length (nodeText aSpaceB [0]) - 1)))))"
    by code_simp
  have h6: "1 < length (getClientRects adjacentRects
                  (singleCharRange [0] (min 0 (length (nodeText aSpaceB [0]) - 1))))"
    by code_simp
  have e1: "map_sum id lineRange
        (setHighlightLineRange adjacentRects aSpaceB (Some ([0], 0)) 10 newLineRange)
       = Inr \<lparr>startContainer = [0], startOffset = 1, endContainer = [0], endOffset = 1\<rparr>"
    by code_simp
  from seed_with_several_rectangles_collapses[where body = aSpaceB and n = "[0]" and ofs = 0
      and env = adjacentRects and mouseY = 10 and s = newLineRange and ?s2.0 = newLineRange2]
    h1 h2 h3 h4 h5 h6 e1
  show ?thesis by blast
qed

text \<open>
  Against C8 as stated: on the layout whose client rectangles are two rectangles that
  occupy space with an empty one between them, the seed on \<open>a\<close> passes the vertical
  check and has two client rectangles that occupy space, and line resolution of
  part_001 expands it to the whole line.
\<close>

theorem seed_with_gapped_rectangles_expands:
  "\<not> outsideVertically (getBoundingClientRect gappedRects (singleCharRange [0] 0)) 10
   \<and> length (filter rectOccupiesSpace (getClientRects gappedRects (singleCharRange [0] 0))) = 2
   \<and> map_sum id lineRange
        (setHighlightLineRange gappedRects aSpaceB (Some ([0], 0)) 10 newLineRange)
       = Inr \<lparr>startContainer = [0], startOffset = 0, endContainer = [0], endOffset = 3\<rparr>
   \<and> \<not> collapsed \<lparr>startContainer = [0], startOffset = 0, endContainer = [0], endOffset = 3\<rparr>"
  by (intro conjI; code_simp)

subsection \<open>A seed on whitespace\<close>

lemma collapse2_collapsed: "collapsed (lineRange2 (collapse2 s))"
  by (simp add: collapse2_def collapsed_collapse invalidateBoundingClientRectangle_def)

lemma collapseLine_collapsed: "collapsed (lineRange (collapseLine s))"
  by (simp add: collapseLine_def collapsed_collapse)

lemma pointsAtEdgeWhitespace_iff:
  "pointsAtEdgeWhitespace body n k r \<longleftrightarrow>
     isWhitespaceOrZeroWidth (nodeText body n ! k)
     \<and> (startPoint r = (n, k) \<or> endPoint r = (n, Suc k))"
  by (auto simp: pointsAtEdgeWhitespace_def startPoint_def endPoint_def)

lemma resolveLineFrom_expanded:
  assumes "\<not> outsideVertically (getBoundingClientRect env (singleCharRange n k)) mouseY"
    and "\<not> hasMoreThanOne (getClientRects env (singleCharRange n k))"
  shows "resolveLineFrom env body n k mouseY (seedLineRange n k s)
           = (if isWhitespaceOrZeroWidth (nodeText body n ! k)
                 \<and> (startPoint (lineRange (expandedSeed env body n k s)) = (n, k)
                    \<or> endPoint (lineRange (expandedSeed env body n k s)) = (n, Suc k))
              then collapseLine (expandedSeed env body n k s)
              else expandedSeed env body n k s)"
proof -
  have l: "\<And>r x. lineRange (setInitialRect r x) = lineRange x"
    by (simp add: setInitialRect_def)
  show ?thesis
    unfolding resolveLineFrom_def expandedSeed_def pointsAtEdgeWhitespace_iff l
      seedLineRange_single
    using assms by (simp only: if_False)
qed

lemma resolveLineFrom2_expanded:
  assumes "\<not> outsideVertically (getBoundingClientRect env (singleCharRange n k)) mouseY"
    and "\<not> 1 < length (getClientRects env (singleCharRange n k))"
  shows "resolveLineFrom2 env body n k mouseY (seedLineRange2 n k s)
           = (if isWhitespaceOrZeroWidth (nodeText body n ! k)
                 \<and> (startPoint (lineRange2 (expandedSeed2 env body n k s)) = (n, k)
                    \<or> endPoint (lineRange2 (expandedSeed2 env body n k s)) = (n, Suc k))
              then collapse2 (expandedSeed2 env body n k s)
              else expandedSeed2 env body n k s)"
proof -
  have f: "fst (getBoundingClientRect2 env (seedLineRange2 n k s))
             = getBoundingClientRect env (singleCharRange n k)"
    by (simp add: getBoundingClientRect2_def seedLineRange2_cache seedLineRange2_single)
  have l: "lineRange2 (snd (getBoundingClientRect2 env (seedLineRange2 n k s)))
             = singleCharRange n k"
    by (simp add: getBoundingClientRect2_def seedLineRange2_cache seedLineRange2_single)
  show ?thesis
    unfolding resolveLineFrom2_def expandedSeed2_def pointsAtEdgeWhitespace_iff f l
    using assms by (simp only: if_False)
qed

text \<open>
  C5, as the code has it. For a hit in a non-empty text run whose one-character seed
  passes the vertical check and the check for several client rectangles, line resolution
  returns normally, and what it returns is decided by the range as it is when the
  expansion has finished: if the seed character is whitespace or zero-width and a
  boundary of the expanded range still sits at the seed (the start at the seed offset of
  the seed run, or the end right after it), the result is the expanded range collapsed;
  otherwise the result is the expanded range itself. A collapsed range object has a
  collapsed range. The seed offset is the hit offset, lowered to the last character of
  the run. Stated for both parts of the source.
\<close>

theorem whitespace_seed_at_expanded_boundary_collapses:
  "(isTextNode body n \<and> nodeText body n \<noteq> []
      \<and> \<not> outsideVertically
            (getBoundingClientRect env (singleCharRange n (seedOffset body n ofs))) mouseY
      \<and> \<not> hasMoreThanOne (getClientRects env (singleCharRange n (seedOffset body n ofs)))
    \<longrightarrow> setHighlightLineRange env body (Some (n, ofs)) mouseY s
          = Inr (if isWhitespaceOrZeroWidth (nodeText body n ! seedOffset body n ofs)
                    \<and> (startPoint (lineRange (expandedSeed env body n (seedOffset body n ofs) s))
                          = (n, seedOffset body n ofs)
                       \<or> endPoint (lineRange (expandedSeed env body n (seedOffset body n ofs) s))
                          = (n, Suc (seedOffset body n ofs)))
                 then collapseLine (expandedSeed env body n (seedOffset body n ofs) s)
                 else expandedSeed env body n (seedOffset body n ofs) s))
   \<and> collapsed (lineRange (collapseLine (expandedSeed env body n (seedOffset body n ofs) s)))
   \<and> (isTextNode body n \<and> nodeText body n \<noteq> []
      \<and> \<not> outsideVertically
            (getBoundingClientRect env (singleCharRange n (seedOffset body n ofs))) mouseY
      \<and> \<not> 1 < length (getClientRects env (singleCharRange n (seedOffset body n ofs)))
    \<longrightarrow> setHighlightLineRange2 env body (Some (n, ofs)) mouseY s2
          = Inr (if isWhitespaceOrZeroWidth (nodeText body n ! seedOffset body n ofs)
                    \<and> (startPoint (lineRange2 (expandedSeed2 env body n (seedOffset body n ofs) s2))
                          = (n, seedOffset body n ofs)
                       \<or> endPoint (lineRange2 (expandedSeed2 env body n (seedOffset body n ofs) s2))
                          = (n, Suc (seedOffset body n ofs)))
                 then collapse2 (expandedSeed2 env body n (seedOffset body n ofs) s2)
                 else expandedSeed2 env body n (seedOffset body n ofs) s2))
   \<and> collapsed (lineRange2 (collapse2 (expandedSeed2 env body n (seedOffset body n ofs) s2)))"
proof (intro conjI impI)
  assume a: "isTextNode body n \<and> nodeText body n \<noteq> []
      \<and> \<not> outsideVertically
            (getBoundingClientRect env (singleCharRange n (seedOffset body n ofs))) mouseY
      \<and> \<not> hasMoreThanOne (getClientRects env (singleCharRange n (seedOffset body n ofs)))"
  then have t: "isTextNode body n" and ne: "nodeText body n \<noteq> []"
    and v: "\<not> outsideVertically
            (getBoundingClientRect env (singleCharRange n (seedOffset body n ofs))) mouseY"
    and m: "\<not> hasMoreThanOne (getClientRects env (singleCharRange n (seedOffset body n ofs)))"
    by simp_all
  show "setHighlightLineRange env body (Some (n, ofs)) mouseY s
          = Inr (if isWhitespaceOrZeroWidth (nodeText body n ! seedOffset body n ofs)
                    \<and> (startPoint (lineRange (expandedSeed env body n (seedOffset body n ofs) s))
                          = (n, seedOffset body n ofs)
                       \<or> endPoint (lineRange (expandedSeed env body n (seedOffset body n ofs) s))
                          = (n, Suc (seedOffset body n ofs)))
                 then collapseLine (expandedSeed env body n (seedOffset body n ofs) s)
                 else expandedSeed env body n (seedOffset body n ofs) s)"
    unfolding setHighlightLineRange_Inr[OF t ne] seedOffset_def[symmetric]
      resolveLineFrom_expanded[OF v m] ..
next
  show "collapsed (lineRange (collapseLine (expandedSeed env body n (seedOffset body n ofs) s)))"
    by (rule collapseLine_collapsed)
next
  assume a: "isTextNode body n \<and> nodeText body n \<noteq> []
      \<and> \<not> outsideVertically
            (getBoundingClientRect env (singleCharRange n (seedOffset body n ofs))) mouseY
      \<and> \<not> 1 < length (getClientRects env (singleCharRange n (seedOffset body n ofs)))"
  then have t: "isTextNode body n" and ne: "nodeText body n \<noteq> []"
    and v: "\<not> outsideVertically
            (getBoundingClientRect env (singleCharRange n (seedOffset body n ofs))) mouseY"
    and m: "\<not> 1 < length (getClientRects env (singleCharRange n (seedOffset body n ofs)))"
    by simp_all
  show "setHighlightLineRange2 env body (Some (n, ofs)) mouseY s2
          = Inr (if isWhitespaceOrZeroWidth (nodeText body n ! seedOffset body n ofs)
                    \<and> (startPoint (lineRange2 (expandedSeed2 env body n (seedOffset body n ofs) s2))
                          = (n, seedOffset body n ofs)
                       \<or> endPoint (lineRange2 (expandedSeed2 env body n (seedOffset body n ofs) s2))
                          = (n, Suc (seedOffset body n ofs)))
                 then collapse2 (expandedSeed2 env body n (seedOffset body n ofs) s2)
                 else expandedSeed2 env body n (seedOffset body n ofs) s2)"
    unfolding setHighlightLineRange2_Inr[OF t ne] seedOffset_def[symmetric]
      resolveLineFrom2_expanded[OF v m] ..
next
  show "collapsed (lineRange2 (collapse2 (expandedSeed2 env body n (seedOffset body n ofs) s2)))"
    by (rule collapse2_collapsed)
qed

theorem whitespace_seed_at_expanded_boundary_collapses_witness:
  "isTextNode leadingSpace [0] \<and> nodeText leadingSpace [0] \<noteq> []
   \<and> \<not> outsideVertically
         (getBoundingClientRect (fixedPitchLine None)
            (singleCharRange [0] (seedOffset leadingSpace [0] 0))) 10
   \<and> \<not> hasMoreThanOne
         (getClientRects (fixedPitchLine None)
            (singleCharRange [0] (seedOffset leadingSpace [0] 0)))
   \<and> \<not> 1 < length (getClientRects (fixedPitchLine None)
                      (singleCharRange [0] (seedOffset leadingSpace [0] 0)))
   \<and> isWhitespaceOrZeroWidth (nodeText leadingSpace [0] ! seedOffset leadingSpace [0] 0)
   \<and> lineRange (expandedSeed (fixedPitchLine None) leadingSpace [0]
                   (seedOffset leadingSpace [0] 0) newLineRange)
       = \<lparr>startContainer = [0], startOffset = 0, endContainer = [0], endOffset = 3\<rparr>
   \<and> lineRange2 (expandedSeed2 (fixedPitchLine None) leadingSpace [0]
                    (seedOffset leadingSpace [0] 0) newLineRange2)
       = \<lparr>startContainer = [0], startOffset = 0, endContainer = [0], endOffset = 3\<rparr>
   \<and> setHighlightLineRange (fixedPitchLine None) leadingSpace (Some ([0], 0)) 10 newLineRange
       = Inr (collapseLine (expandedSeed (fixedPitchLine None) leadingSpace [0]
                              (seedOffset leadingSpace [0] 0) newLineRange))
   \<and> setHighlightLineRange2 (fixedPitchLine None) leadingSpace (Some ([0], 0)) 10 newLineRange2
       = Inr (collapse2 (expandedSeed2 (fixedPitchLine None) leadingSpace [0]
                           (seedOffset leadingSpace [0] 0) newLineRange2))
   \<and> map_sum id lineRange
        (setHighlightLineRange (fixedPitchLine None) leadingSpace (Some ([0], 0)) 10 newLineRange)
       = Inr \<lparr>startContainer = [0], startOffset = 3, endContainer = [0], endOffset = 3\<rparr>
   \<and> map_sum id lineRange2
        (setHighlightLineRange2 (fixedPitchLine None) leadingSpace (Some ([0], 0)) 10 newLineRange2)
       = Inr \<lparr>startContainer = [0], startOffset = 3, endContainer = [0], endOffset = 3\<rparr>"
proof -
  have h1: "isTextNode leadingSpace [0]" by code_simp
  have h2: "nodeText leadingSpace [0] \<noteq> []" by code_simp
  have h3: "\<not> outsideVertically
         (getBoundingClientRect (fixedPitchLine None)
            (singleCharRange [0] (seedOffset leadingSpace [0] 0))) 10" by code_simp
  have h4: "\<not> hasMoreThanOne
         (getClientRects (fixedPitchLine None)
            (singleCharRange [0] (seedOffset leadingSpace [0] 0)))" by code_simp
  have h5: "\<not> 1 < length (getClientRects (fixedPitchLine None)
                      (singleCharRange [0] (seedOffset leadingSpace [0] 0)))" by code_simp
  have h6: "isWhitespaceOrZeroWidth (nodeText leadingSpace [0] ! seedOffset leadingSpace [0] 0)"
    by code_simp
  have k: "seedOffset leadingSpace [0] 0 = 0" by (simp add: seedOffset_def)
  have e1: "lineRange (expandedSeed (fixedPitchLine None) leadingSpace [0]
                   (seedOffset leadingSpace [0] 0) newLineRange)
       = \<lparr>startContainer = [0], startOffset = 0, endContainer = [0], endOffset = 3\<rparr>"
    by code_simp
  have e2: "lineRange2 (expandedSeed2 (fixedPitchLine None) leadingSpace [0]
                    (seedOffset leadingSpace [0] 0) newLineRange2)
       = \<lparr>startContainer = [0], startOffset = 0, endContainer = [0], endOffset = 3\<rparr>"
    by code_simp
  have e3: "map_sum id lineRange
        (setHighlightLineRange (fixedPitchLine None) leadingSpace (Some ([0], 0)) 10 newLineRange)
       = Inr \<lparr>startContainer = [0], startOffset = 3, endContainer = [0], endOffset = 3\<rparr>"
    by code_simp
  have e4: "map_sum id lineRange2
        (setHighlightLineRange2 (fixedPitchLine None) leadingSpace (Some ([0], 0)) 10 newLineRange2)
       = Inr \<lparr>startContainer = [0], startOffset = 3, endContainer = [0], endOffset = 3\<rparr>"
    by code_simp
  have p1: "startPoint (lineRange (expandedSeed (fixedPitchLine None) leadingSpace [0]
                   (seedOffset leadingSpace [0] 0) newLineRange))
             = ([0], seedOffset leadingSpace [0] 0)"
    unfolding e1 by (simp add: startPoint_def k)
  have p2: "startPoint (lineRange2 (expandedSeed2 (fixedPitchLine None) leadingSpace [0]
                   (seedOffset leadingSpace [0] 0) newLineRange2))
             = ([0], seedOffset leadingSpace [0] 0)"
    unfolding e2 by (simp add: startPoint_def k)
  from whitespace_seed_at_expanded_boundary_collapses[where body = leadingSpace and n = "[0]"
      and ofs = 0 and env = "fixedPitchLine None" and mouseY = 10 and s = newLineRange
      and ?s2.0 = newLineRange2] h1 h2 h3 h4 h5 h6 p1 p2
  have r1: "setHighlightLineRange (fixedPitchLine None) leadingSpace (Some ([0], 0)) 10 newLineRange
       = Inr (collapseLine (expandedSeed (fixedPitchLine None) leadingSpace [0]
                              (seedOffset leadingSpace [0] 0) newLineRange))"
    and r2: "setHighlightLineRange2 (fixedPitchLine None) leadingSpace (Some ([0], 0)) 10 newLineRange2
       = Inr (collapse2 (expandedSeed2 (fixedPitchLine None) leadingSpace [0]
                           (seedOffset leadingSpace [0] 0) newLineRange2))"
    by simp_all
  from h1 h2 h3 h4 h5 h6 e1 e2 r1 r2 e3 e4 show ?thesis by blast
qed

text \<open>
  Against the last part of C5 as stated: on the document \<open>a b\<close>, laid out on one line,
  the seed on the space between the two letters is whitespace, and line resolution
  leaves the whole line, in both parts.
\<close>

theorem whitespace_seed_between_words_expands:
  "isWhitespaceOrZeroWidth (nodeText aSpaceB [0] ! 1)
   \<and> map_sum id lineRange
        (setHighlightLineRange (fixedPitchLine None) aSpaceB (Some ([0], 1)) 10 newLineRange)
       = Inr \<lparr>startContainer = [0], startOffset = 0, endContainer = [0], endOffset = 3\<rparr>
   \<and> map_sum id lineRange2
        (setHighlightLineRange2 (fixedPitchLine None) aSpaceB (Some ([0], 1)) 10 newLineRange2)
       = Inr \<lparr>startContainer = [0], startOffset = 0, endContainer = [0], endOffset = 3\<rparr>
   \<and> \<not> collapsed \<lparr>startContainer = [0], startOffset = 0, endContainer = [0], endOffset = 3\<rparr>"
  by (intro conjI; code_simp)

subsection \<open>The boundaries of the line range of part_002\<close>

lemma endProbe2_accept_range:
  assumes "endProbe2 env True n k s r" "fst r"
  shows "lineRange2 (snd r) = (lineRange2 s)\<lparr>endContainer := n, endOffset := Suc k\<rparr>
         \<and> wellOrdered (lineRange2 (snd r))"
proof -
  from assms(1) obtain c where r: "r = tryToExpandEnd2 env n (Suc k) c s"
    and wo: "wellOrdered (lineRange2 s)"
    and af: "\<not> isBefore (n, k) (endContainer (lineRange2 s), endOffset (lineRange2 s))"
    by (auto simp: endProbe2_def)
  from wo af have ns: "\<not> isBefore (n, Suc k) (startContainer (lineRange2 s), startOffset (lineRange2 s))"
    by (auto simp: wellOrdered_def isBefore_less less_prod_def)
  from tryToExpandEnd2_outcome[of env n "Suc k" c s] assms(2) r
  have "lineRange2 (snd r) = setEnd n (Suc k) (lineRange2 s)" by auto
  with setEnd_later[OF ns] ns show ?thesis by (simp add: wellOrdered_def)
qed

lemma startProbe2_accept_range:
  assumes "startProbe2 env True n k s r" "fst r"
  shows "lineRange2 (snd r) = (lineRange2 s)\<lparr>startContainer := n, startOffset := k\<rparr>
         \<and> wellOrdered (lineRange2 (snd r))"
proof -
  from assms(1) obtain c where r: "r = tryToExpandStart2 env n k c s"
    and wo: "wellOrdered (lineRange2 s)"
    and af: "isBefore (n, k) (startContainer (lineRange2 s), startOffset (lineRange2 s))"
    by (auto simp: startProbe2_def)
  from wo af have ns: "\<not> isBefore (endContainer (lineRange2 s), endOffset (lineRange2 s)) (n, k)"
    by (auto simp: wellOrdered_def isBefore_less)
  from tryToExpandStart2_outcome[of env n k c s] assms(2) r
  have "lineRange2 (snd r) = setStart n k (lineRange2 s)" by auto
  with setStart_earlier[OF ns] ns show ?thesis by (simp add: wellOrdered_def)
qed

lemma endProbe2_anchored:
  "\<forall>n k s r. probedChar body n k \<longrightarrow> endProbe2 env True n k s r \<longrightarrow>
     anchored2 body s \<longrightarrow> anchored2 body (snd r)"
proof (intro allI impI)
  fix n k s r
  assume pc: "probedChar body n k" and p: "endProbe2 env True n k s r" and a: "anchored2 body s"
  show "anchored2 body (snd r)"
  proof (cases "fst r")
    case False
    from endProbe2_rollback[OF p False] a show ?thesis by (simp add: anchored2_def)
  next
    case True
    from endProbe2_accept_range[OF p True] a pc show ?thesis
      by (auto simp: anchored2_def rangeInText_def probedChar_def)
  qed
qed

lemma startProbe2_anchored:
  "\<forall>n k s r. probedChar body n k \<longrightarrow> startProbe2 env True n k s r \<longrightarrow>
     anchored2 body s \<longrightarrow> anchored2 body (snd r)"
proof (intro allI impI)
  fix n k s r
  assume pc: "probedChar body n k" and p: "startProbe2 env True n k s r" and a: "anchored2 body s"
  show "anchored2 body (snd r)"
  proof (cases "fst r")
    case False
    from startProbe2_rollback[OF p False] a show ?thesis by (simp add: anchored2_def)
  next
    case True
    from startProbe2_accept_range[OF p True] a pc show ?thesis
      by (auto simp: anchored2_def rangeInText_def probedChar_def)
  qed
qed

lemma updateEnd2_anchored:
  assumes "anchored2 body s"
  shows "anchored2 body (snd (updateHighlightLineRangeEnd2 env body oneChar s))"
proof -
  from assms have wo: "wellOrdered (lineRange2 s)" by (simp add: anchored2_def)
  from probeRun_invariant[where attempt = "endProbe2 env True" and P = "probedChar body"
      and I = "anchored2 body", OF endProbe2_anchored endRun2_probes[OF wo] assms]
  show ?thesis .
qed

lemma updateStart2_anchored:
  assumes "anchored2 body s"
  shows "anchored2 body (snd (updateHighlightLineRangeStart2 env body oneChar s))"
proof -
  from assms have wo: "wellOrdered (lineRange2 s)"
    and le: "startOffset (lineRange2 s) \<le> length (nodeText body (startContainer (lineRange2 s)))"
    by (simp_all add: anchored2_def rangeInText_def)
  from probeRun_invariant[where attempt = "startProbe2 env True" and P = "probedChar body"
      and I = "anchored2 body", OF startProbe2_anchored startRun2_probes[OF le wo] assms]
  show ?thesis .
qed

lemma alternateExpansion2_anchored:
  "anchored2 body s \<Longrightarrow> anchored2 body (snd (snd (alternateExpansion2 env body s)))"
proof (induction env body s rule: alternateExpansion2.induct)
  case (1 env body s)
  let ?e = "updateHighlightLineRangeEnd2 env body True s"
  let ?b = "updateHighlightLineRangeStart2 env body True (snd ?e)"
  from updateStart2_anchored[OF updateEnd2_anchored[OF "1.prems"]]
  have I: "anchored2 body (snd ?b)" .
  show ?case
  proof (cases "fst ?b \<and> fst ?e")
    case True
    from "1.IH"[OF True I] True show ?thesis
      by (subst alternateExpansion2.simps) simp
  next
    case False
    with I show ?thesis by (subst alternateExpansion2.simps) auto
  qed
qed

lemma expandLineRange2_anchored:
  assumes "anchored2 body s"
  shows "anchored2 body (expandLineRange2 env body s)"
proof -
  obtain ks ke a where alt: "alternateExpansion2 env body s = (ks, ke, a)"
    by (metis prod_cases3)
  with alternateExpansion2_anchored[OF assms, of env] have Ia: "anchored2 body a" by simp
  let ?sd = "if ks then snd (updateHighlightLineRangeStart2 env body False a) else a"
  have Is: "anchored2 body ?sd" using Ia updateStart2_anchored by simp
  then have "anchored2 body
     (if ke then snd (updateHighlightLineRangeEnd2 env body False ?sd) else ?sd)"
    using updateEnd2_anchored by simp
  then show ?thesis by (simp add: expandLineRange2_def alt Let_def)
qed

lemma anchored2_cong: "lineRange2 s = lineRange2 t \<Longrightarrow> anchored2 body s = anchored2 body t"
  by (simp add: anchored2_def)

lemma collapse2_anchored: "anchored2 body s \<Longrightarrow> anchored2 body (collapse2 s)"
  by (auto simp: anchored2_def collapse2_def invalidateBoundingClientRectangle_def
      rangeInText_def collapse_def wellOrdered_def isBefore_def)

lemma resolveLineFrom2_anchored:
  assumes "anchored2 body seeded"
  shows "anchored2 body (resolveLineFrom2 env body n k mouseY seeded)"
proof -
  let ?m = "snd (getBoundingClientRect2 env seeded)"
  from assms have I1: "anchored2 body ?m" by (simp add: anchored2_def)
  then have "anchored2 body (resetLinesSpannedChecksCount ?m)"
    by (simp add: anchored2_def resetLinesSpannedChecksCount_def)
  from expandLineRange2_anchored[OF this]
  have I2: "anchored2 body (expandLineRange2 env body (resetLinesSpannedChecksCount ?m))" .
  show ?thesis
    unfolding resolveLineFrom2_def using I1 I2 collapse2_anchored by simp
qed

lemma seedLineRange2_anchored:
  assumes "k < length (nodeText body n)"
  shows "anchored2 body (seedLineRange2 n k s)"
proof -
  from assms have "nodeText body n \<noteq> []" by auto
  with assms show ?thesis
    by (simp add: anchored2_def seedLineRange2_single singleCharRange_def rangeInText_def
        wellOrdered_def isBefore_def)
qed

lemma setHighlightLineRange2_inText:
  assumes "setHighlightLineRange2 env body (Some (n, ofs)) mouseY s = Inr s'"
    and "isTextNode body n"
  shows "rangeInText body (lineRange2 s')"
proof -
  from assms have ne: "nodeText body n \<noteq> []"
    by (auto simp: setHighlightLineRange2_def split: if_splits)
  let ?k = "min ofs (length (nodeText body n) - 1)"
  from seedLineRange2_anchored[OF seedOffset_less[OF ne, of ofs]]
  have I: "anchored2 body (seedLineRange2 n ?k s)" .
  from setHighlightLineRange2_Inr[OF assms(2) ne, of env ofs mouseY s] assms(1)
  have "s' = resolveLineFrom2 env body n ?k mouseY (seedLineRange2 n ?k s)" by simp
  with resolveLineFrom2_anchored[OF I, of env n ?k mouseY] show ?thesis
    by (simp add: anchored2_def)
qed

subsection \<open>The boundaries of the word range\<close>

lemma findWordStart_at_char:
  "ofs < length (nodeText body m) \<Longrightarrow> findWordStart delim body m ofs = (s, so) \<Longrightarrow>
   so < length (nodeText body s)"
proof (induction delim body m ofs arbitrary: s so rule: findWordStart.induct)
  case (1 delim body startNode startOff)
  let ?t = "nodeText body startNode"
  let ?s = "scanWordStart delim ?t startOff"
  have s_lt: "?s < length ?t" using scanWordStart_le[of delim ?t startOff] "1.prems"(1) by simp
  show ?case
  proof (cases "0 < ?s")
    case True
    with "1.prems"(2) have "(s, so) = (startNode, ?s)"
      by (subst (asm) findWordStart.simps) auto
    with s_lt show ?thesis by simp
  next
    case z: False
    show ?thesis
    proof (cases "skipEmptyPrevious body startNode")
      case None
      with z "1.prems"(2) have "(s, so) = (startNode, ?s)"
        by (subst (asm) findWordStart.simps) auto
      with s_lt show ?thesis by simp
    next
      case (Some prevNode)
      show ?thesis
      proof (cases "\<not> isTextNode body prevNode
                  \<or> delim (nodeText body prevNode ! (length (nodeText body prevNode) - 1))")
        case True
        with z Some "1.prems"(2) have "(s, so) = (startNode, ?s)"
          by (subst (asm) findWordStart.simps) auto
        with s_lt show ?thesis by simp
      next
        case False
        with z Some "1.prems"(2)
        have rec: "findWordStart delim body prevNode (length (nodeText body prevNode) - 1) = (s, so)"
          by (subst (asm) findWordStart.simps) simp
        from skipEmptyPrevious_run[OF Some] False have "nodeText body prevNode \<noteq> []" by blast
        then have "length (nodeText body prevNode) - 1 < length (nodeText body prevNode)" by simp
        from "1.IH"[OF _ Some _ this rec] z False show ?thesis by simp
      qed
    qed
  qed
qed

lemma findWordStart_nonempty:
  "isTextNode body m \<Longrightarrow> nodeText body m \<noteq> [] \<Longrightarrow> ofs \<le> length (nodeText body m) \<Longrightarrow>
   findWordStart delim body m ofs = (s, so) \<Longrightarrow>
   isTextNode body s \<and> nodeText body s \<noteq> [] \<and> so \<le> length (nodeText body s)"
proof (induction delim body m ofs arbitrary: s so rule: findWordStart.induct)
  case (1 delim body startNode startOff)
  let ?t = "nodeText body startNode"
  let ?s = "scanWordStart delim ?t startOff"
  have s_le: "?s \<le> length ?t" using scanWordStart_le[of delim ?t startOff] "1.prems"(3) by simp
  note here = "1.prems"(1) "1.prems"(2) s_le
  show ?case
  proof (cases "0 < ?s")
    case True
    with "1.prems"(4) have "(s, so) = (startNode, ?s)"
      by (subst (asm) findWordStart.simps) auto
    with here show ?thesis by simp
  next
    case z: False
    show ?thesis
    proof (cases "skipEmptyPrevious body startNode")
      case None
      with z "1.prems"(4) have "(s, so) = (startNode, ?s)"
        by (subst (asm) findWordStart.simps) auto
      with here show ?thesis by simp
    next
      case (Some prevNode)
      show ?thesis
      proof (cases "\<not> isTextNode body prevNode
                  \<or> delim (nodeText body prevNode ! (length (nodeText body prevNode) - 1))")
        case True
        with z Some "1.prems"(4) have "(s, so) = (startNode, ?s)"
          by (subst (asm) findWordStart.simps) auto
        with here show ?thesis by simp
      next
        case False
        with z Some "1.prems"(4)
        have rec: "findWordStart delim body prevNode (length (nodeText body prevNode) - 1) = (s, so)"
          by (subst (asm) findWordStart.simps) simp
        from False have tp: "isTextNode body prevNode" by simp
        from skipEmptyPrevious_run[OF Some] False have np: "nodeText body prevNode \<noteq> []" by blast
        have "length (nodeText body prevNode) - 1 \<le> length (nodeText body prevNode)" by simp
        from "1.IH"[OF _ Some _ tp np this rec] z False show ?thesis by simp
      qed
    qed
  qed
qed

lemma findWordEnd_run_weak:
  assumes "findWordEnd delim body m ofs = (e, eo)" "m \<noteq> []" "isTextNode body m"
    "ofs \<le> length (nodeText body m)"
  shows "\<exists>j. e = butlast m @ [j] \<and> last m \<le> j \<and> isTextNode body e
           \<and> eo \<le> length (nodeText body e) \<and> (last m < j \<or> ofs \<le> eo)"
  using findWordEnd_run[OF assms]
  apply (elim exE conjE)
  subgoal for j
    apply (rule exI[of _ j])
    apply (intro conjI)
        apply assumption
       apply assumption
      apply simp
     apply assumption
    apply assumption
    done
  done

lemma findWordStart_run_weak:
  assumes "findWordStart delim body m ofs = (s, so)" "m \<noteq> []" "isTextNode body m"
    "ofs \<le> length (nodeText body m)"
  shows "\<exists>i. s = butlast m @ [i] \<and> i \<le> last m \<and> (i < last m \<or> so \<le> ofs)"
  using findWordStart_run[OF assms]
  apply (elim exE conjE)
  subgoal for i
    apply (rule exI[of _ i])
    apply (intro conjI)
      apply assumption
     apply assumption
    apply assumption
    done
  done

lemma resolveWord_points:
  assumes ne: "n \<noteq> []" and tx: "isTextNode body n" and le0: "ofs \<le> endOff"
    and le1: "endOff \<le> length (nodeText body n)"
  shows "startPoint (resolveWord delim body n ofs endOff r) = findWordStart delim body n ofs
       \<and> endPoint (resolveWord delim body n ofs endOff r) = findWordEnd delim body n endOff"
proof -
  obtain e eo where fe: "findWordEnd delim body n endOff = (e, eo)" by fastforce
  obtain s so where fs: "findWordStart delim body n ofs = (s, so)" by fastforce
  from le0 le1 have le2: "ofs \<le> length (nodeText body n)" by simp
  from findWordEnd_run_weak[OF fe ne tx le1] obtain j where
    j: "e = butlast n @ [j]" "last n \<le> j" "last n < j \<or> endOff \<le> eo" by blast
  from findWordStart_run_weak[OF fs ne tx le2] obtain i where
    i: "s = butlast n @ [i]" "i \<le> last n" "i < last n \<or> so \<le> ofs" by blast
  have "\<not> isBefore (e, eo) (s, so)"
  proof (cases "i < j")
    case True
    then have "s < e" unfolding i(1) j(1) by (rule snoc_less_snoc)
    then show ?thesis by (auto simp: isBefore_def)
  next
    case False
    with i j have "i = j" "i = last n" by simp_all
    with i j le0 have "s = e" "so \<le> eo" by auto
    then show ?thesis by (simp add: isBefore_def)
  qed
  from setStart_setEnd[OF this, of r] show ?thesis
    by (simp add: resolveWord_def fe fs startPoint_def endPoint_def)
qed

lemma findWordEnd_in_text:
  assumes "n \<noteq> []" "isTextNode body n" "ofs \<le> length (nodeText body n)"
    and "findWordEnd delim body n ofs = (e, eo)"
  shows "isTextNode body e \<and> eo \<le> length (nodeText body e)"
  using findWordEnd_run_weak[OF assms(4,1,2,3)] by blast

lemma setHighlightWordRangeWith_anchored:
  assumes ne: "n \<noteq> []" and tx: "isTextNode body n" and nz: "nodeText body n \<noteq> []"
    and le: "ofs \<le> length (nodeText body n)"
    and wc: "ofs < length (nodeText body n) \<longrightarrow> \<not> delim (nodeText body n ! ofs)"
  shows "isTextNode body (startContainer (setHighlightWordRangeWith delim body (Some (n, ofs)) w))
     \<and> nodeText body (startContainer (setHighlightWordRangeWith delim body (Some (n, ofs)) w)) \<noteq> []
     \<and> startOffset (setHighlightWordRangeWith delim body (Some (n, ofs)) w)
         \<le> length (nodeText body (startContainer (setHighlightWordRangeWith delim body (Some (n, ofs)) w)))
     \<and> (ofs < length (nodeText body n) \<longrightarrow>
          startOffset (setHighlightWordRangeWith delim body (Some (n, ofs)) w)
            < length (nodeText body (startContainer (setHighlightWordRangeWith delim body (Some (n, ofs)) w))))
     \<and> isTextNode body (endContainer (setHighlightWordRangeWith delim body (Some (n, ofs)) w))
     \<and> endOffset (setHighlightWordRangeWith delim body (Some (n, ofs)) w)
         \<le> length (nodeText body (endContainer (setHighlightWordRangeWith delim body (Some (n, ofs)) w)))"
proof -
  let ?eo = "if ofs < length (nodeText body n) then Suc ofs else length (nodeText body n)"
  let ?r = "resolveWord delim body n ofs ?eo w"
  have eq: "setHighlightWordRangeWith delim body (Some (n, ofs)) w = ?r"
    using tx wc by (simp add: setHighlightWordRangeWith_def)
  have b0: "ofs \<le> ?eo" using le by simp
  have b1: "?eo \<le> length (nodeText body n)" by simp
  obtain e eo where fe: "findWordEnd delim body n ?eo = (e, eo)" by fastforce
  obtain s so where fs: "findWordStart delim body n ofs = (s, so)" by fastforce
  from resolveWord_points[OF ne tx b0 b1, of delim w] fe fs
  have p: "startContainer ?r = s" "startOffset ?r = so" "endContainer ?r = e" "endOffset ?r = eo"
    by (simp_all add: startPoint_def endPoint_def)
  from findWordStart_nonempty[OF tx nz le fs]
  have st: "isTextNode body s" "nodeText body s \<noteq> []" "so \<le> length (nodeText body s)"
    by simp_all
  have lt: "ofs < length (nodeText body n) \<longrightarrow> so < length (nodeText body s)"
    using findWordStart_at_char[OF _ fs] by blast
  from findWordEnd_in_text[OF ne tx b1 fe]
  have en: "isTextNode body e" "eo \<le> length (nodeText body e)" by simp_all
  show ?thesis unfolding eq p using st lt en by simp
qed

text \<open>
  C6, as the code has it. Word resolution from a hit in a non-empty text run, at an
  offset within the run, goes on to set the range when the offset is the length of the
  run or the character at the offset is a word character. The range it leaves has its
  start boundary in a non-empty text run, with the offset within the run, and at one of
  its characters when the hit is on a character; its end boundary is in a text run with
  the offset within the run. That run can be empty, because the forward loop moves on
  into every following text run. After line resolution on a hit in a non-empty text run,
  which returns normally, both boundaries of the line range reference non-empty text
  runs with their offsets within the runs. On a hit on a delimiter, on a node that is
  not a text run, and without a caret position, word resolution returns the range as it
  was; on the last two, line resolution does too. Stated for both parts of the source.
\<close>

theorem resolved_ranges_anchored_in_text:
  "(n \<noteq> [] \<and> isTextNode body n \<and> nodeText body n \<noteq> []
      \<and> ofs \<le> length (nodeText body n)
      \<and> (ofs < length (nodeText body n) \<longrightarrow> isWordChar (nodeText body n ! ofs)) \<longrightarrow>
      isTextNode body (startContainer (setHighlightWordRange body (Some (n, ofs)) w))
      \<and> nodeText body (startContainer (setHighlightWordRange body (Some (n, ofs)) w)) \<noteq> []
      \<and> startOffset (setHighlightWordRange body (Some (n, ofs)) w)
          \<le> length (nodeText body (startContainer (setHighlightWordRange body (Some (n, ofs)) w)))
      \<and> (ofs < length (nodeText body n) \<longrightarrow>
           startOffset (setHighlightWordRange body (Some (n, ofs)) w)
             < length (nodeText body (startContainer (setHighlightWordRange body (Some (n, ofs)) w))))
      \<and> isTextNode body (endContainer (setHighlightWordRange body (Some (n, ofs)) w))
      \<and> endOffset (setHighlightWordRange body (Some (n, ofs)) w)
          \<le> length (nodeText body (endContainer (setHighlightWordRange body (Some (n, ofs)) w))))
   \<and> (n \<noteq> [] \<and> isTextNode body n \<and> nodeText body n \<noteq> []
      \<and> ofs \<le> length (nodeText body n)
      \<and> (ofs < length (nodeText body n) \<longrightarrow> isWordChar2 (nodeText body n ! ofs)) \<longrightarrow>
      isTextNode body (startContainer (setHighlightWordRange2 body (Some (n, ofs)) w))
      \<and> nodeText body (startContainer (setHighlightWordRange2 body (Some (n, ofs)) w)) \<noteq> []
      \<and> startOffset (setHighlightWordRange2 body (Some (n, ofs)) w)
          \<le> length (nodeText body (startContainer (setHighlightWordRange2 body (Some (n, ofs)) w)))
      \<and> (ofs < length (nodeText body n) \<longrightarrow>
           startOffset (setHighlightWordRange2 body (Some (n, ofs)) w)
             < length (nodeText body (startContainer (setHighlightWordRange2 body (Some (n, ofs)) w))))
      \<and> isTextNode body (endContainer (setHighlightWordRange2 body (Some (n, ofs)) w))
      \<and> endOffset (setHighlightWordRange2 body (Some (n, ofs)) w)
          \<le> length (nodeText body (endContainer (setHighlightWordRange2 body (Some (n, ofs)) w))))
   \<and> (isTextNode body n \<and> ofs < length (nodeText body n)
        \<and> isDelimiter (nodeText body n ! ofs) \<longrightarrow>
        setHighlightWordRange body (Some (n, ofs)) w = w)
   \<and> (isTextNode body n \<and> ofs < length (nodeText body n)
        \<and> isDelimiter2 (nodeText body n ! ofs) \<longrightarrow>
        setHighlightWordRange2 body (Some (n, ofs)) w = w)
   \<and> (\<not> isTextNode body n \<longrightarrow>
        setHighlightWordRange body (Some (n, ofs)) w = w
        \<and> setHighlightWordRange2 body (Some (n, ofs)) w = w)
   \<and> setHighlightWordRange body None w = w
   \<and> setHighlightWordRange2 body None w = w
   \<and> (isTextNode body n \<and> nodeText body n \<noteq> [] \<longrightarrow>
        (\<exists>s'. setHighlightLineRange env body (Some (n, ofs)) mouseY s = Inr s'
           \<and> rangeInText body (lineRange s'))
        \<and> (\<exists>s'. setHighlightLineRange2 env body (Some (n, ofs)) mouseY s2 = Inr s'
           \<and> rangeInText body (lineRange2 s')))
   \<and> (\<not> isTextNode body n \<longrightarrow>
        setHighlightLineRange env body (Some (n, ofs)) mouseY s = Inr s
        \<and> setHighlightLineRange2 env body (Some (n, ofs)) mouseY s2 = Inr s2)
   \<and> setHighlightLineRange env body None mouseY s = Inr s
   \<and> setHighlightLineRange2 env body None mouseY s2 = Inr s2"
proof -
  have w1: "(n \<noteq> [] \<and> isTextNode body n \<and> nodeText body n \<noteq> []
      \<and> ofs \<le> length (nodeText body n)
      \<and> (ofs < length (nodeText body n) \<longrightarrow> isWordChar (nodeText body n ! ofs)) \<longrightarrow>
      isTextNode body (startContainer (setHighlightWordRange body (Some (n, ofs)) w))
      \<and> nodeText body (startContainer (setHighlightWordRange body (Some (n, ofs)) w)) \<noteq> []
      \<and> startOffset (setHighlightWordRange body (Some (n, ofs)) w)
          \<le> length (nodeText body (startContainer (setHighlightWordRange body (Some (n, ofs)) w)))
      \<and> (ofs < length (nodeText body n) \<longrightarrow>
           startOffset (setHighlightWordRange body (Some (n, ofs)) w)
             < length (nodeText body (startContainer (setHighlightWordRange body (Some (n, ofs)) w))))
      \<and> isTextNode body (endContainer (setHighlightWordRange body (Some (n, ofs)) w))
      \<and> endOffset (setHighlightWordRange body (Some (n, ofs)) w)
          \<le> length (nodeText body (endContainer (setHighlightWordRange body (Some (n, ofs)) w))))"
  proof
    assume a: "n \<noteq> [] \<and> isTextNode body n \<and> nodeText body n \<noteq> []
      \<and> ofs \<le> length (nodeText body n)
      \<and> (ofs < length (nodeText body n) \<longrightarrow> isWordChar (nodeText body n ! ofs))"
    then have a1: "n \<noteq> []" and a2: "isTextNode body n" and a3: "nodeText body n \<noteq> []"
      and a4: "ofs \<le> length (nodeText body n)"
      and a5: "ofs < length (nodeText body n) \<longrightarrow> \<not> isDelimiter (nodeText body n ! ofs)"
      by (simp_all add: isWordChar_def)
    show "isTextNode body (startContainer (setHighlightWordRange body (Some (n, ofs)) w))
      \<and> nodeText body (startContainer (setHighlightWordRange body (Some (n, ofs)) w)) \<noteq> []
      \<and> startOffset (setHighlightWordRange body (Some (n, ofs)) w)
          \<le> length (nodeText body (startContainer (setHighlightWordRange body (Some (n, ofs)) w)))
      \<and> (ofs < length (nodeText body n) \<longrightarrow>
           startOffset (setHighlightWordRange body (Some (n, ofs)) w)
             < length (nodeText body (startContainer (setHighlightWordRange body (Some (n, ofs)) w))))
      \<and> isTextNode body (endContainer (setHighlightWordRange body (Some (n, ofs)) w))
      \<and> endOffset (setHighlightWordRange body (Some (n, ofs)) w)
          \<le> length (nodeText body (endContainer (setHighlightWordRange body (Some (n, ofs)) w)))"
      unfolding setHighlightWordRange_def
      by (rule setHighlightWordRangeWith_anchored[where delim = isDelimiter and w = w,
            OF a1 a2 a3 a4 a5])
  qed
  have w2: "(n \<noteq> [] \<and> isTextNode body n \<and> nodeText body n \<noteq> []
      \<and> ofs \<le> length (nodeText body n)
      \<and> (ofs < length (nodeText body n) \<longrightarrow> isWordChar2 (nodeText body n ! ofs)) \<longrightarrow>
      isTextNode body (startContainer (setHighlightWordRange2 body (Some (n, ofs)) w))
      \<and> nodeText body (startContainer (setHighlightWordRange2 body (Some (n, ofs)) w)) \<noteq> []
      \<and> startOffset (setHighlightWordRange2 body (Some (n, ofs)) w)
          \<le> length (nodeText body (startContainer (setHighlightWordRange2 body (Some (n, ofs)) w)))
      \<and> (ofs < length (nodeText body n) \<longrightarrow>
           startOffset (setHighlightWordRange2 body (Some (n, ofs)) w)
             < length (nodeText body (startContainer (setHighlightWordRange2 body (Some (n, ofs)) w))))
      \<and> isTextNode body (endContainer (setHighlightWordRange2 body (Some (n, ofs)) w))
      \<and> endOffset (setHighlightWordRange2 body (Some (n, ofs)) w)
          \<le> length (nodeText body (endContainer (setHighlightWordRange2 body (Some (n, ofs)) w))))"
  proof
    assume a: "n \<noteq> [] \<and> isTextNode body n \<and> nodeText body n \<noteq> []
      \<and> ofs \<le> length (nodeText body n)
      \<and> (ofs < length (nodeText body n) \<longrightarrow> isWordChar2 (nodeText body n ! ofs))"
    then have a1: "n \<noteq> []" and a2: "isTextNode body n" and a3: "nodeText body n \<noteq> []"
      and a4: "ofs \<le> length (nodeText body n)"
      and a5: "ofs < length (nodeText body n) \<longrightarrow> \<not> isDelimiter2 (nodeText body n ! ofs)"
      by (simp_all add: isWordChar2_def)
    show "isTextNode body (startContainer (setHighlightWordRange2 body (Some (n, ofs)) w))
      \<and> nodeText body (startContainer (setHighlightWordRange2 body (Some (n, ofs)) w)) \<noteq> []
      \<and> startOffset (setHighlightWordRange2 body (Some (n, ofs)) w)
          \<le> length (nodeText body (startContainer (setHighlightWordRange2 body (Some (n, ofs)) w)))
      \<and> (ofs < length (nodeText body n) \<longrightarrow>
           startOffset (setHighlightWordRange2 body (Some (n, ofs)) w)
             < length (nodeText body (startContainer (setHighlightWordRange2 body (Some (n, ofs)) w))))
      \<and> isTextNode body (endContainer (setHighlightWordRange2 body (Some (n, ofs)) w))
      \<and> endOffset (setHighlightWordRange2 body (Some (n, ofs)) w)
          \<le> length (nodeText body (endContainer (setHighlightWordRange2 body (Some (n, ofs)) w)))"
      unfolding setHighlightWordRange2_def
      by (rule setHighlightWordRangeWith_anchored[where delim = isDelimiter2 and w = w,
            OF a1 a2 a3 a4 a5])
  qed
  have l: "(isTextNode body n \<and> ofs < length (nodeText body n)
        \<and> isDelimiter (nodeText body n ! ofs) \<longrightarrow>
        setHighlightWordRange body (Some (n, ofs)) w = w)
   \<and> (isTextNode body n \<and> ofs < length (nodeText body n)
        \<and> isDelimiter2 (nodeText body n ! ofs) \<longrightarrow>
        setHighlightWordRange2 body (Some (n, ofs)) w = w)
   \<and> (\<not> isTextNode body n \<longrightarrow>
        setHighlightWordRange body (Some (n, ofs)) w = w
        \<and> setHighlightWordRange2 body (Some (n, ofs)) w = w)
   \<and> setHighlightWordRange body None w = w
   \<and> setHighlightWordRange2 body None w = w
   \<and> (isTextNode body n \<and> nodeText body n \<noteq> [] \<longrightarrow>
        (\<exists>s'. setHighlightLineRange env body (Some (n, ofs)) mouseY s = Inr s'
           \<and> rangeInText body (lineRange s'))
        \<and> (\<exists>s'. setHighlightLineRange2 env body (Some (n, ofs)) mouseY s2 = Inr s'
           \<and> rangeInText body (lineRange2 s')))
   \<and> (\<not> isTextNode body n \<longrightarrow>
        setHighlightLineRange env body (Some (n, ofs)) mouseY s = Inr s
        \<and> setHighlightLineRange2 env body (Some (n, ofs)) mouseY s2 = Inr s2)
   \<and> setHighlightLineRange env body None mouseY s = Inr s
   \<and> setHighlightLineRange2 env body None mouseY s2 = Inr s2"
  proof (intro conjI impI)
  assume "isTextNode body n \<and> ofs < length (nodeText body n)
        \<and> isDelimiter (nodeText body n ! ofs)"
  then show "setHighlightWordRange body (Some (n, ofs)) w = w"
    by (simp add: setHighlightWordRange_def setHighlightWordRangeWith_def)
next
  assume "isTextNode body n \<and> ofs < length (nodeText body n)
        \<and> isDelimiter2 (nodeText body n ! ofs)"
  then show "setHighlightWordRange2 body (Some (n, ofs)) w = w"
    by (simp add: setHighlightWordRange2_def setHighlightWordRangeWith_def)
next
  assume "\<not> isTextNode body n"
  then show "setHighlightWordRange body (Some (n, ofs)) w = w"
    and "setHighlightWordRange2 body (Some (n, ofs)) w = w"
    by (simp_all add: setHighlightWordRange_def setHighlightWordRange2_def
        setHighlightWordRangeWith_def)
next
  show "setHighlightWordRange body None w = w"
    by (simp add: setHighlightWordRange_def setHighlightWordRangeWith_def)
  show "setHighlightWordRange2 body None w = w"
    by (simp add: setHighlightWordRange2_def setHighlightWordRangeWith_def)
next
  assume a: "isTextNode body n \<and> nodeText body n \<noteq> []"
  then have t: "isTextNode body n" and ne: "nodeText body n \<noteq> []" by simp_all
  let ?k = "min ofs (length (nodeText body n) - 1)"
  let ?r = "resolveLineFrom env body n ?k mouseY (seedLineRange n ?k s)"
  note e = setHighlightLineRange_Inr[OF t ne, of env ofs mouseY s]
  from setHighlightLineRange_inText[OF e t] e
  have "setHighlightLineRange env body (Some (n, ofs)) mouseY s = Inr ?r
           \<and> rangeInText body (lineRange ?r)" by simp
  then show "\<exists>s'. setHighlightLineRange env body (Some (n, ofs)) mouseY s = Inr s'
           \<and> rangeInText body (lineRange s')"
    by (rule exI[where x = ?r])
  let ?r2 = "resolveLineFrom2 env body n ?k mouseY (seedLineRange2 n ?k s2)"
  note e2 = setHighlightLineRange2_Inr[OF t ne, of env ofs mouseY s2]
  from setHighlightLineRange2_inText[OF e2 t] e2
  have "setHighlightLineRange2 env body (Some (n, ofs)) mouseY s2 = Inr ?r2
           \<and> rangeInText body (lineRange2 ?r2)" by simp
  then show "\<exists>s'. setHighlightLineRange2 env body (Some (n, ofs)) mouseY s2 = Inr s'
           \<and> rangeInText body (lineRange2 s')"
    by (rule exI[where x = ?r2])
next
  assume "\<not> isTextNode body n"
  then show "setHighlightLineRange env body (Some (n, ofs)) mouseY s = Inr s"
    and "setHighlightLineRange2 env body (Some (n, ofs)) mouseY s2 = Inr s2"
    by (simp_all add: setHighlightLineRange_def setHighlightLineRange2_def)
next
  show "setHighlightLineRange env body None mouseY s = Inr s"
    by (simp add: setHighlightLineRange_def)
  show "setHighlightLineRange2 env body None mouseY s2 = Inr s2"
    by (simp add: setHighlightLineRange2_def)
qed
  show ?thesis by (rule conjI[OF w1 conjI[OF w2 l]])
qed

theorem resolved_ranges_anchored_in_text_witness:
  "[0] \<noteq> ([] :: path) \<and> isTextNode aSpaceB [0] \<and> nodeText aSpaceB [0] \<noteq> []
   \<and> 0 < length (nodeText aSpaceB [0])
   \<and> isWordChar (nodeText aSpaceB [0] ! 0) \<and> isWordChar2 (nodeText aSpaceB [0] ! 0)
   \<and> 3 \<le> length (nodeText aSpaceB [0]) \<and> \<not> 3 < length (nodeText aSpaceB [0])
   \<and> 1 < length (nodeText aSpaceB [0])
   \<and> isDelimiter (nodeText aSpaceB [0] ! 1) \<and> isDelimiter2 (nodeText aSpaceB [0] ! 1)
   \<and> \<not> isTextNode aSpaceB []
   \<and> setHighlightWordRange aSpaceB (Some ([0], 0)) createRange
       = \<lparr>startContainer = [0], startOffset = 0, endContainer = [0], endOffset = 1\<rparr>
   \<and> setHighlightWordRange aSpaceB (Some ([0], 3)) createRange
       = \<lparr>startContainer = [0], startOffset = 2, endContainer = [0], endOffset = 3\<rparr>
   \<and> nodeText aSpaceB (startContainer (setHighlightWordRange aSpaceB (Some ([0], 0)) createRange))
       \<noteq> []
   \<and> nodeText aSpaceB (startContainer (setHighlightWordRange2 aSpaceB (Some ([0], 0)) createRange))
       \<noteq> []
   \<and> nodeText aSpaceB (startContainer (setHighlightWordRange aSpaceB (Some ([0], 3)) createRange))
       \<noteq> []
   \<and> nodeText aSpaceB (startContainer (setHighlightWordRange2 aSpaceB (Some ([0], 3)) createRange))
       \<noteq> []
   \<and> setHighlightWordRange aSpaceB (Some ([0], 1)) createRange = createRange
   \<and> setHighlightWordRange2 aSpaceB (Some ([0], 1)) createRange = createRange
   \<and> setHighlightWordRange aSpaceB (Some ([], 0)) createRange = createRange
   \<and> setHighlightLineRange (fixedPitchLine None) aSpaceB (Some ([], 0)) 10 newLineRange
       = Inr newLineRange
   \<and> map_sum id lineRange
        (setHighlightLineRange (fixedPitchLine None) aSpaceB (Some ([0], 0)) 10 newLineRange)
       = Inr \<lparr>startContainer = [0], startOffset = 0, endContainer = [0], endOffset = 3\<rparr>
   \<and> (\<exists>s'. setHighlightLineRange (fixedPitchLine None) aSpaceB (Some ([0], 0)) 10 newLineRange
              = Inr s' \<and> rangeInText aSpaceB (lineRange s'))
   \<and> (\<exists>s'. setHighlightLineRange2 (fixedPitchLine None) aSpaceB (Some ([0], 0)) 10 newLineRange2
              = Inr s' \<and> rangeInText aSpaceB (lineRange2 s'))"
proof -
  have h1: "[0] \<noteq> ([] :: path)" by simp
  have h2: "isTextNode aSpaceB [0]" by code_simp
  have h3: "0 < length (nodeText aSpaceB [0])" by code_simp
  have h4: "isWordChar (nodeText aSpaceB [0] ! 0)" by code_simp
  have h5: "isWordChar2 (nodeText aSpaceB [0] ! 0)" by code_simp
  have h6: "nodeText aSpaceB [0] \<noteq> []" by code_simp
  have h7: "\<not> isTextNode aSpaceB []" by code_simp
  have h8: "3 \<le> length (nodeText aSpaceB [0])" by code_simp
  have h9: "\<not> 3 < length (nodeText aSpaceB [0])" by code_simp
  have h10: "1 < length (nodeText aSpaceB [0])" by code_simp
  have h11: "isDelimiter (nodeText aSpaceB [0] ! 1)" by code_simp
  have h12: "isDelimiter2 (nodeText aSpaceB [0] ! 1)" by code_simp
  have h13: "(0::nat) \<le> length (nodeText aSpaceB [0])" by simp
  have e1: "setHighlightWordRange aSpaceB (Some ([0], 0)) createRange
       = \<lparr>startContainer = [0], startOffset = 0, endContainer = [0], endOffset = 1\<rparr>"
    by code_simp
  have e2: "map_sum id lineRange
        (setHighlightLineRange (fixedPitchLine None) aSpaceB (Some ([0], 0)) 10 newLineRange)
       = Inr \<lparr>startContainer = [0], startOffset = 0, endContainer = [0], endOffset = 3\<rparr>"
    by code_simp
  have e3: "setHighlightWordRange aSpaceB (Some ([0], 3)) createRange
       = \<lparr>startContainer = [0], startOffset = 2, endContainer = [0], endOffset = 3\<rparr>"
    by code_simp
  note at0 = resolved_ranges_anchored_in_text[where n = "[0]" and body = aSpaceB and ofs = 0
      and w = createRange and env = "fixedPitchLine None" and mouseY = 10 and s = newLineRange
      and ?s2.0 = newLineRange2]
  note at3 = resolved_ranges_anchored_in_text[where n = "[0]" and body = aSpaceB and ofs = 3
      and w = createRange and env = "fixedPitchLine None" and mouseY = 10 and s = newLineRange
      and ?s2.0 = newLineRange2]
  note at1 = resolved_ranges_anchored_in_text[where n = "[0]" and body = aSpaceB and ofs = 1
      and w = createRange and env = "fixedPitchLine None" and mouseY = 10 and s = newLineRange
      and ?s2.0 = newLineRange2]
  note atRoot = resolved_ranges_anchored_in_text[where n = "[]" and body = aSpaceB and ofs = 0
      and w = createRange and env = "fixedPitchLine None" and mouseY = 10 and s = newLineRange
      and ?s2.0 = newLineRange2]
  from at0 h1 h2 h6 h13 h3 h4 h5
  have c0: "nodeText aSpaceB (startContainer (setHighlightWordRange aSpaceB (Some ([0], 0)) createRange))
       \<noteq> []"
    and c0': "nodeText aSpaceB (startContainer (setHighlightWordRange2 aSpaceB (Some ([0], 0)) createRange))
       \<noteq> []"
    and l0: "\<exists>s'. setHighlightLineRange (fixedPitchLine None) aSpaceB (Some ([0], 0)) 10 newLineRange
              = Inr s' \<and> rangeInText aSpaceB (lineRange s')"
    and l0': "\<exists>s'. setHighlightLineRange2 (fixedPitchLine None) aSpaceB (Some ([0], 0)) 10 newLineRange2
              = Inr s' \<and> rangeInText aSpaceB (lineRange2 s')"
    by blast+
  from at3 h1 h2 h6 h8 h9
  have c3: "nodeText aSpaceB (startContainer (setHighlightWordRange aSpaceB (Some ([0], 3)) createRange))
       \<noteq> []"
    and c3': "nodeText aSpaceB (startContainer (setHighlightWordRange2 aSpaceB (Some ([0], 3)) createRange))
       \<noteq> []"
    by blast+
  from at1 h2 h10 h11 h12
  have c1: "setHighlightWordRange aSpaceB (Some ([0], 1)) createRange = createRange"
    and c1': "setHighlightWordRange2 aSpaceB (Some ([0], 1)) createRange = createRange"
    by blast+
  from atRoot h7
  have cr: "setHighlightWordRange aSpaceB (Some ([], 0)) createRange = createRange"
    and lr: "setHighlightLineRange (fixedPitchLine None) aSpaceB (Some ([], 0)) 10 newLineRange
       = Inr newLineRange"
    by blast+
  from h1 h2 h6 h3 h4 h5 h8 h9 h10 h11 h12 h7 e1 e3 c0 c0' c3 c3' c1 c1' cr lr e2 l0 l0'
  show ?thesis by (intro conjI)
qed

text \<open>
  Against C6 as stated: on the word \<open>ab\<close> followed by an empty text run, word
  resolution from the letter \<open>a\<close> leaves a range that is not collapsed and whose end
  boundary references the empty run, in both parts.
\<close>

theorem word_range_ends_in_empty_run:
  "isWordChar (nodeText trailingEmptyRun [0] ! 0)
   \<and> setHighlightWordRange trailingEmptyRun (Some ([0], 0)) createRange
       = \<lparr>startContainer = [0], startOffset = 0, endContainer = [1], endOffset = 0\<rparr>
   \<and> setHighlightWordRange2 trailingEmptyRun (Some ([0], 0)) createRange
       = \<lparr>startContainer = [0], startOffset = 0, endContainer = [1], endOffset = 0\<rparr>
   \<and> \<not> collapsed \<lparr>startContainer = [0], startOffset = 0, endContainer = [1], endOffset = 0\<rparr>
   \<and> isTextNode trailingEmptyRun [1] \<and> nodeText trailingEmptyRun [1] = []"
  by (intro conjI; code_simp)

section \<open>The two single-line heuristics\<close>

text \<open>
  Two comparisons at the thresholds, evaluated on binary64 values as the code evaluates
  them: \<^verbatim>\<open>1.73 * 16 <= 27.68\<close> holds and \<^verbatim>\<open>1.75 * 14.4 > 25.2\<close> does not.
\<close>

lemma binary64_at_the_thresholds:
  "doubleMul (roundToDouble 1.73) 16 \<le> roundToDouble 27.68"
  "\<not> roundToDouble 25.2 < doubleMul 1.75 (roundToDouble 14.4)"
  by code_simp+











end
